(* ===== verification/Prelude.thy ===== *)
theory Prelude
  imports Main "HOL-Library.Word" "HOL-Library.List_Lexorder" "HOL-Library.Product_Lexorder"
begin

text \<open>
  The vocabulary every component shares: the machine types of the Rust code, the errors its
  \<^verbatim>\<open>anyhow::Result\<close> values carry, result combinators, the 32-byte \<open>key\<close> type with its
  order, and generic lemmas on lists, options and words.
\<close>

named_theorems result_simps \<open>unfolding the result combinators\<close>
named_theorems frame_simps \<open>fields an operation leaves alone\<close>

section \<open>Machine types\<close>

text \<open>The target is a 64-bit one: \<open>usize\<close> and \<open>u64\<close> have the same width.\<close>

type_synonym byte = "8 word"
type_synonym u64 = "64 word"
type_synonym usize = "64 word"

text \<open>A signed integer is the same word, read with \<open>sint\<close>.\<close>

type_synonym i64 = "64 word"

text \<open>A reading of the monotonic clock (\<^verbatim>\<open>std::time::Instant\<close>), in nanoseconds.\<close>

type_synonym instant = nat

definition seconds :: "nat \<Rightarrow> nat" where
  "seconds n = n * 1000000000"

text \<open>\<^verbatim>\<open>Instant::elapsed\<close> saturates at zero, as subtraction on \<open>nat\<close> does.\<close>

definition elapsed :: "instant \<Rightarrow> instant \<Rightarrow> nat" where
  "elapsed now at = now - at"

text \<open>\<^verbatim>\<open>usize::saturating_add\<close>.\<close>

definition saturating_add :: "usize \<Rightarrow> usize \<Rightarrow> usize" where
  "saturating_add a b = (if unat a + unat b < 2 ^ 64 then a + b else -1)"

lemma unat_saturating_add:
  "unat (saturating_add a b) = min (unat a + unat b) (2 ^ 64 - 1)"
proof (cases "unat a + unat b < 2 ^ 64")
  case True
  then have "unat (a + b) = unat a + unat b"
    by (subst unat_add_lem[symmetric]) simp
  with True show ?thesis by (simp add: saturating_add_def)
next
  case False
  have "unat (- 1 :: 64 word) = 2 ^ 64 - 1" by (simp add: unsigned_minus_1_eq_mask mask_eq_exp_minus_1)
  with False show ?thesis by (simp add: saturating_add_def)
qed

section \<open>Errors and results\<close>

text \<open>
  One constructor per error the code raises with \<^verbatim>\<open>ensure!\<close>, \<^verbatim>\<open>bail!\<close>,
  \<^verbatim>\<open>context\<close> or \<^verbatim>\<open>map_err\<close>. \<open>Dependency\<close> stands for an error value that a
  library call returned and \<^verbatim>\<open>?\<close> passed on.
\<close>

datatype error =
    Dependency string
  | InvalidKeyLength
  | OwnerNotAlt
  | InvalidPubkey
  | InvalidAltData
  | InvalidRpcData
  | JsonParsedUnsupported
  | EncodingFailed
  | SlicePanic
  | IndexPanic
  | UnwrapPanic
  | PageLimitNotPositive
  | CacheNotReady
  | SnapshotExpired
  | AccountBodyMissing
  | InvalidAccountKey
  | InvalidOwnerKey
  | SourcesStopped
  | BootstrapBufferFull
  | RefreshBufferFull
  | RefreshTaskFailed
  | CursorSeparatorMissing
  | InvalidSlotNumber
  | RpcErrorReply i64 string
  | RpcResultMissing
  | RpcContextMissing
  | RpcSlotBelowMinimum u64 u64
  | RpcContextRegressed u64 u64
  | RpcRepeatedCursor
  | InvalidAddress
  | NoSnapshotUrl
  | NoYellowstoneSource
  | SnapshotUrlsNotUnique
  | SourceUrlsNotUnique
  | SnapshotSlotChanged u64 u64
  | SnapshotCountChanged u64 u64
  | SnapshotStreamEmpty
  | SnapshotIncomplete nat u64
  | UpdateAfterConfirmation
  | ClientBufferFull
  | StreamClosed
  | PingNotSent
  | SourceTimedOut
  | AllSourcesFailed
  | AddressesNotDifferent
  | NoGrpcSource
  | NotPositive string
  | DirectAndEnvironment string
  | ValueEmpty string
  | ValueRequired string
  | EnvironmentMissing string
  | EnvironmentEmpty string
  | EventsClosed
  | AlertsInitialized
  | JsonRpcStopped
  | SnapshotGrpcStopped

type_synonym 'a result = "error + 'a"

text \<open>\<^verbatim>\<open>Result::and_then\<close>, which is also what \<^verbatim>\<open>?\<close> does.\<close>

definition and_then :: "'e + 'a \<Rightarrow> ('a \<Rightarrow> 'e + 'b) \<Rightarrow> 'e + 'b" where
  "and_then r f = (case r of Inl e \<Rightarrow> Inl e | Inr x \<Rightarrow> f x)"

text \<open>\<^verbatim>\<open>Option::context\<close> and \<^verbatim>\<open>ok_or\<close>.\<close>

definition ok_or :: "'e \<Rightarrow> 'a option \<Rightarrow> 'e + 'a" where
  "ok_or e x = (case x of None \<Rightarrow> Inl e | Some y \<Rightarrow> Inr y)"

text \<open>\<^verbatim>\<open>Result::map_err\<close>.\<close>

definition map_err :: "('e \<Rightarrow> 'f) \<Rightarrow> 'e + 'a \<Rightarrow> 'f + 'a" where
  "map_err f r = (case r of Inl e \<Rightarrow> Inl (f e) | Inr x \<Rightarrow> Inr x)"

text \<open>\<^verbatim>\<open>ensure!\<close> in front of the rest of a function.\<close>

definition ensure :: "bool \<Rightarrow> 'e \<Rightarrow> 'e + 'a \<Rightarrow> 'e + 'a" where
  "ensure b e r = (if b then r else Inl e)"

definition is_ok :: "'e + 'a \<Rightarrow> bool" where
  "is_ok r = (case r of Inl _ \<Rightarrow> False | Inr _ \<Rightarrow> True)"

text \<open>\<^verbatim>\<open>iter().map(f).collect::<Result<Vec<_>>>()\<close>: the first error wins.\<close>

fun collect_results :: "('a \<Rightarrow> 'e + 'b) \<Rightarrow> 'a list \<Rightarrow> 'e + 'b list" where
  "collect_results f [] = Inr []"
| "collect_results f (x # xs) =
     and_then (f x) (\<lambda>y. and_then (collect_results f xs) (\<lambda>ys. Inr (y # ys)))"

lemma and_then_simps [simp, result_simps]:
  "and_then (Inl e) f = Inl e" "and_then (Inr x) f = f x"
  by (simp_all add: and_then_def)

lemma ok_or_simps [simp, result_simps]:
  "ok_or e None = Inl e" "ok_or e (Some x) = Inr x"
  by (simp_all add: ok_or_def)

lemma map_err_simps [simp, result_simps]:
  "map_err f (Inl e) = Inl (f e)" "map_err f (Inr x) = Inr x"
  by (simp_all add: map_err_def)

lemma ensure_simps [simp, result_simps]:
  "ensure True e r = r" "ensure False e r = Inl e"
  by (simp_all add: ensure_def)

lemma is_ok_simps [simp]: "is_ok (Inl e) = False" "is_ok (Inr x) = True"
  by (simp_all add: is_ok_def)

lemma and_then_eq_Inr: "and_then r f = Inr y \<longleftrightarrow> (\<exists>x. r = Inr x \<and> f x = Inr y)"
  by (cases r) simp_all

lemma ok_or_eq_Inr: "ok_or e x = Inr y \<longleftrightarrow> x = Some y"
  by (cases x) simp_all

lemma map_err_eq_Inr: "map_err f r = Inr y \<longleftrightarrow> r = Inr y"
  by (cases r) simp_all

lemma ensure_eq_Inr: "ensure b e r = Inr y \<longleftrightarrow> b \<and> r = Inr y"
  by (cases b) simp_all

lemmas result_ok = and_then_eq_Inr ok_or_eq_Inr map_err_eq_Inr ensure_eq_Inr

lemma collect_results_ok:
  "collect_results f xs = Inr ys \<longleftrightarrow> list_all2 (\<lambda>x y. f x = Inr y) xs ys"
proof (induction xs arbitrary: ys)
  case Nil
  then show ?case by auto
next
  case (Cons x xs)
  then show ?case by (auto simp: and_then_eq_Inr list_all2_Cons1)
qed

lemma collect_results_map:
  "(\<And>x. x \<in> set xs \<Longrightarrow> f x = Inr (g x)) \<Longrightarrow> collect_results f xs = Inr (map g xs)"
  by (induction xs) simp_all

section \<open>Keys\<close>

text \<open>
  \<^verbatim>\<open>store::Key\<close> is \<^verbatim>\<open>[u8; 32]\<close>, ordered lexicographically; the client's
  \<^verbatim>\<open>solana_address::Address\<close> is the same 32 bytes.
\<close>

typedef key = "{bs :: byte list. length bs = 32}"
  morphisms key_bytes Abs_key
  by (rule exI [of _ "replicate 32 0"]) simp

setup_lifting type_definition_key

lemma length_key_bytes [simp]: "length (key_bytes k) = 32"
  using key_bytes [of k] by simp

instantiation key :: linorder
begin

lift_definition less_eq_key :: "key \<Rightarrow> key \<Rightarrow> bool" is "(\<le>)" .

lift_definition less_key :: "key \<Rightarrow> key \<Rightarrow> bool" is "(<)" .

instance
  by standard (transfer; force)+

end

instantiation key :: equal
begin

definition equal_key :: "key \<Rightarrow> key \<Rightarrow> bool" where
  "equal_key a b = (key_bytes a = key_bytes b)"

instance
  by standard (simp add: equal_key_def key_bytes_inject)

end

text \<open>\<^verbatim>\<open>Key::try_from(&[u8])\<close>: fails unless there are exactly 32 bytes.\<close>

definition key_of_bytes :: "byte list \<Rightarrow> key option" where
  "key_of_bytes bs = (if length bs = 32 then Some (Abs_key bs) else None)"

lemma key_of_bytes_key_bytes [simp]: "key_of_bytes (key_bytes k) = Some k"
  by (simp add: key_of_bytes_def key_bytes_inverse)

lemma key_of_bytes_eq_Some: "key_of_bytes bs = Some k \<longleftrightarrow> bs = key_bytes k"
  by (auto simp: key_of_bytes_def Abs_key_inverse key_bytes_inverse)

lemma key_of_bytes_eq_None: "key_of_bytes bs = None \<longleftrightarrow> length bs \<noteq> 32"
  by (simp add: key_of_bytes_def)

text \<open>\<^verbatim>\<open>[b; 32]\<close>, the keys of the unit tests and of the witnesses.\<close>

definition key_fill :: "byte \<Rightarrow> key" where
  "key_fill b = Abs_key (replicate 32 b)"

lemma key_bytes_key_fill [simp]: "key_bytes (key_fill b) = replicate 32 b"
  by (simp add: key_fill_def Abs_key_inverse)

lemma key_fill_inject [simp]: "key_fill a = key_fill b \<longleftrightarrow> a = b"
  by (simp flip: key_bytes_inject)

lemma replicate_less_iff: "replicate n (a :: 'a :: linorder) < replicate n b \<longleftrightarrow> 0 < n \<and> a < b"
proof (induction n)
  case (Suc n)
  then show ?case by (cases n) auto
qed simp

lemma key_fill_less [simp]: "key_fill a < key_fill b \<longleftrightarrow> a < b"
  by (simp add: less_key.rep_eq replicate_less_iff)

lemma key_fill_less_eq [simp]: "key_fill a \<le> key_fill b \<longleftrightarrow> a \<le> b"
  by (simp add: le_less)

section \<open>Lists\<close>

lemma filter_eq_after_prefix:
  assumes "sorted_wrt (<) (xs @ x # ys :: 'a :: linorder list)"
  shows "filter (\<lambda>y. x < y) (xs @ x # ys) = ys"
proof -
  have "filter (\<lambda>y. x < y) xs = []" and "filter (\<lambda>y. x < y) ys = ys"
    using assms by (auto simp: sorted_wrt_append filter_empty_conv filter_id_conv)
  then show ?thesis by simp
qed

lemma take_Suc_nth: "n < length xs \<Longrightarrow> take (Suc n) xs = take n xs @ [xs ! n]"
  by (rule take_Suc_conv_app_nth)

lemma list_split_at:
  "n < length xs \<Longrightarrow> xs = take n xs @ xs ! n # drop (Suc n) xs"
  by (rule id_take_nth_drop)

end
