(* ===== verification/Ordered_Map.thy ===== *)
theory Ordered_Map
  imports Prelude
begin

text \<open>
  Ordered maps: the values of \<^verbatim>\<open>std::collections::BTreeMap\<close> and of the persistent
  \<^verbatim>\<open>imbl::OrdMap\<close>, which has the same interface. A map is its list of entries in strictly
  increasing key order, so iteration and range queries are the library's. The locale
  \<open>ordered_map\<close> lists the laws the rest of the development relies on; its interpretation
  \<open>om\<close> proves them for this type.
\<close>

section \<open>Entries in key order\<close>

definition keys_sorted :: "('k :: linorder \<times> 'v) list \<Rightarrow> bool" where
  "keys_sorted xs = sorted_wrt (<) (map fst xs)"

fun entry_insert :: "'k :: linorder \<Rightarrow> 'v \<Rightarrow> ('k \<times> 'v) list \<Rightarrow> ('k \<times> 'v) list" where
  "entry_insert k v [] = [(k, v)]"
| "entry_insert k v ((k', v') # xs) =
     (if k < k' then (k, v) # (k', v') # xs
      else if k = k' then (k, v) # xs
      else (k', v') # entry_insert k v xs)"

definition entry_remove :: "'k \<Rightarrow> ('k \<times> 'v) list \<Rightarrow> ('k \<times> 'v) list" where
  "entry_remove k xs = filter (\<lambda>e. fst e \<noteq> k) xs"

lemma keys_entry_insert: "fst ` set (entry_insert k v xs) = insert k (fst ` set xs)"
  by (induction k v xs rule: entry_insert.induct) auto

lemma keys_sorted_simps [simp]:
  "keys_sorted []"
  "keys_sorted ((k, v) # xs) \<longleftrightarrow> (\<forall>k' \<in> fst ` set xs. k < k') \<and> keys_sorted xs"
  by (simp_all add: keys_sorted_def)

lemma keys_sorted_entry_insert: "keys_sorted xs \<Longrightarrow> keys_sorted (entry_insert k v xs)"
  by (induction k v xs rule: entry_insert.induct) (auto simp: keys_entry_insert)

lemma keys_sorted_filter: "keys_sorted xs \<Longrightarrow> keys_sorted (filter P xs)"
  by (induction xs) auto

lemma keys_sorted_distinct: "keys_sorted xs \<Longrightarrow> distinct (map fst xs)"
  by (induction xs) force+

lemma map_of_entry_insert:
  "keys_sorted xs \<Longrightarrow> map_of (entry_insert k v xs) = (map_of xs)(k \<mapsto> v)"
proof (induction k v xs rule: entry_insert.induct)
  case (2 k v k' v' xs)
  then show ?case by (auto simp: fun_eq_iff)
qed simp

lemma map_of_entry_remove: "map_of (entry_remove k xs) = (map_of xs)(k := None)"
  by (induction xs) (auto simp: entry_remove_def fun_eq_iff)

lemma keys_sorted_map_of_ext:
  assumes xs: "keys_sorted xs" and ys: "keys_sorted ys" and eq: "map_of xs = map_of ys"
  shows "xs = ys"
proof (rule map_sorted_distinct_set_unique)
  show set_eq: "set xs = set ys"
    using xs ys eq by (simp add: map_of_inject_set keys_sorted_distinct)
  show "inj_on fst (set xs \<union> set ys)"
    using keys_sorted_distinct [OF ys] by (simp add: set_eq distinct_map)
qed (use xs ys in \<open>simp_all add: keys_sorted_def strict_sorted_iff\<close>)

section \<open>The map type\<close>

typedef (overloaded) ('k, 'v) omap = "{xs :: ('k :: linorder \<times> 'v) list. keys_sorted xs}"
  morphisms om_items Abs_omap
  by (rule exI [of _ "[]"]) simp

setup_lifting type_definition_omap

lift_definition om_empty :: "('k :: linorder, 'v) omap" is "[]"
  by simp

lift_definition om_insert :: "'k :: linorder \<Rightarrow> 'v \<Rightarrow> ('k, 'v) omap \<Rightarrow> ('k, 'v) omap"
  is entry_insert
  by (rule keys_sorted_entry_insert)

lift_definition om_remove :: "'k :: linorder \<Rightarrow> ('k, 'v) omap \<Rightarrow> ('k, 'v) omap"
  is entry_remove
  by (simp add: entry_remove_def keys_sorted_filter)

definition om_get :: "('k :: linorder, 'v) omap \<Rightarrow> 'k \<rightharpoonup> 'v" where
  "om_get m = map_of (om_items m)"

definition om_len :: "('k :: linorder, 'v) omap \<Rightarrow> nat" where
  "om_len m = length (om_items m)"

definition om_keys :: "('k :: linorder, 'v) omap \<Rightarrow> 'k list" where
  "om_keys m = map fst (om_items m)"

definition om_values :: "('k :: linorder, 'v) omap \<Rightarrow> 'v list" where
  "om_values m = map snd (om_items m)"

text \<open>\<^verbatim>\<open>range((lower, Unbounded))\<close> with lower \<^verbatim>\<open>Unbounded\<close> or \<^verbatim>\<open>Excluded(k)\<close>.\<close>

definition om_after :: "'k option \<Rightarrow> ('k :: linorder, 'v) omap \<Rightarrow> ('k \<times> 'v) list" where
  "om_after lower m =
     (case lower of None \<Rightarrow> om_items m | Some k \<Rightarrow> filter (\<lambda>e. k < fst e) (om_items m))"

text \<open>\<^verbatim>\<open>range(..=k)\<close>, its keys.\<close>

definition om_keys_through :: "'k \<Rightarrow> ('k :: linorder, 'v) omap \<Rightarrow> 'k list" where
  "om_keys_through k m = filter (\<lambda>k'. k' \<le> k) (om_keys m)"

text \<open>\<^verbatim>\<open>into_iter().collect()\<close>: later entries replace earlier ones.\<close>

definition om_of_list :: "('k :: linorder \<times> 'v) list \<Rightarrow> ('k, 'v) omap" where
  "om_of_list xs = fold (\<lambda>(k, v). om_insert k v) xs om_empty"

section \<open>The laws\<close>

locale ordered_map =
  fixes empty :: "'m"
    and put :: "'k :: linorder \<Rightarrow> 'v \<Rightarrow> 'm \<Rightarrow> 'm"
    and del :: "'k \<Rightarrow> 'm \<Rightarrow> 'm"
    and look :: "'m \<Rightarrow> 'k \<rightharpoonup> 'v"
    and items :: "'m \<Rightarrow> ('k \<times> 'v) list"
  assumes look_empty: "look empty = Map.empty"
    and look_put: "look (put k v m) = (look m)(k \<mapsto> v)"
    and look_del: "look (del k m) = (look m)(k := None)"
    and items_sorted: "sorted_wrt (<) (map fst (items m))"
    and items_look: "(k, v) \<in> set (items m) \<longleftrightarrow> look m k = Some v"
    and look_inject: "look m = look m' \<Longrightarrow> m = m'"
begin

lemmas look_simps = look_empty look_put look_del

lemma items_distinct: "distinct (map fst (items m))"
  using items_sorted [of m] strict_sorted_iff by blast

lemma map_of_items: "map_of (items m) = look m"
proof
  fix k
  show "map_of (items m) k = look m k"
  proof (cases "look m k")
    case None
    then have "k \<notin> fst ` set (items m)"
      by (force simp: items_look)
    with None show ?thesis by (simp add: map_of_eq_None_iff)
  next
    case (Some v)
    then have "(k, v) \<in> set (items m)" by (simp add: items_look)
    with Some show ?thesis by (simp add: items_distinct)
  qed
qed

lemma dom_look: "dom (look m) = fst ` set (items m)"
  by (simp add: map_of_items [symmetric] dom_map_of_conv_image_fst)

lemma length_items: "length (items m) = card (dom (look m))"
  using distinct_card [OF items_distinct [of m]] by (simp add: dom_look)

lemma items_empty: "items empty = []"
  using items_look [of _ _ empty] by (cases "items empty") (auto simp: look_empty)

lemma items_eq_iff: "items m = items m' \<longleftrightarrow> m = m'"
  by (metis look_inject map_of_items)

lemma look_fold_put:
  "look (fold (\<lambda>(k, v). put k v) xs m) k =
     (case map_of (rev xs) k of None \<Rightarrow> look m k | Some v \<Rightarrow> Some v)"
  by (induction xs arbitrary: m)
    (auto simp: look_put map_add_def split: option.splits prod.splits)

lemma look_fold_del:
  "look (fold del ks m) k = (if k \<in> set ks then None else look m k)"
  by (induction ks arbitrary: m) (auto simp: look_del)

text \<open>
  Paging: the entries after the last key of a page of \<open>n\<close> entries are the rest of the listing.
\<close>

lemma entries_after_page:
  assumes "items m = pre @ (k, v) # post"
  shows "filter (\<lambda>e. k < fst e) (items m) = post"
proof -
  from items_sorted [of m] assms
  have "filter (\<lambda>e. k < fst e) pre = []" and "filter (\<lambda>e. k < fst e) post = post"
    by (auto simp: sorted_wrt_append filter_empty_conv filter_id_conv)
  with assms show ?thesis by simp
qed

end

lemma om_items_keys_sorted [simp]: "keys_sorted (om_items m)"
  using om_items by simp

interpretation om: ordered_map om_empty om_insert om_remove om_get om_items
proof
  show "om_get om_empty = Map.empty" by (simp add: om_get_def om_empty.rep_eq)
next
  fix k v and m :: "('a, 'b) omap"
  show "om_get (om_insert k v m) = (om_get m)(k \<mapsto> v)"
    by (simp add: om_get_def om_insert.rep_eq map_of_entry_insert)
next
  fix k and m :: "('a, 'b) omap"
  show "om_get (om_remove k m) = (om_get m)(k := None)"
    by (simp add: om_get_def om_remove.rep_eq map_of_entry_remove)
next
  fix m :: "('a, 'b) omap"
  show "sorted_wrt (<) (map fst (om_items m))"
    using om_items_keys_sorted [of m] by (simp add: keys_sorted_def)
next
  fix k v and m :: "('a, 'b) omap"
  show "(k, v) \<in> set (om_items m) \<longleftrightarrow> om_get m k = Some v"
    by (simp add: om_get_def keys_sorted_distinct)
next
  fix m m' :: "('a, 'b) omap"
  assume "om_get m = om_get m'"
  then show "m = m'"
    by (simp add: om_get_def keys_sorted_map_of_ext om_items_inject [symmetric])
qed

lemmas om_get_simps [simp] = om.look_simps

lemma om_items_simps [simp]:
  "om_items om_empty = []"
  "om_items (om_insert k v m) = entry_insert k v (om_items m)"
  "om_items (om_remove k m) = entry_remove k (om_items m)"
  by (simp_all add: om_empty.rep_eq om_insert.rep_eq om_remove.rep_eq)

lemma om_eqI: "(\<And>k. om_get m k = om_get m' k) \<Longrightarrow> m = m'"
  by (rule om.look_inject) auto

lemma om_get_of_list: "om_get (om_of_list xs) k = map_of (rev xs) k"
  by (simp add: om_of_list_def om.look_fold_put split: option.split)

lemma om_of_list_items [simp]: "om_of_list (om_items m) = m"
proof (rule om_eqI)
  fix k
  have "map_of (rev (om_items m)) = map_of (om_items m)"
    by (rule map_of_inject_set [THEN iffD2])
      (simp_all add: om.items_distinct flip: rev_map)
  then show "om_get (om_of_list (om_items m)) k = om_get m k"
    by (simp add: om_get_of_list om.map_of_items)
qed

lemma om_keys_props:
  "sorted_wrt (<) (om_keys m)" "distinct (om_keys m)" "set (om_keys m) = dom (om_get m)"
  by (simp_all add: om_keys_def om.items_sorted om.items_distinct om.dom_look)

lemma om_len_card: "om_len m = card (dom (om_get m))"
  by (simp add: om_len_def om.length_items)

lemma om_after_None [simp]: "om_after None m = om_items m"
  by (simp add: om_after_def)

lemma om_after_page:
  "om_items m = pre @ (k, v) # post \<Longrightarrow> om_after (Some k) m = post"
  unfolding om_after_def option.case by (rule om.entries_after_page)

lemma om_after_Some_set:
  "(k, v) \<in> set (om_after (Some l) m) \<longleftrightarrow> l < k \<and> om_get m k = Some v"
  by (auto simp: om_after_def om.items_look)

lemma keys_sorted_filter_after:
  "keys_sorted xs \<Longrightarrow> filter (\<lambda>e. k < fst e) xs = dropWhile (\<lambda>e. \<not> k < fst e) xs"
proof (induction xs)
  case (Cons e xs)
  have "\<forall>e' \<in> set xs. fst e < fst e'"
    using Cons.prems by (cases e) auto
  then have "k < fst e \<Longrightarrow> filter (\<lambda>e. k < fst e) xs = xs"
    by (auto simp: filter_id_conv intro: less_trans)
  moreover have "keys_sorted xs"
    using Cons.prems by (cases e) simp
  ultimately show ?case
    using Cons.IH by (cases "k < fst e") simp_all
qed simp

lemma om_after_suffix: "\<exists>pre. om_items m = pre @ om_after lower m"
proof (cases lower)
  case (Some k)
  then have "om_after lower m = dropWhile (\<lambda>e. \<not> k < fst e) (om_items m)"
    by (simp add: om_after_def keys_sorted_filter_after)
  then show ?thesis
    using takeWhile_dropWhile_id [of "\<lambda>e. \<not> k < fst e" "om_items m"] by metis
qed simp

text \<open>A cursor at the last entry of a page resumes right after the page.\<close>

lemma om_after_advance:
  assumes "0 < n" and "n \<le> length (om_after lower m)"
  shows "om_after (Some (fst (om_after lower m ! (n - 1)))) m = drop n (om_after lower m)"
proof -
  let ?rest = "om_after lower m"
  obtain pre where "om_items m = pre @ ?rest"
    using om_after_suffix by blast
  also have "?rest = take (n - 1) ?rest @ ?rest ! (n - 1) # drop n ?rest"
    using assms list_split_at [of "n - 1" ?rest] by simp
  finally have "om_items m = (pre @ take (n - 1) ?rest) @
      (fst (?rest ! (n - 1)), snd (?rest ! (n - 1))) # drop n ?rest"
    by simp
  then show ?thesis by (rule om_after_page)
qed

lemma keys_sorted_split:
  "keys_sorted xs \<Longrightarrow> filter (\<lambda>e. fst e \<le> s) xs @ filter (\<lambda>e. s < fst e) xs = xs"
proof (induction xs)
  case (Cons e xs)
  have all: "\<forall>e' \<in> set xs. fst e < fst e'" and "keys_sorted xs"
    using Cons.prems by (cases e; auto)+
  note IH = Cons.IH [OF this(2)]
  show ?case
  proof (cases "fst e \<le> s")
    case False
    then have "filter (\<lambda>e. fst e \<le> s) xs = []"
      using all by (auto simp: filter_empty_conv not_le intro: less_trans)
    with False IH show ?thesis by simp
  qed (use IH in simp)
qed simp

lemma om_items_split:
  "om_items p = filter (\<lambda>e. fst e \<le> s) (om_items p) @ filter (\<lambda>e. s < fst e) (om_items p)"
  by (simp add: keys_sorted_split)

end
