(* ===== verification/Crates.thy ===== *)
theory Crates
  imports Prelude
begin

text \<open>
  The third-party functions the repository calls, as one record of parameters, and the documented
  behaviour the properties rely on. The types are those of
  \<^verbatim>\<open>solana_account_decoder_client_types\<close> and of the Yellowstone protobuf messages as far as
  the code reads or builds them. \<open>sample_crates\<close> is a concrete instance for the witnesses.
\<close>

section \<open>Types of the libraries\<close>

text \<open>\<^verbatim>\<open>UiAccountEncoding\<close>; \<open>EncBinary\<close> is its variant \<^verbatim>\<open>Binary\<close>.\<close>

datatype ui_account_encoding = EncBinary | Base58 | Base64 | Base64Zstd | JsonParsed

text \<open>
  \<^verbatim>\<open>UiAccountData\<close>. The parsed-JSON form is left out: the repository never builds it, and one
  it receives is data that does not decode, which \<open>ui_decode\<close> can say of any value here.
\<close>

datatype ui_account_data = LegacyBinary string | Binary string ui_account_encoding

record ui_data_slice =
  slice_offset :: usize
  slice_length :: usize

record ui_account =
  ui_lamports :: u64
  ui_data :: ui_account_data
  ui_owner :: string
  ui_executable :: bool
  ui_rent_epoch :: u64
  ui_space :: "u64 option"

text \<open>\<^verbatim>\<open>SubscribeUpdateAccountInfo\<close> and \<^verbatim>\<open>SubscribeUpdateAccount\<close>.\<close>

record account_info =
  pubkey :: "byte list"
  lamports :: u64
  owner :: "byte list"
  executable :: bool
  rent_epoch :: u64
  data :: "byte list"
  write_version :: u64
  txn_signature :: "byte list option"

record account_update =
  upd_account :: "account_info option"
  upd_slot :: u64
  upd_is_startup :: bool

section \<open>Functions of the libraries\<close>

text \<open>
  \<open>alt_program_id\<close> is \<^verbatim>\<open>program::id()\<close>; \<open>alt_deserialize\<close> is
  \<^verbatim>\<open>AddressLookupTable::deserialize\<close>, with the table's addresses as its value;
  \<open>ui_decode\<close> is \<^verbatim>\<open>UiAccountData::decode\<close>.
\<close>

record crates =
  alt_program_id :: key
  alt_deserialize :: "byte list \<Rightarrow> key list option"
  bs58_encode :: "byte list \<Rightarrow> string"
  bs58_decode :: "string \<Rightarrow> byte list option"
  base64_encode :: "byte list \<Rightarrow> string"
  zstd_encode :: "byte list \<Rightarrow> byte list option"
  ui_decode :: "ui_account_data \<Rightarrow> byte list option"

text \<open>Base58 text decodes to the bytes it was made from.\<close>

definition bs58_law :: "crates \<Rightarrow> bool" where
  "bs58_law c \<longleftrightarrow> (\<forall>bs. bs58_decode c (bs58_encode c bs) = Some bs)"

text \<open>\<^verbatim>\<open>UiAccountData::decode\<close> undoes each binary encoding.\<close>

definition ui_decode_law :: "crates \<Rightarrow> bool" where
  "ui_decode_law c \<longleftrightarrow>
     (\<forall>bs. ui_decode c (LegacyBinary (bs58_encode c bs)) = Some bs \<and>
           ui_decode c (Binary (bs58_encode c bs) Base58) = Some bs \<and>
           ui_decode c (Binary (base64_encode c bs) Base64) = Some bs \<and>
           (\<forall>z. zstd_encode c bs = Some z \<longrightarrow>
                ui_decode c (Binary (base64_encode c z) Base64Zstd) = Some bs))"

text \<open>Compressing into memory does not fail.\<close>

definition zstd_total :: "crates \<Rightarrow> bool" where
  "zstd_total c \<longleftrightarrow> (\<forall>bs. zstd_encode c bs \<noteq> None)"

section \<open>A sample instance\<close>

text \<open>
  Each text encoding is the bytes as characters, compression is the identity, and a table is any
  non-empty data, whose addresses are one key filled with the first byte.
\<close>

definition text_of_bytes :: "byte list \<Rightarrow> string" where
  "text_of_bytes bs = map (\<lambda>b. char_of (unat b)) bs"

definition bytes_of_text :: "string \<Rightarrow> byte list" where
  "bytes_of_text s = map (\<lambda>ch. of_nat (of_char ch)) s"

definition sample_crates :: crates where
  "sample_crates =
     \<lparr>alt_program_id = key_fill 7,
      alt_deserialize = (\<lambda>bs. case bs of [] \<Rightarrow> None | b # _ \<Rightarrow> Some [key_fill b]),
      bs58_encode = text_of_bytes,
      bs58_decode = (\<lambda>s. Some (bytes_of_text s)),
      base64_encode = text_of_bytes,
      zstd_encode = Some,
      ui_decode = (\<lambda>d. case d of LegacyBinary s \<Rightarrow> Some (bytes_of_text s)
                             | Binary s _ \<Rightarrow> Some (bytes_of_text s))\<rparr>"

lemma bytes_of_text_of_bytes [simp]: "bytes_of_text (text_of_bytes bs) = bs"
proof -
  have "of_nat (of_char (char_of (unat b) :: char)) = b" for b :: byte
  proof -
    have "unat b < 256" using unsigned_less [of b] by simp
    then show ?thesis by simp
  qed
  then show ?thesis
    by (simp add: bytes_of_text_def text_of_bytes_def o_def)
qed

lemma sample_crates_simps [simp]:
  "alt_program_id sample_crates = key_fill 7"
  "alt_deserialize sample_crates [] = None"
  "alt_deserialize sample_crates (b # bs) = Some [key_fill b]"
  "bs58_encode sample_crates = text_of_bytes"
  "bs58_decode sample_crates s = Some (bytes_of_text s)"
  "base64_encode sample_crates = text_of_bytes"
  "zstd_encode sample_crates = Some"
  "ui_decode sample_crates (LegacyBinary s) = Some (bytes_of_text s)"
  "ui_decode sample_crates (Binary s e) = Some (bytes_of_text s)"
  by (simp_all add: sample_crates_def)

lemma sample_crates_laws [simp]:
  "bs58_law sample_crates" "ui_decode_law sample_crates" "zstd_total sample_crates"
  by (simp_all add: bs58_law_def ui_decode_law_def zstd_total_def)

end
