(* ===== verification/Alt_Account.thy ===== *)
theory Alt_Account
  imports Crates
begin

text \<open>
  \<^verbatim>\<open>src/store.rs\<close>, its first part: keys as text, the validated \<^verbatim>\<open>Account\<close>, its
  construction from a Yellowstone message or an RPC entry and its rendering as an RPC entry.
\<close>

section \<open>Keys as text\<close>

text \<open>The text of an address is its Base58 form.\<close>

definition program_id :: "crates \<Rightarrow> string" where
  "program_id c = bs58_encode c (key_bytes (alt_program_id c))"

definition parse_key :: "crates \<Rightarrow> string \<Rightarrow> key result" where
  "parse_key c s =
     and_then (ok_or (Dependency ''bs58'') (bs58_decode c s))
       (\<lambda>bs. ok_or InvalidKeyLength (key_of_bytes bs))"

lemma parse_key_encode: "bs58_law c \<Longrightarrow> parse_key c (bs58_encode c (key_bytes k)) = Inr k"
  by (simp add: parse_key_def bs58_law_def)

section \<open>Accounts\<close>

datatype account = Account (account_value: account_info)

record keyed_ui_account =
  kua_pubkey :: string
  kua_account :: ui_account

definition from_yellowstone :: "crates \<Rightarrow> account_info \<Rightarrow> account result" where
  "from_yellowstone c v =
     ensure (owner v = key_bytes (alt_program_id c)) OwnerNotAlt
       (ensure (length (pubkey v) = 32) InvalidPubkey
         (and_then (ok_or InvalidAltData (alt_deserialize c (data v)))
           (\<lambda>_. Inr (Account v))))"

definition from_rpc :: "crates \<Rightarrow> string \<Rightarrow> ui_account \<Rightarrow> account result" where
  "from_rpc c key acc =
     and_then (ok_or InvalidRpcData (ui_decode c (ui_data acc))) (\<lambda>bytes.
     and_then (parse_key c key) (\<lambda>k.
     and_then (parse_key c (ui_owner acc)) (\<lambda>own.
       from_yellowstone c
         \<lparr>pubkey = key_bytes k, lamports = ui_lamports acc, owner = key_bytes own,
          executable = ui_executable acc, rent_epoch = ui_rent_epoch acc, data = bytes,
          write_version = 0, txn_signature = None\<rparr>)))"

text \<open>
  \<^verbatim>\<open>&data[start..end]\<close>: Rust panics on a range that is reversed or leaves the slice; here that
  is \<open>None\<close>.
\<close>

definition byte_range :: "usize \<Rightarrow> usize \<Rightarrow> 'a list \<Rightarrow> 'a list option" where
  "byte_range start end xs =
     (if start \<le> end \<and> unat end \<le> length xs
      then Some (take (unat end - unat start) (drop (unat start) xs)) else None)"

definition slice_data :: "ui_data_slice option \<Rightarrow> byte list \<Rightarrow> byte list option" where
  "slice_data data_slice bytes =
     (case data_slice of
        None \<Rightarrow> Some bytes
      | Some sl \<Rightarrow>
          let len = of_nat (length bytes);
              start = min (slice_offset sl) len;
              end = min (saturating_add start (slice_length sl)) len
          in byte_range start end bytes)"

definition encode_data ::
  "crates \<Rightarrow> ui_account_encoding \<Rightarrow> byte list \<Rightarrow> ui_account_data result" where
  "encode_data c encoding bytes =
     (case encoding of
        EncBinary \<Rightarrow> Inr (LegacyBinary (bs58_encode c bytes))
      | Base58 \<Rightarrow> Inr (Binary (bs58_encode c bytes) encoding)
      | Base64 \<Rightarrow> Inr (Binary (base64_encode c bytes) encoding)
      | Base64Zstd \<Rightarrow>
          and_then (ok_or (Dependency ''zstd'') (zstd_encode c bytes))
            (\<lambda>z. Inr (Binary (base64_encode c z) encoding))
      | JsonParsed \<Rightarrow> Inl JsonParsedUnsupported)"

text \<open>The panic of an out-of-range slice is the error \<open>SlicePanic\<close>.\<close>

definition to_keyed_ui_account_with_config ::
  "crates \<Rightarrow> account \<Rightarrow> ui_account_encoding \<Rightarrow> ui_data_slice option \<Rightarrow> keyed_ui_account result"
where
  "to_keyed_ui_account_with_config c a encoding data_slice =
     (let v = account_value a in
      and_then (ok_or SlicePanic (slice_data data_slice (data v))) (\<lambda>bytes.
      and_then (encode_data c encoding bytes) (\<lambda>d.
        Inr \<lparr>kua_pubkey = bs58_encode c (pubkey v),
             kua_account =
               \<lparr>ui_lamports = lamports v, ui_data = d, ui_owner = bs58_encode c (owner v),
                ui_executable = executable v, ui_rent_epoch = rent_epoch v,
                ui_space = Some (of_nat (length (data v)))\<rparr>\<rparr>)))"

definition to_keyed_ui_account :: "crates \<Rightarrow> account \<Rightarrow> keyed_ui_account result" where
  "to_keyed_ui_account c a = to_keyed_ui_account_with_config c a Base64Zstd None"

section \<open>Well-formed accounts\<close>

text \<open>What \<open>from_yellowstone\<close> establishes and every account of the service satisfies.\<close>

definition valid_account :: "crates \<Rightarrow> account \<Rightarrow> bool" where
  "valid_account c a \<longleftrightarrow>
     owner (account_value a) = key_bytes (alt_program_id c) \<and>
     length (pubkey (account_value a)) = 32 \<and>
     alt_deserialize c (data (account_value a)) \<noteq> None"

lemma from_yellowstone_ok:
  "from_yellowstone c v = Inr a \<longleftrightarrow> a = Account v \<and> valid_account c (Account v)"
  by (auto simp: from_yellowstone_def valid_account_def result_ok)

lemma from_yellowstone_valid: "from_yellowstone c v = Inr a \<Longrightarrow> valid_account c a"
  by (auto simp: from_yellowstone_ok)

lemma from_rpc_valid: "from_rpc c k acc = Inr a \<Longrightarrow> valid_account c a"
  by (auto simp: from_rpc_def result_ok dest: from_yellowstone_valid)

lemma from_rpc_pubkey:
  "from_rpc c s acc = Inr a \<Longrightarrow> parse_key c s = Inr k \<Longrightarrow> pubkey (account_value a) = key_bytes k"
  by (auto simp: from_rpc_def result_ok from_yellowstone_ok)

section \<open>Data slices\<close>

lemma slice_data_None [simp]: "slice_data None bytes = Some bytes"
  by (simp add: slice_data_def)

lemma take_drop_clamped:
  "take (min (min off (length xs) + len) (length xs) - min off (length xs))
     (drop (min off (length xs)) xs) = take len (drop off xs)"
proof (cases "off \<le> length xs")
  case True
  then show ?thesis by (simp add: min_def)
qed simp

lemma unat_min: "unat (min a b) = min (unat a) (unat (b :: 'a :: len word))"
  by (simp add: min_def word_le_nat_alt)

lemma slice_data_Some:
  assumes "length bytes < 2 ^ 64"
  shows "slice_data (Some s) bytes =
           Some (take (unat (slice_length s)) (drop (unat (slice_offset s)) bytes))"
proof -
  define len where "len = (of_nat (length bytes) :: usize)"
  define start where "start = min (slice_offset s) len"
  define stop where "stop = min (saturating_add start (slice_length s)) len"
  have len: "unat len = length bytes"
    using assms by (simp add: len_def unat_of_nat)
  have start: "unat start = min (unat (slice_offset s)) (length bytes)"
    by (simp add: start_def unat_min len)
  have stop: "unat stop = min (unat start + unat (slice_length s)) (length bytes)"
    using assms by (simp add: stop_def unat_min len unat_saturating_add)
  have "start \<le> stop" and "unat stop \<le> length bytes"
    by (simp_all add: word_le_nat_alt stop start)
  then have "byte_range start stop bytes =
      Some (take (unat (slice_length s)) (drop (unat (slice_offset s)) bytes))"
    by (simp only: byte_range_def stop start take_drop_clamped simp_thms if_True)
  then show ?thesis
    by (simp add: slice_data_def Let_def len_def start_def stop_def)
qed

section \<open>Rendering and reading back\<close>

lemma encode_data_decodes:
  assumes "bs58_law c" and "ui_decode_law c" and "encode_data c e bs = Inr d"
  shows "ui_decode c d = Some bs"
  using assms
  by (cases e) (auto simp: encode_data_def ui_decode_law_def result_ok)

lemma encode_data_total:
  "zstd_total c \<Longrightarrow> e \<noteq> JsonParsed \<Longrightarrow> \<exists>d. encode_data c e bs = Inr d"
  by (cases e) (auto simp: encode_data_def zstd_total_def ok_or_def split: option.split)

lemma to_keyed_ok:
  "to_keyed_ui_account_with_config c a e sl = Inr k \<longleftrightarrow>
     (\<exists>bs d. slice_data sl (data (account_value a)) = Some bs \<and> encode_data c e bs = Inr d \<and>
        k = \<lparr>kua_pubkey = bs58_encode c (pubkey (account_value a)),
             kua_account =
               \<lparr>ui_lamports = lamports (account_value a), ui_data = d,
                ui_owner = bs58_encode c (owner (account_value a)),
                ui_executable = executable (account_value a),
                ui_rent_epoch = rent_epoch (account_value a),
                ui_space = Some (of_nat (length (data (account_value a))))\<rparr>\<rparr>)"
  by (auto simp: to_keyed_ui_account_with_config_def Let_def result_ok)

lemma valid_account_key:
  assumes "valid_account c a"
  obtains k where "pubkey (account_value a) = key_bytes k"
proof -
  obtain k where "key_of_bytes (pubkey (account_value a)) = Some k"
    using assms by (auto simp: valid_account_def key_of_bytes_def)
  then show thesis using that by (auto simp: key_of_bytes_eq_Some)
qed

text \<open>
  A rendered entry, in any binary encoding and without a slice, is read back by
  \<^verbatim>\<open>Account::from_rpc\<close> as the same account but for the stream's own fields.
\<close>

lemma from_rpc_rendered:
  assumes "bs58_law c" and "ui_decode_law c" and "valid_account c a"
    and "to_keyed_ui_account_with_config c a e None = Inr k"
  shows "from_rpc c (kua_pubkey k) (kua_account k) =
           Inr (Account (account_value a\<lparr>write_version := 0, txn_signature := None\<rparr>))"
proof -
  from assms(3) obtain pk where pk: "pubkey (account_value a) = key_bytes pk"
    by (rule valid_account_key)
  have own: "owner (account_value a) = key_bytes (alt_program_id c)"
    using assms(3) by (simp add: valid_account_def)
  from assms(4) obtain d where "encode_data c e (data (account_value a)) = Inr d"
    and k: "kua_pubkey k = bs58_encode c (key_bytes pk)"
      "ui_owner (kua_account k) = bs58_encode c (key_bytes (alt_program_id c))"
      "ui_data (kua_account k) = d" "ui_lamports (kua_account k) = lamports (account_value a)"
      "ui_executable (kua_account k) = executable (account_value a)"
      "ui_rent_epoch (kua_account k) = rent_epoch (account_value a)"
    by (auto simp: to_keyed_ok pk own)
  then have "ui_decode c d = Some (data (account_value a))"
    using assms(1,2) encode_data_decodes by blast
  moreover have "valid_account c (Account (account_value a\<lparr>write_version := 0, txn_signature := None\<rparr>))"
    using assms(3) by (simp add: valid_account_def)
  ultimately show ?thesis
    by (simp add: from_rpc_def k parse_key_encode assms(1) from_yellowstone_ok)
      (use assms(3) in \<open>simp add: valid_account_def flip: pk own\<close>)
qed

text \<open>A sample account with a filled key and table data.\<close>

definition sample_account :: "byte \<Rightarrow> account" where
  "sample_account b =
     Account \<lparr>pubkey = replicate 32 b, lamports = 1, owner = key_bytes (key_fill 7),
              executable = False, rent_epoch = 0, data = [b, 2, 3], write_version = 5,
              txn_signature = None\<rparr>"

lemma sample_account_simps [simp]:
  "pubkey (account_value (sample_account b)) = replicate 32 b"
  "lamports (account_value (sample_account b)) = 1"
  "owner (account_value (sample_account b)) = replicate 32 7"
  "data (account_value (sample_account b)) = [b, 2, 3]"
  "sample_account a = sample_account b \<longleftrightarrow> a = b"
  by (simp_all add: sample_account_def)

lemma valid_sample_account [simp]: "valid_account sample_crates (sample_account b)"
  by (simp add: valid_account_def)

section \<open>Properties\<close>

text \<open>
  C35. A \<^verbatim>\<open>dataSlice\<close> of any offset and length, however large, never makes the slice
  expression panic or its addition overflow: the rendered data are the requested bytes as far as
  the account has them, and \<^verbatim>\<open>space\<close> still reports the whole length.
\<close>

theorem data_slice_in_bounds:
  assumes "length (data (account_value a)) < 2 ^ 64"
    and "bs58_law c" and "ui_decode_law c" and "zstd_total c" and "e \<noteq> JsonParsed"
  shows "\<exists>k. to_keyed_ui_account_with_config c a e (Some s) = Inr k \<and>
    ui_decode c (ui_data (kua_account k)) =
      Some (take (unat (slice_length s)) (drop (unat (slice_offset s)) (data (account_value a)))) \<and>
    ui_space (kua_account k) = Some (of_nat (length (data (account_value a))))"
proof -
  let ?bs = "take (unat (slice_length s)) (drop (unat (slice_offset s)) (data (account_value a)))"
  obtain d where d: "encode_data c e ?bs = Inr d"
    using encode_data_total [OF assms(4,5)] by blast
  then have "ui_decode c d = Some ?bs"
    using assms(2,3) encode_data_decodes by blast
  with d show ?thesis
    by (simp add: to_keyed_ok slice_data_Some [OF assms(1)])
qed

lemma data_slice_in_bounds_witness:
  "\<exists>k. to_keyed_ui_account_with_config sample_crates (sample_account 9) Base64
         (Some \<lparr>slice_offset = 1, slice_length = -1\<rparr>) = Inr k \<and>
       ui_decode sample_crates (ui_data (kua_account k)) = Some [2, 3] \<and>
       ui_space (kua_account k) = Some 3"
  using data_slice_in_bounds [of "sample_account 9" sample_crates Base64
      "\<lparr>slice_offset = 1, slice_length = -1\<rparr>"]
  by (simp add: unsigned_minus_1_eq_mask mask_eq_exp_minus_1)

end
