(* ===== verification/Store.thy ===== *)
theory Store
  imports Ordered_Map Alt_Account
begin

text \<open>
  \<^verbatim>\<open>src/store.rs\<close>: the state the updater publishes and the two APIs read, and the snapshots
  retained for clients that page through a listing. Atomics and locks hold plain values; every
  operation here is one call on the \<^verbatim>\<open>Store\<close>, with one reading of the clock where the call
  reads it.
\<close>

section \<open>State\<close>

record server_snapshot =
  snap_slot :: u64
  snap_accounts :: "(key, account) omap"

record retained_snapshot =
  ret_snapshot :: server_snapshot
  touched :: instant

record store =
  current :: server_snapshot
  ready :: bool
  active_yellowstone_url :: "string option"
  retained :: "u64 \<rightharpoonup> retained_snapshot"

record read_snapshot_result =
  read_slot :: u64
  read_accounts :: "(key, account) omap"

record snapshot_page_result =
  page_slot :: u64
  page_accounts :: "account list"
  page_next :: "key option"

record health_report =
  health_ready :: bool
  health_active_url :: "string option"
  health_confirmed_slot :: u64
  health_accounts :: nat

section \<open>Operations\<close>

definition new_store :: store where
  "new_store =
     \<lparr>current = \<lparr>snap_slot = 0, snap_accounts = om_empty\<rparr>, ready = False,
      active_yellowstone_url = None, retained = Map.empty\<rparr>"

definition read_snapshot :: "store \<Rightarrow> read_snapshot_result result" where
  "read_snapshot s =
     ensure (ready s) CacheNotReady
       (Inr \<lparr>read_slot = snap_slot (current s), read_accounts = snap_accounts (current s)\<rparr>)"

definition health :: "store \<Rightarrow> health_report" where
  "health s =
     \<lparr>health_ready = ready s, health_active_url = active_yellowstone_url s,
      health_confirmed_slot = snap_slot (current s),
      health_accounts = om_len (snap_accounts (current s))\<rparr>"

definition invalidate :: "store \<Rightarrow> store" where
  "invalidate s = s\<lparr>ready := False\<rparr>"

definition publish :: "string \<Rightarrow> u64 \<Rightarrow> (key, account) omap \<Rightarrow> store \<Rightarrow> store" where
  "publish url slot accounts s =
     (let s' = (if snap_slot (current s) \<noteq> slot \<or> snap_slot (current s) = 0
                then s\<lparr>current := \<lparr>snap_slot = slot, snap_accounts = accounts\<rparr>\<rparr> else s)
      in s'\<lparr>active_yellowstone_url := Some url, ready := True\<rparr>)"

definition retention :: nat where
  "retention = seconds 300"

text \<open>\<^verbatim>\<open>retained.retain(...)\<close>: entries that nobody touched for 300 seconds go.\<close>

definition purge :: "instant \<Rightarrow> store \<Rightarrow> store" where
  "purge now s =
     s\<lparr>retained := (\<lambda>slot. case retained s slot of
          None \<Rightarrow> None
        | Some r \<Rightarrow> if elapsed now (touched r) < retention then Some r else None)\<rparr>"

text \<open>Which snapshot a page reads: the retained one its cursor names, or the current one.\<close>

definition pick_snapshot ::
  "instant \<Rightarrow> u64 option \<Rightarrow> store \<Rightarrow> server_snapshot result \<times> store" where
  "pick_snapshot now snapshot_slot s =
     (case snapshot_slot of
        None \<Rightarrow> (Inr (current s), s)
      | Some slot \<Rightarrow>
          let s' = purge now s in
          (case retained s' slot of
             None \<Rightarrow> (Inl SnapshotExpired, s')
           | Some r \<Rightarrow>
               (Inr (ret_snapshot r),
                s'\<lparr>retained := (retained s')(slot \<mapsto> r\<lparr>touched := now\<rparr>)\<rparr>)))"

text \<open>
  The page of a snapshot: \<open>take(limit + 1)\<close> with the machine addition of a release build, the
  cursor of the last entry kept when there are more.
\<close>

definition page_of :: "server_snapshot \<Rightarrow> key option \<Rightarrow> usize \<Rightarrow> snapshot_page_result" where
  "page_of snap after limit =
     (let entries = take (unat (limit + 1)) (om_after after (snap_accounts snap));
          next = (if length entries > unat limit
                  then Some (fst (entries ! (unat limit - 1))) else None)
      in \<lparr>page_slot = snap_slot snap, page_accounts = map snd (take (unat limit) entries),
          page_next = next\<rparr>)"

text \<open>\<^verbatim>\<open>entry(slot).or_insert(...)\<close>: an entry that is there stays as it is.\<close>

definition retain :: "instant \<Rightarrow> server_snapshot \<Rightarrow> store \<Rightarrow> store" where
  "retain now snap s =
     (case retained s (snap_slot snap) of
        None \<Rightarrow>
          s\<lparr>retained := (retained s)(snap_slot snap \<mapsto> \<lparr>ret_snapshot = snap, touched = now\<rparr>)\<rparr>
      | Some _ \<Rightarrow> s)"

definition snapshot_page ::
  "instant \<Rightarrow> u64 option \<Rightarrow> key option \<Rightarrow> usize \<Rightarrow> store \<Rightarrow> snapshot_page_result result \<times> store"
where
  "snapshot_page now snapshot_slot after limit s =
     (if \<not> limit > 0 then (Inl PageLimitNotPositive, s)
      else if \<not> ready s then (Inl CacheNotReady, s)
      else
        case pick_snapshot now snapshot_slot s of
          (Inl e, s') \<Rightarrow> (Inl e, s')
        | (Inr snap, s') \<Rightarrow>
            let page = page_of snap after limit in
            (Inr page, if page_next page \<noteq> None then retain now snap s' else s'))"

section \<open>Frames\<close>

lemma store_frames [simp, frame_simps]:
  "current (invalidate s) = current s"
  "ready (invalidate s) = False"
  "retained (invalidate s) = retained s"
  "active_yellowstone_url (invalidate s) = active_yellowstone_url s"
  "ready (publish url slot accounts s) = True"
  "retained (publish url slot accounts s) = retained s"
  "active_yellowstone_url (publish url slot accounts s) = Some url"
  "snap_slot (current (publish url slot accounts s)) = slot"
  "current (purge now s) = current s"
  "ready (purge now s) = ready s"
  "active_yellowstone_url (purge now s) = active_yellowstone_url s"
  "current (retain now snap s) = current s"
  "ready (retain now snap s) = ready s"
  "active_yellowstone_url (retain now snap s) = active_yellowstone_url s"
  by (simp_all add: invalidate_def publish_def purge_def retain_def Let_def split: option.split)

lemma current_publish:
  "current (publish url slot accounts s) =
     (if slot \<noteq> snap_slot (current s) \<or> slot = 0
      then \<lparr>snap_slot = slot, snap_accounts = accounts\<rparr> else current s)"
  by (auto simp: publish_def Let_def)

lemma purge_retained:
  "retained (purge now s) slot = Some r \<longleftrightarrow>
     retained s slot = Some r \<and> elapsed now (touched r) < retention"
  by (auto simp: purge_def split: option.splits if_splits)

lemma pick_snapshot_frames [simp, frame_simps]:
  "current (snd (pick_snapshot now sl s)) = current s"
  "ready (snd (pick_snapshot now sl s)) = ready s"
  "active_yellowstone_url (snd (pick_snapshot now sl s)) = active_yellowstone_url s"
  by (simp_all add: pick_snapshot_def Let_def split: option.split)

lemma snapshot_page_frames [simp, frame_simps]:
  "current (snd (snapshot_page now sl after limit s)) = current s"
  "ready (snd (snapshot_page now sl after limit s)) = ready s"
  "active_yellowstone_url (snd (snapshot_page now sl after limit s)) = active_yellowstone_url s"
  using pick_snapshot_frames [of now sl s]
  by (cases "pick_snapshot now sl s"; force simp: snapshot_page_def Let_def split: sum.split)+

end
