(* ===== verification/Staging.thy ===== *)
theory Staging
  imports Prelude
begin

text \<open>
  The contract of a component that stages keyed writes by slot and shows them when their slot is
  confirmed: an abstract machine that keeps the log of accepted writes, and the locale whose laws
  make an implementation refine it. \<open>State_Updater\<close> interprets the locale.
\<close>

section \<open>The abstract machine\<close>

record 'a staged_write =
  w_key :: key
  w_slot :: u64
  w_version :: u64
  w_value :: "'a option"

datatype 'a staging_event = Write "'a staged_write" | Flush u64

definition stamp :: "'a staged_write \<Rightarrow> u64 \<times> u64" where
  "stamp w = (w_slot w, w_version w)"

text \<open>
  A write is accepted when it is not below the floor and newer, by slot and then by version, than
  every accepted write to its key.
\<close>

definition acceptable :: "u64 \<Rightarrow> 'a staged_write list \<Rightarrow> 'a staged_write \<Rightarrow> bool" where
  "acceptable fl log w \<longleftrightarrow>
     fl \<le> w_slot w \<and> list_all (\<lambda>x. w_key x = w_key w \<longrightarrow> stamp x < stamp w) log"

text \<open>The value of a key at a slot: that of the last accepted write up to it.\<close>

definition latest :: "(key \<rightharpoonup> 'a) \<Rightarrow> 'a staged_write list \<Rightarrow> u64 \<Rightarrow> key \<rightharpoonup> 'a" where
  "latest base log s k =
     (let ws = filter (\<lambda>w. w_key w = k \<and> w_slot w \<le> s) log
      in if ws = [] then base k else w_value (last ws))"

record 'a staging_spec =
  spec_floor :: u64
  spec_base :: "key \<rightharpoonup> 'a"
  spec_log :: "'a staged_write list"
  spec_confirmed :: u64
  spec_shown :: "key \<rightharpoonup> 'a"

fun spec_step :: "'a staging_event \<Rightarrow> 'a staging_spec \<Rightarrow> 'a staging_spec" where
  "spec_step (Write w) sp =
     (if acceptable (spec_floor sp) (spec_log sp) w
      then sp\<lparr>spec_log := spec_log sp @ [w]\<rparr> else sp)"
| "spec_step (Flush s) sp =
     (if s \<le> spec_confirmed sp then sp
      else sp\<lparr>spec_confirmed := s, spec_shown := latest (spec_base sp) (spec_log sp) s\<rparr>)"

definition spec_init :: "u64 \<Rightarrow> (key \<rightharpoonup> 'a) \<Rightarrow> 'a staging_spec" where
  "spec_init fl base =
     \<lparr>spec_floor = fl, spec_base = base, spec_log = [], spec_confirmed = fl, spec_shown = base\<rparr>"

definition spec_run :: "'a staging_event list \<Rightarrow> 'a staging_spec \<Rightarrow> 'a staging_spec" where
  "spec_run es sp = fold spec_step es sp"

lemma spec_run_simps [simp]:
  "spec_run [] sp = sp" "spec_run (e # es) sp = spec_run es (spec_step e sp)"
  by (simp_all add: spec_run_def)

lemma spec_run_append: "spec_run (es @ es') sp = spec_run es' (spec_run es sp)"
  by (simp add: spec_run_def)

lemma latest_snoc:
  "latest base (log @ [w]) s =
     (if w_slot w \<le> s then (latest base log s)(w_key w := w_value w) else latest base log s)"
  by (auto simp: latest_def fun_eq_iff Let_def)

lemma latest_Nil [simp]: "latest base [] s = base"
  by (simp add: latest_def fun_eq_iff)

section \<open>Facts of the abstract machine\<close>

fun writes_of :: "'a staging_event list \<Rightarrow> 'a staged_write list" where
  "writes_of [] = []"
| "writes_of (Write w # es) = w # writes_of es"
| "writes_of (Flush s # es) = writes_of es"

definition log_increasing :: "'a staged_write list \<Rightarrow> bool" where
  "log_increasing log = sorted_wrt (\<lambda>x y. w_key x = w_key y \<longrightarrow> stamp x < stamp y) log"

lemma spec_step_frames [simp]:
  "spec_floor (spec_step e sp) = spec_floor sp" "spec_base (spec_step e sp) = spec_base sp"
  by (cases e; simp)+

lemma spec_run_frames [simp]:
  "spec_floor (spec_run es sp) = spec_floor sp" "spec_base (spec_run es sp) = spec_base sp"
  by (induction es arbitrary: sp) simp_all

lemma log_increasing_step: "log_increasing (spec_log sp) \<Longrightarrow> log_increasing (spec_log (spec_step e sp))"
  by (cases e) (auto simp: log_increasing_def sorted_wrt_append acceptable_def list_all_iff)

lemma log_increasing_run: "log_increasing (spec_log sp) \<Longrightarrow> log_increasing (spec_log (spec_run es sp))"
  by (induction es arbitrary: sp) (simp_all add: log_increasing_step)

lemma log_subset_run:
  "set (spec_log (spec_run es sp)) \<subseteq>
     set (spec_log sp) \<union> {w \<in> set (writes_of es). spec_floor sp \<le> w_slot w}"
proof (induction es arbitrary: sp)
  case (Cons e es)
  have "set (spec_log (spec_step e sp)) \<subseteq>
      set (spec_log sp) \<union> {w \<in> set (writes_of [e]). spec_floor sp \<le> w_slot w}"
    by (cases e) (auto simp: acceptable_def)
  then show ?case using Cons.IH [of "spec_step e sp"] by (cases e) auto
qed simp

lemma log_grows: "set (spec_log sp) \<subseteq> set (spec_log (spec_run es sp))"
proof (induction es arbitrary: sp)
  case (Cons e es)
  have "set (spec_log sp) \<subseteq> set (spec_log (spec_step e sp))" by (cases e) auto
  also have "\<dots> \<subseteq> set (spec_log (spec_run es (spec_step e sp)))" by (rule Cons.IH)
  finally show ?case by simp
qed simp

text \<open>Every write above the floor is dominated by an accepted one.\<close>

lemma write_dominated:
  assumes "w \<in> set (writes_of es)" and "spec_floor sp \<le> w_slot w"
  shows "\<exists>x \<in> set (spec_log (spec_run es sp)). w_key x = w_key w \<and> stamp w \<le> stamp x"
  using assms
proof (induction es arbitrary: sp)
  case (Cons e es)
  show ?case
  proof (cases "e = Write w")
    case True
    have "\<exists>x \<in> set (spec_log (spec_step e sp)). w_key x = w_key w \<and> stamp w \<le> stamp x"
      using Cons.prems(2) by (force simp: True acceptable_def list_all_iff not_less)
    then show ?thesis using log_grows [of "spec_step e sp" es] by auto
  next
    case False
    with Cons.prems(1) have "w \<in> set (writes_of es)" by (cases e) auto
    with Cons.IH [of "spec_step e sp"] Cons.prems(2) show ?thesis by simp
  qed
qed simp

lemma last_is_greatest:
  assumes "log_increasing log" and "x \<in> set log" and "w_key x = k" and "w_slot x \<le> s"
    and "\<And>y. y \<in> set log \<Longrightarrow> w_key y = k \<Longrightarrow> w_slot y \<le> s \<Longrightarrow> stamp y \<le> stamp x"
  shows "latest base log s k = w_value x"
proof -
  let ?ys = "filter (\<lambda>w. w_key w = k \<and> w_slot w \<le> s) log"
  have x: "x \<in> set ?ys" using assms(2-4) by simp
  then obtain us vs where ys: "?ys = us @ x # vs" by (meson split_list)
  have "sorted_wrt (\<lambda>x y. w_key x = w_key y \<longrightarrow> stamp x < stamp y) ?ys"
    using assms(1) by (simp add: log_increasing_def sorted_wrt_filter)
  then have after: "\<forall>y \<in> set vs. w_key x = w_key y \<longrightarrow> stamp x < stamp y"
    by (simp add: ys sorted_wrt_append)
  have "set vs \<subseteq> set ?ys" by (simp add: ys) blast
  then have "vs = []"
    using after assms(3,5) by (cases vs) (force simp: not_less [symmetric])+
  then show ?thesis by (simp add: latest_def ys)
qed

text \<open>A key's newest write is shown from its slot on, in whatever order the writes came.\<close>

lemma latest_newest:
  assumes "w \<in> set (writes_of es)" and "w_key w = k" and "fl \<le> w_slot w"
    and "\<And>x. x \<in> set (writes_of es) \<Longrightarrow> w_key x = k \<Longrightarrow> fl \<le> w_slot x \<Longrightarrow> x \<noteq> w \<Longrightarrow> stamp x < stamp w"
    and "w_slot w \<le> s"
  shows "latest base (spec_log (spec_run es (spec_init fl base))) s k = w_value w"
proof -
  let ?log = "spec_log (spec_run es (spec_init fl base))"
  have sub: "x \<in> set (writes_of es) \<and> fl \<le> w_slot x" if "x \<in> set ?log" for x
    using log_subset_run [of es "spec_init fl base"] that by (auto simp: spec_init_def)
  obtain x where "x \<in> set ?log" and "w_key x = k" and "stamp w \<le> stamp x"
    using write_dominated [OF assms(1), of "spec_init fl base"] assms(2,3)
    by (auto simp: spec_init_def)
  moreover have "x = w"
    using calculation sub [of x] assms(4) [of x] by (auto simp: not_less [symmetric])
  ultimately have "w \<in> set ?log" by simp
  then show ?thesis
  proof (rule last_is_greatest [rotated])
    show "log_increasing ?log"
      by (rule log_increasing_run) (simp add: spec_init_def log_increasing_def)
    show "stamp y \<le> stamp w" if "y \<in> set ?log" and "w_key y = k" for y
      using sub [OF that(1)] assms(4) [of y] that(2) by (cases "y = w") (auto intro: less_imp_le)
  qed (use assms(1,2,5) in auto)
qed

lemma latest_untouched:
  assumes "\<And>x. x \<in> set (writes_of es) \<Longrightarrow> w_key x = k \<Longrightarrow> w_slot x < fl"
  shows "latest base (spec_log (spec_run es (spec_init fl base))) s k = base k"
proof -
  have "filter (\<lambda>w. w_key w = k \<and> w_slot w \<le> s) (spec_log (spec_run es (spec_init fl base))) = []"
    using log_subset_run [of es "spec_init fl base"] assms
    by (force simp: filter_empty_conv spec_init_def not_le)
  then show ?thesis by (simp add: latest_def)
qed

text \<open>
  The writes of a list that advance their key: not below the floor, and newer than every write to
  the same key before them. They are what the log holds.
\<close>

fun advancing :: "u64 \<Rightarrow> 'a staged_write list \<Rightarrow> 'a staged_write list \<Rightarrow> 'a staged_write list" where
  "advancing fl before [] = []"
| "advancing fl before (w # ws) =
     (if acceptable fl before w then [w] else []) @ advancing fl (before @ [w]) ws"

lemma acceptable_skip:
  assumes "\<not> acceptable fl before x"
  shows "acceptable fl (before @ [x]) w = acceptable fl before w"
proof -
  have "stamp x < stamp w" if acc: "acceptable fl before w" and key: "w_key x = w_key w"
  proof (cases "fl \<le> w_slot x")
    case True
    then obtain y where "y \<in> set before" "w_key y = w_key x" "stamp x \<le> stamp y"
      using assms by (auto simp: acceptable_def list_all_iff not_less)
    with acc key show ?thesis by (fastforce simp: acceptable_def list_all_iff)
  next
    case False
    with acc show ?thesis by (auto simp: acceptable_def stamp_def)
  qed
  then show ?thesis by (auto simp: acceptable_def)
qed

lemma spec_log_advancing:
  assumes "\<And>w. acceptable (spec_floor sp) (spec_log sp) w = acceptable (spec_floor sp) before w"
  shows "spec_log (spec_run es sp) = spec_log sp @ advancing (spec_floor sp) before (writes_of es)"
  using assms
proof (induction es arbitrary: sp before)
  case (Cons e es)
  show ?case
  proof (cases e)
    case (Write w)
    show ?thesis
    proof (cases "acceptable (spec_floor sp) before w")
      case True
      have snoc: "acceptable fl (log @ [w]) x \<longleftrightarrow>
          acceptable fl log x \<and> (w_key w = w_key x \<longrightarrow> stamp w < stamp x)" for fl log x
        by (auto simp: acceptable_def)
      show ?thesis
        using Cons.IH [of "sp\<lparr>spec_log := spec_log sp @ [w]\<rparr>" "before @ [w]"]
        by (simp add: Write True Cons.prems snoc)
    next
      case False
      show ?thesis
        using Cons.IH [of sp "before @ [w]"] by (simp add: Write False Cons.prems acceptable_skip)
    qed
  next
    case (Flush s)
    with Cons.IH [of "spec_step e sp" before] Cons.prems show ?thesis by simp
  qed
qed simp

lemma spec_log_init:
  "spec_log (spec_run es (spec_init fl base)) = advancing fl [] (writes_of es)"
  using spec_log_advancing [of "spec_init fl base" "[]" es] by (simp add: spec_init_def)

section \<open>The contract\<close>

locale staging =
  fixes inv :: "'u \<Rightarrow> bool"
    and lowest :: "'u \<Rightarrow> u64"
    and confirmed :: "'u \<Rightarrow> u64"
    and shown :: "'u \<Rightarrow> key \<rightharpoonup> 'a"
    and newest :: "'u \<Rightarrow> key \<rightharpoonup> u64 \<times> u64"
    and seen :: "u64 \<Rightarrow> 'u \<Rightarrow> key \<rightharpoonup> 'a"
    and ok :: "'u \<Rightarrow> 'a staged_write \<Rightarrow> bool"
    and stage :: "'a staged_write \<Rightarrow> 'u \<Rightarrow> 'u"
    and flush :: "u64 \<Rightarrow> 'u \<Rightarrow> 'u"
  assumes ok_iff: "ok u w \<longleftrightarrow>
      lowest u \<le> w_slot w \<and> (\<forall>old. newest u (w_key w) = Some old \<longrightarrow> old < stamp w)"
    and stage_rejected: "\<not> ok u w \<Longrightarrow> stage w u = u"
    and stage_inv: "inv u \<Longrightarrow> inv (stage w u)"
    and stage_frames: "lowest (stage w u) = lowest u" "confirmed (stage w u) = confirmed u"
      "shown (stage w u) = shown u"
    and stage_newest: "ok u w \<Longrightarrow> newest (stage w u) = (newest u)(w_key w \<mapsto> stamp w)"
    and stage_seen: "inv u \<Longrightarrow> ok u w \<Longrightarrow> seen s (stage w u) =
      (if w_slot w \<le> s then (seen s u)(w_key w := w_value w) else seen s u)"
    and flush_old: "s \<le> confirmed u \<Longrightarrow> flush s u = u"
    and flush_inv: "inv u \<Longrightarrow> inv (flush s u)"
    and flush_frames: "lowest (flush s u) = lowest u" "newest (flush s u) = newest u"
    and flush_new: "confirmed u < s \<Longrightarrow> confirmed (flush s u) = s"
      "confirmed u < s \<Longrightarrow> shown (flush s u) = seen s u"
      "confirmed u < s \<Longrightarrow> s \<le> s' \<Longrightarrow> seen s' (flush s u) = seen s' u"
begin

definition refines :: "'u \<Rightarrow> 'a staging_spec \<Rightarrow> bool" where
  "refines u sp \<longleftrightarrow>
     inv u \<and> lowest u = spec_floor sp \<and> confirmed u = spec_confirmed sp \<and>
     shown u = spec_shown sp \<and>
     (\<forall>s \<ge> confirmed u. seen s u = latest (spec_base sp) (spec_log sp) s) \<and>
     (\<forall>k w. newest u k = Some w \<longrightarrow> (\<exists>x \<in> set (spec_log sp). w_key x = k \<and> stamp x = w)) \<and>
     (\<forall>x \<in> set (spec_log sp). \<exists>w. newest u (w_key x) = Some w \<and> stamp x \<le> w)"

definition feed :: "'a staging_event \<Rightarrow> 'u \<Rightarrow> 'u" where
  "feed e u = (case e of Write w \<Rightarrow> stage w u | Flush s \<Rightarrow> flush s u)"

lemma ok_acceptable:
  assumes "refines u sp"
  shows "ok u w \<longleftrightarrow> acceptable (spec_floor sp) (spec_log sp) w"
proof -
  have newest: "newest u k = Some old \<Longrightarrow> \<exists>x \<in> set (spec_log sp). w_key x = k \<and> stamp x = old"
    and logged: "x \<in> set (spec_log sp) \<Longrightarrow> \<exists>old. newest u (w_key x) = Some old \<and> stamp x \<le> old"
    and low: "lowest u = spec_floor sp" for k old x
    using assms unfolding refines_def by blast+
  have "(\<forall>old. newest u (w_key w) = Some old \<longrightarrow> old < stamp w) \<longleftrightarrow>
      (\<forall>x \<in> set (spec_log sp). w_key x = w_key w \<longrightarrow> stamp x < stamp w)"
  proof (intro iffI ballI allI impI)
    fix x
    assume all: "\<forall>old. newest u (w_key w) = Some old \<longrightarrow> old < stamp w"
      and "x \<in> set (spec_log sp)" and "w_key x = w_key w"
    with logged [of x] obtain old where "newest u (w_key w) = Some old" and "stamp x \<le> old"
      by auto
    with all show "stamp x < stamp w" by (blast intro: le_less_trans)
  next
    fix old
    assume all: "\<forall>x \<in> set (spec_log sp). w_key x = w_key w \<longrightarrow> stamp x < stamp w"
      and "newest u (w_key w) = Some old"
    with newest [of "w_key w" old] show "old < stamp w" by blast
  qed
  then show ?thesis
    by (simp add: ok_iff acceptable_def list_all_iff low)
qed

lemma refines_write:
  assumes "refines u sp"
  shows "refines (stage w u) (spec_step (Write w) sp)"
proof (cases "ok u w")
  case True
  have inv: "inv u" using assms by (simp add: refines_def)
  have acc: "acceptable (spec_floor sp) (spec_log sp) w"
    using True ok_acceptable [OF assms] by simp
  have log: "spec_step (Write w) sp = sp\<lparr>spec_log := spec_log sp @ [w]\<rparr>"
    using acc by simp
  have older: "stamp x \<le> stamp w" if "x \<in> set (spec_log sp)" and "w_key x = w_key w" for x
    using acc that by (auto simp: acceptable_def list_all_iff intro: less_imp_le)
  show ?thesis
    unfolding refines_def log
    using assms older
    by (auto simp: refines_def stage_inv stage_frames stage_newest True stage_seen [OF inv True]
        latest_snoc simp del: split_paired_Ex split_paired_All)
qed (use assms ok_acceptable [OF assms] in \<open>simp add: stage_rejected\<close>)

lemma refines_flush:
  assumes "refines u sp"
  shows "refines (flush s u) (spec_step (Flush s) sp)"
proof (cases "s \<le> confirmed u")
  case False
  with assms show ?thesis
    by (auto simp: refines_def flush_inv flush_frames flush_new not_le)
qed (use assms in \<open>simp add: flush_old refines_def\<close>)

lemma refines_step: "refines u sp \<Longrightarrow> refines (feed e u) (spec_step e sp)"
  by (cases e) (simp_all add: feed_def refines_write refines_flush del: spec_step.simps)

theorem refines_run: "refines u sp \<Longrightarrow> refines (fold feed es u) (spec_run es sp)"
  by (induction es arbitrary: u sp) (simp_all add: refines_step)

lemma refines_init:
  assumes "inv u" and "confirmed u = lowest u" and "newest u = Map.empty"
    and "\<And>s. seen s u = shown u"
  shows "refines u (spec_init (lowest u) (shown u))"
  using assms by (simp add: refines_def spec_init_def)

lemma confirmed_step: "confirmed u \<le> confirmed (feed e u)"
proof (cases e)
  case (Flush s)
  then show ?thesis
    by (cases "s \<le> confirmed u") (simp_all add: feed_def flush_old flush_new not_le less_imp_le)
qed (simp add: feed_def stage_frames)

lemma confirmed_run: "confirmed u \<le> confirmed (fold feed es u)"
  by (induction es arbitrary: u) (auto intro: order_trans confirmed_step)

end

end
