(* ===== verification/State_Updater.thy ===== *)
theory State_Updater
  imports Store Staging
begin

text \<open>
  \<^verbatim>\<open>src/state_updater.rs\<close>: account writes are staged by slot, kept only when newer than the
  last write to their key, and moved into the account map when their slot is confirmed. The
  \<^verbatim>\<open>Arc<Store>\<close> the Rust struct holds is passed next to it.
\<close>

section \<open>State\<close>

record fetched_alt_state =
  context_slot :: u64
  fetched_accounts :: "(key, account) omap"

record mutation =
  mut_key :: key
  mut_account :: "account option"

record state_updater =
  bootstrap_slot :: u64
  confirmed_slot :: u64
  source_url :: string
  accounts :: "(key, account) omap"
  pending :: "(u64, mutation list) omap"
  versions :: "key \<rightharpoonup> u64 \<times> u64"
  recovering :: bool

section \<open>Operations\<close>

definition new_updater :: state_updater where
  "new_updater =
     \<lparr>bootstrap_slot = 0, confirmed_slot = 0, source_url = [], accounts = om_empty,
      pending = om_empty, versions = Map.empty, recovering = True\<rparr>"

definition from_fetched_alt_state :: "string \<Rightarrow> fetched_alt_state \<Rightarrow> state_updater" where
  "from_fetched_alt_state url fetched =
     \<lparr>bootstrap_slot = context_slot fetched, confirmed_slot = context_slot fetched,
      source_url = url, accounts = om_of_list (om_items (fetched_accounts fetched)),
      pending = om_empty, versions = Map.empty, recovering = True\<rparr>"

definition apply_mutation :: "mutation \<Rightarrow> (key, account) omap \<Rightarrow> (key, account) omap" where
  "apply_mutation m accs =
     (case mut_account m of
        Some a \<Rightarrow> om_insert (mut_key m) a accs
      | None \<Rightarrow> om_remove (mut_key m) accs)"

text \<open>
  One round of the loop of \<^verbatim>\<open>apply_pending_through\<close>. The \<^verbatim>\<open>unwrap\<close> cannot panic: the
  slots are the map's own keys, each visited once (\<open>apply_slots\<close> below).
\<close>

definition apply_slot :: "u64 \<Rightarrow> state_updater \<Rightarrow> state_updater" where
  "apply_slot slot u =
     (case om_get (pending u) slot of
        None \<Rightarrow> u
      | Some ms \<Rightarrow>
          u\<lparr>accounts := fold apply_mutation ms (accounts u),
            pending := om_remove slot (pending u)\<rparr>)"

definition apply_pending_through :: "u64 \<Rightarrow> state_updater \<Rightarrow> state_updater" where
  "apply_pending_through slot u = fold apply_slot (om_keys_through slot (pending u)) u"

text \<open>\<^verbatim>\<open>pending.entry(slot).or_default().push(mutation)\<close>.\<close>

definition push_pending ::
  "u64 \<Rightarrow> 'a \<Rightarrow> (u64, 'a list) omap \<Rightarrow> (u64, 'a list) omap" where
  "push_pending slot m p =
     om_insert slot ((case om_get p slot of None \<Rightarrow> [] | Some ms \<Rightarrow> ms) @ [m]) p"

definition queue ::
  "key \<Rightarrow> u64 \<Rightarrow> u64 \<Rightarrow> account option \<Rightarrow> state_updater \<Rightarrow> bool \<times> state_updater" where
  "queue key slot version acc u =
     (if slot < bootstrap_slot u \<or>
         (case versions u key of None \<Rightarrow> False | Some old \<Rightarrow> (slot, version) \<le> old)
      then (False, u)
      else (True, u\<lparr>versions := (versions u)(key \<mapsto> (slot, version)),
                    pending := push_pending slot \<lparr>mut_key = key, mut_account = acc\<rparr> (pending u)\<rparr>))"

definition confirm :: "u64 \<Rightarrow> store \<times> state_updater \<Rightarrow> bool \<times> store \<times> state_updater" where
  "confirm slot su =
     (let (s, u) = su in
      if slot \<le> confirmed_slot u then (False, s, u)
      else
        let u' = (apply_pending_through slot u)\<lparr>confirmed_slot := slot\<rparr>;
            s' = (if \<not> recovering u' then publish (source_url u') slot (accounts u') s else s)
        in (True, s', u'))"

definition finish_recovery :: "store \<times> state_updater \<Rightarrow> store \<times> state_updater" where
  "finish_recovery su =
     (let (s, u) = su;
          u' = apply_pending_through (confirmed_slot u) u
      in (publish (source_url u') (confirmed_slot u') (accounts u') s, u'\<lparr>recovering := False\<rparr>))"

section \<open>Applying staged writes\<close>

text \<open>The staged writes up to a slot, in the order they are applied; those to one key.\<close>

definition staged :: "u64 \<Rightarrow> (u64, 'a list) omap \<Rightarrow> 'a list" where
  "staged s p = concat (map snd (filter (\<lambda>e. fst e \<le> s) (om_items p)))"

definition staged_for :: "key \<Rightarrow> u64 \<Rightarrow> (u64, mutation list) omap \<Rightarrow> mutation list" where
  "staged_for k s p = filter (\<lambda>m. mut_key m = k) (staged s p)"

text \<open>What the map would hold for a key if everything up to slot \<open>s\<close> were applied.\<close>

definition view :: "u64 \<Rightarrow> state_updater \<Rightarrow> key \<rightharpoonup> account" where
  "view s u k =
     (if staged_for k s (pending u) = [] then om_get (accounts u) k
      else mut_account (last (staged_for k s (pending u))))"

lemma om_get_apply_mutation:
  "om_get (apply_mutation m accs) = (om_get accs)(mut_key m := mut_account m)"
  by (simp add: apply_mutation_def split: option.split)

lemma om_get_fold_apply_mutation:
  "om_get (fold apply_mutation ms accs) k =
     (if filter (\<lambda>m. mut_key m = k) ms = [] then om_get accs k
      else mut_account (last (filter (\<lambda>m. mut_key m = k) ms)))"
  by (induction ms arbitrary: accs) (auto simp: om_get_apply_mutation)

lemma apply_slots:
  assumes "om_items (pending u) = xs @ ys"
  shows "\<exists>p. fold apply_slot (map fst xs) u =
      u\<lparr>accounts := fold apply_mutation (concat (map snd xs)) (accounts u), pending := p\<rparr> \<and>
    om_items p = ys"
  using assms
proof (induction xs arbitrary: u)
  case Nil
  then show ?case by (intro exI [of _ "pending u"]) simp
next
  case (Cons e xs)
  obtain s ms where e: "e = (s, ms)" by (cases e)
  let ?u = "u\<lparr>accounts := fold apply_mutation ms (accounts u), pending := om_remove s (pending u)\<rparr>"
  have sorted: "keys_sorted ((s, ms) # xs @ ys)"
    using om_items_keys_sorted [of "pending u"] Cons.prems e by simp
  have "om_get (pending u) s = Some ms"
    using Cons.prems e by (simp add: om_get_def)
  then have step: "apply_slot s u = ?u" by (simp add: apply_slot_def)
  have "\<forall>e' \<in> set (xs @ ys). fst e' \<noteq> s"
    using sorted by force
  then have "om_items (pending ?u) = xs @ ys"
    using Cons.prems e by (simp add: entry_remove_def filter_id_conv)
  from Cons.IH [OF this] obtain p where
    "fold apply_slot (map fst xs) ?u =
       ?u\<lparr>accounts := fold apply_mutation (concat (map snd xs)) (accounts ?u), pending := p\<rparr>"
    and "om_items p = ys" by blast
  then show ?case by (intro exI [of _ p]) (simp add: e step)
qed

lemma apply_pending_through_eq:
  "\<exists>p. apply_pending_through s u =
      u\<lparr>accounts := fold apply_mutation (staged s (pending u)) (accounts u), pending := p\<rparr> \<and>
    om_items p = filter (\<lambda>e. s < fst e) (om_items (pending u))"
proof -
  have keys: "om_keys_through s (pending u) = map fst (filter (\<lambda>e. fst e \<le> s) (om_items (pending u)))"
    by (simp add: om_keys_through_def om_keys_def filter_map o_def)
  show ?thesis
    using apply_slots [OF om_items_split [of "pending u" s]]
    unfolding apply_pending_through_def keys staged_def .
qed

lemma apply_pending_through_frames [simp, frame_simps]:
  "bootstrap_slot (apply_pending_through s u) = bootstrap_slot u"
  "confirmed_slot (apply_pending_through s u) = confirmed_slot u"
  "source_url (apply_pending_through s u) = source_url u"
  "versions (apply_pending_through s u) = versions u"
  "recovering (apply_pending_through s u) = recovering u"
  using apply_pending_through_eq [of s u] by auto

lemma pending_apply_pending_through:
  "om_items (pending (apply_pending_through s u)) =
     filter (\<lambda>e. s < fst e) (om_items (pending u))"
  using apply_pending_through_eq [of s u] by auto

lemma accounts_apply_pending_through:
  "accounts (apply_pending_through s u) =
     fold apply_mutation (staged s (pending u)) (accounts u)"
  using apply_pending_through_eq [of s u] by auto

lemma accounts_view: "om_get (accounts (apply_pending_through s u)) = view s u"
  by (rule ext)
    (simp add: accounts_apply_pending_through om_get_fold_apply_mutation view_def staged_for_def)

lemma staged_split:
  assumes "s0 \<le> s"
  shows "staged s p = staged s0 p @
    concat (map snd (filter (\<lambda>e. fst e \<le> s) (filter (\<lambda>e. s0 < fst e) (om_items p))))"
proof -
  have "filter (\<lambda>e. fst e \<le> s) (om_items p) =
      filter (\<lambda>e. fst e \<le> s) (filter (\<lambda>e. fst e \<le> s0) (om_items p)) @
      filter (\<lambda>e. fst e \<le> s) (filter (\<lambda>e. s0 < fst e) (om_items p))"
    by (subst om_items_split [of p s0]) (rule filter_append)
  also have "filter (\<lambda>e. fst e \<le> s) (filter (\<lambda>e. fst e \<le> s0) (om_items p)) =
      filter (\<lambda>e. fst e \<le> s0) (om_items p)"
    unfolding filter_filter by (rule filter_cong) (use assms in auto)
  finally show ?thesis by (simp add: staged_def)
qed

text \<open>Applying early does not change what a later confirmation shows.\<close>

lemma view_apply_pending_through:
  assumes "s0 \<le> s"
  shows "view s (apply_pending_through s0 u) = view s u"
proof
  fix k
  let ?u = "apply_pending_through s0 u"
  have "staged s (pending u) = staged s0 (pending u) @ staged s (pending ?u)"
    unfolding staged_def [of s "pending ?u"] pending_apply_pending_through
    by (rule staged_split [OF assms])
  then have "staged_for k s (pending u) = staged_for k s0 (pending u) @ staged_for k s (pending ?u)"
    by (simp add: staged_for_def)
  then show "view s ?u k = view s u k"
    by (auto simp: view_def [of s] accounts_view view_def [of s0])
qed

lemma view_confirmed_slot [simp]:
  "view s (u\<lparr>confirmed_slot := c\<rparr>) = view s u" "view s (u\<lparr>recovering := r\<rparr>) = view s u"
  by (simp_all add: view_def fun_eq_iff)

section \<open>Staging a write\<close>

definition none_after :: "key \<Rightarrow> u64 \<Rightarrow> (u64, mutation list) omap \<Rightarrow> bool" where
  "none_after k slot p \<longleftrightarrow>
     (\<forall>s ms m. om_get p s = Some ms \<longrightarrow> m \<in> set ms \<longrightarrow> mut_key m = k \<longrightarrow> s \<le> slot)"

lemma staged_for_insert:
  assumes "keys_sorted items"
    and "mut_key m = k \<Longrightarrow>
           (\<forall>s ms. (s, ms) \<in> set items \<longrightarrow> slot < s \<longrightarrow> filter (\<lambda>m. mut_key m = k) ms = [])"
  shows "filter (\<lambda>m. mut_key m = k) (concat (map snd (filter (\<lambda>e. fst e \<le> s)
      (entry_insert slot ((case map_of items slot of None \<Rightarrow> [] | Some ms \<Rightarrow> ms) @ [m]) items)))) =
    filter (\<lambda>m. mut_key m = k) (concat (map snd (filter (\<lambda>e. fst e \<le> s) items))) @
      (if slot \<le> s \<and> mut_key m = k then [m] else [])"
  using assms
proof (induction items)
  case Nil
  then show ?case by simp
next
  case (Cons e items)
  obtain s' ms where e: "e = (s', ms)" by (cases e)
  have sorted: "\<forall>e' \<in> set items. s' < fst e'" "keys_sorted items"
    using Cons.prems(1) e by auto
  have IH: "filter (\<lambda>m. mut_key m = k) (concat (map snd (filter (\<lambda>e. fst e \<le> s)
      (entry_insert slot ((case map_of items slot of None \<Rightarrow> [] | Some ms \<Rightarrow> ms) @ [m]) items)))) =
    filter (\<lambda>m. mut_key m = k) (concat (map snd (filter (\<lambda>e. fst e \<le> s) items))) @
      (if slot \<le> s \<and> mut_key m = k then [m] else [])"
    using Cons.prems by (intro Cons.IH sorted(2)) (auto simp: e)
  have later: "filter (\<lambda>m. mut_key m = k) (concat (map snd (filter (\<lambda>e. fst e \<le> s) xs))) = []"
    if "mut_key m = k" and "set xs \<subseteq> set (e # items)" and "\<forall>e' \<in> set xs. slot < fst e'" for xs
    using that Cons.prems(2) by (fastforce simp: filter_empty_conv)
  consider "slot < s'" | "slot = s'" | "s' < slot" by fastforce
  then show ?case
  proof cases
    case 1
    then have "map_of (e # items) slot = None"
      using sorted(1) by (auto simp: e map_of_eq_None_iff)
    moreover have "\<forall>e' \<in> set (e # items). slot < fst e'"
      using 1 sorted(1) by (auto simp: e intro: less_trans)
    ultimately show ?thesis
      using 1 later [of "e # items"] by (cases "mut_key m = k") (simp_all add: e)
  next
    case 2
    with sorted(1) have "mut_key m = k \<Longrightarrow>
        filter (\<lambda>m. mut_key m = k) (concat (map snd (filter (\<lambda>e. fst e \<le> s) items))) = []"
      by (intro later) auto
    with 2 show ?thesis by (cases "mut_key m = k") (simp_all add: e)
  next
    case 3
    then have "slot \<noteq> s'" and "\<not> slot < s'" by auto
    then show ?thesis using IH by (simp add: e)
  qed
qed

lemma staged_for_push:
  assumes "mut_key m = k \<Longrightarrow> none_after k slot p"
  shows "staged_for k s (push_pending slot m p) =
    staged_for k s p @ (if slot \<le> s \<and> mut_key m = k then [m] else [])"
  unfolding staged_for_def staged_def push_pending_def om_items_simps om_get_def
proof (rule staged_for_insert)
  assume "mut_key m = k"
  then have "none_after k slot p" by (rule assms)
  then show "\<forall>s ms. (s, ms) \<in> set (om_items p) \<longrightarrow> slot < s \<longrightarrow> filter (\<lambda>m. mut_key m = k) ms = []"
    by (auto simp: none_after_def filter_empty_conv om.items_look not_less [symmetric])
qed simp

section \<open>The staging invariant\<close>

text \<open>
  Writes to one key are staged at slots no later than the last accepted write to it, and no write
  is staged below the bootstrap slot.
\<close>

definition updater_inv :: "state_updater \<Rightarrow> bool" where
  "updater_inv u \<longleftrightarrow>
     (\<forall>s ms m. om_get (pending u) s = Some ms \<longrightarrow> m \<in> set ms \<longrightarrow>
        bootstrap_slot u \<le> s \<and>
        (\<exists>last. versions u (mut_key m) = Some last \<and> s \<le> fst last))"

lemma updater_inv_from_fetched: "updater_inv (from_fetched_alt_state url f)"
  by (simp add: updater_inv_def from_fetched_alt_state_def)

lemma updater_inv_apply_pending_through:
  assumes "updater_inv u"
  shows "updater_inv (apply_pending_through s u)"
proof -
  have "om_get (pending (apply_pending_through s u)) sl = Some ms \<Longrightarrow> om_get (pending u) sl = Some ms"
    for sl ms
    using om.items_look [of sl ms "pending (apply_pending_through s u)"]
      om.items_look [of sl ms "pending u"]
    by (simp add: pending_apply_pending_through)
  with assms show ?thesis by (force simp: updater_inv_def)
qed

lemma queue_accepted:
  "fst (queue k slot v a u) \<longleftrightarrow>
     bootstrap_slot u \<le> slot \<and> (\<forall>old. versions u k = Some old \<longrightarrow> old < (slot, v))"
  by (auto simp: queue_def not_le not_less split: option.splits)

lemma queue_rejected [simp]: "\<not> fst (queue k slot v a u) \<Longrightarrow> snd (queue k slot v a u) = u"
  by (auto simp: queue_def split: if_splits)

lemma queue_effect:
  "fst (queue k slot v a u) \<Longrightarrow> snd (queue k slot v a u) =
     u\<lparr>versions := (versions u)(k \<mapsto> (slot, v)),
       pending := push_pending slot \<lparr>mut_key = k, mut_account = a\<rparr> (pending u)\<rparr>"
  by (auto simp: queue_def split: if_splits)

lemma accepted_none_after:
  assumes "updater_inv u" and "fst (queue k slot v a u)"
  shows "none_after k slot (pending u)"
  unfolding none_after_def
proof (intro allI impI)
  fix s ms m
  assume "om_get (pending u) s = Some ms" and "m \<in> set ms" and "mut_key m = k"
  with assms(1) obtain l where l: "versions u k = Some l" "s \<le> fst l"
    unfolding updater_inv_def by blast
  moreover have "l < (slot, v)"
    using assms(2) l(1) by (simp add: queue_accepted)
  then have "fst l \<le> slot" by (cases l) auto
  ultimately show "s \<le> slot" by simp
qed

lemma push_pending_member:
  assumes "om_get (push_pending slot m p) s = Some ms" and "x \<in> set ms"
  obtains "s = slot" "x = m" | ms' where "om_get p s = Some ms'" "x \<in> set ms'"
  using assms by (auto simp: push_pending_def split: if_splits option.splits)

lemma updater_inv_queue:
  assumes "updater_inv u"
  shows "updater_inv (snd (queue k slot v a u))"
proof (cases "fst (queue k slot v a u)")
  case True
  note none = accepted_none_after [OF assms True]
  have boot: "bootstrap_slot u \<le> slot" using True by (simp add: queue_accepted)
  have "bootstrap_slot u \<le> s \<and>
      (\<exists>l. ((versions u)(k \<mapsto> (slot, v))) (mut_key x) = Some l \<and> s \<le> fst l)"
    if "om_get (push_pending slot \<lparr>mut_key = k, mut_account = a\<rparr> (pending u)) s = Some ms"
      and "x \<in> set ms" for s ms x
    using that
  proof (rule push_pending_member)
    fix ms'
    assume "om_get (pending u) s = Some ms'" "x \<in> set ms'"
    with assms none show ?thesis
      unfolding updater_inv_def none_after_def by (cases "mut_key x = k") auto
  qed (use boot in simp)
  then show ?thesis
    unfolding updater_inv_def queue_effect [OF True] by simp
qed (use assms in simp)

lemma view_queue:
  assumes "updater_inv u"
  shows "view s (snd (queue k slot v a u)) =
    (if fst (queue k slot v a u) \<and> slot \<le> s then (view s u)(k := a) else view s u)"
proof (cases "fst (queue k slot v a u)")
  case True
  have "staged_for k' s (push_pending slot \<lparr>mut_key = k, mut_account = a\<rparr> (pending u)) =
      staged_for k' s (pending u) @
        (if slot \<le> s \<and> k = k' then [\<lparr>mut_key = k, mut_account = a\<rparr>] else [])" for k'
    using accepted_none_after [OF assms True] by (subst staged_for_push) auto
  with True show ?thesis
    by (auto simp: queue_effect view_def fun_eq_iff)
qed simp

section \<open>The updater keeps the staging contract\<close>

definition stage_write :: "account staged_write \<Rightarrow> state_updater \<Rightarrow> state_updater" where
  "stage_write w u = snd (queue (w_key w) (w_slot w) (w_version w) (w_value w) u)"

definition accepts_write :: "state_updater \<Rightarrow> account staged_write \<Rightarrow> bool" where
  "accepts_write u w = fst (queue (w_key w) (w_slot w) (w_version w) (w_value w) u)"

text \<open>The updater's half of \<open>confirm\<close>, which does not depend on the store.\<close>

definition confirm_updater :: "u64 \<Rightarrow> state_updater \<Rightarrow> state_updater" where
  "confirm_updater s u =
     (if s \<le> confirmed_slot u then u else (apply_pending_through s u)\<lparr>confirmed_slot := s\<rparr>)"

lemma snd_confirm: "snd (snd (confirm s (st, u))) = confirm_updater s u"
  by (simp add: confirm_def confirm_updater_def Let_def)

lemma confirm_updater_inv: "updater_inv u \<Longrightarrow> updater_inv (confirm_updater s u)"
  using updater_inv_apply_pending_through [of u s]
  by (simp add: confirm_updater_def updater_inv_def)

lemma queue_frames [simp, frame_simps]:
  "bootstrap_slot (snd (queue k sl v a u)) = bootstrap_slot u"
  "confirmed_slot (snd (queue k sl v a u)) = confirmed_slot u"
  "source_url (snd (queue k sl v a u)) = source_url u"
  "accounts (snd (queue k sl v a u)) = accounts u"
  "recovering (snd (queue k sl v a u)) = recovering u"
  by (simp_all add: queue_def)

interpretation su: staging updater_inv bootstrap_slot confirmed_slot "\<lambda>u. om_get (accounts u)"
  versions view accepts_write stage_write confirm_updater
proof
  fix u w s and s' :: u64
  show "accepts_write u w \<longleftrightarrow>
      bootstrap_slot u \<le> w_slot w \<and> (\<forall>old. versions u (w_key w) = Some old \<longrightarrow> old < stamp w)"
    by (simp add: accepts_write_def queue_accepted stamp_def)
  show "\<not> accepts_write u w \<Longrightarrow> stage_write w u = u"
    by (simp add: accepts_write_def stage_write_def)
  show "updater_inv u \<Longrightarrow> updater_inv (stage_write w u)"
    by (simp add: stage_write_def updater_inv_queue)
  show "bootstrap_slot (stage_write w u) = bootstrap_slot u"
    "confirmed_slot (stage_write w u) = confirmed_slot u"
    "om_get (accounts (stage_write w u)) = om_get (accounts u)"
    by (simp_all add: stage_write_def)
  show "accepts_write u w \<Longrightarrow> versions (stage_write w u) = (versions u)(w_key w \<mapsto> stamp w)"
    by (simp add: accepts_write_def stage_write_def queue_effect stamp_def)
  show "updater_inv u \<Longrightarrow> accepts_write u w \<Longrightarrow> view s (stage_write w u) =
      (if w_slot w \<le> s then (view s u)(w_key w := w_value w) else view s u)"
    by (simp add: accepts_write_def stage_write_def view_queue)
  show "s \<le> confirmed_slot u \<Longrightarrow> confirm_updater s u = u"
    by (simp add: confirm_updater_def)
  show "updater_inv u \<Longrightarrow> updater_inv (confirm_updater s u)"
    by (rule confirm_updater_inv)
  show "bootstrap_slot (confirm_updater s u) = bootstrap_slot u"
    "versions (confirm_updater s u) = versions u"
    by (simp_all add: confirm_updater_def)
  show "confirmed_slot u < s \<Longrightarrow> confirmed_slot (confirm_updater s u) = s"
    "confirmed_slot u < s \<Longrightarrow> om_get (accounts (confirm_updater s u)) = view s u"
    by (auto simp: confirm_updater_def accounts_view)
  show "confirmed_slot u < s \<Longrightarrow> s \<le> s' \<Longrightarrow> view s' (confirm_updater s u) = view s' u"
    by (auto simp: confirm_updater_def view_apply_pending_through)
qed

end
