(* ===== verification/Paging.thy ===== *)
theory Paging
  imports Store
begin

text \<open>
  What \<^verbatim>\<open>Store::snapshot_page\<close> promises: the content of one page, the invariant on retained
  snapshots, and that following cursors yields one snapshot's whole listing, whatever else the
  store goes through in between.
\<close>

section \<open>One page\<close>

lemma unat_plus_one: "limit \<noteq> (- 1 :: usize) \<Longrightarrow> unat (limit + 1) = unat limit + 1"
  by (metis Suc_eq_plus1 add.commute eq_neg_iff_add_eq_0 unatSuc)

lemma page_of_next:
  assumes "0 < limit" and "limit \<noteq> - 1"
  shows "page_next (page_of snap after limit) =
    (if unat limit < length (om_after after (snap_accounts snap))
     then Some (fst (om_after after (snap_accounts snap) ! (unat limit - 1))) else None)"
proof -
  have "0 < unat limit" using assms(1) by (simp add: word_less_nat_alt)
  then show ?thesis
    by (simp add: page_of_def Let_def unat_plus_one assms(2))
qed

lemma page_of_accounts:
  assumes "limit \<noteq> - 1"
  shows "page_accounts (page_of snap after limit) =
    map snd (take (unat limit) (om_after after (snap_accounts snap)))"
  by (simp add: page_of_def Let_def unat_plus_one assms min_def)

lemma page_of_slot [simp]: "page_slot (page_of snap after limit) = snap_slot snap"
  by (simp add: page_of_def Let_def)

text \<open>When the addition wraps, the page is empty and has no cursor.\<close>

lemma page_of_wrapped:
  "page_accounts (page_of snap after (- 1)) = [] \<and> page_next (page_of snap after (- 1)) = None"
  by (simp add: page_of_def Let_def)

lemma page_of_chain:
  assumes "0 < limit" and "limit \<noteq> - 1" and "page_next (page_of snap after limit) = Some k"
  shows "map snd (om_after after (snap_accounts snap)) =
           page_accounts (page_of snap after limit) @ map snd (om_after (Some k) (snap_accounts snap))"
    and "length (page_accounts (page_of snap after limit)) = unat limit"
proof -
  let ?rest = "om_after after (snap_accounts snap)"
  have pos: "0 < unat limit" using assms(1) by (simp add: word_less_nat_alt)
  from assms have len: "unat limit < length ?rest" and k: "k = fst (?rest ! (unat limit - 1))"
    by (auto simp: page_of_next split: if_splits)
  have "om_after (Some k) (snap_accounts snap) = drop (unat limit) ?rest"
    unfolding k by (rule om_after_advance) (use pos len in simp_all)
  then show "map snd ?rest = page_accounts (page_of snap after limit) @
      map snd (om_after (Some k) (snap_accounts snap))"
    by (simp add: page_of_accounts assms(2) flip: map_append)
  show "length (page_accounts (page_of snap after limit)) = unat limit"
    using len by (simp add: page_of_accounts assms(2))
qed

lemma page_of_last:
  assumes "0 < limit" and "limit \<noteq> - 1" and "page_next (page_of snap after limit) = None"
  shows "page_accounts (page_of snap after limit) = map snd (om_after after (snap_accounts snap))"
  using assms by (auto simp: page_of_next page_of_accounts split: if_splits)

section \<open>The calls other threads make\<close>

datatype store_op =
    Publish string u64 "(key, account) omap"
  | Invalidate
  | ReadPage instant "u64 option" "key option" usize

fun apply_op :: "store_op \<Rightarrow> store \<Rightarrow> store" where
  "apply_op (Publish url slot accounts) s = publish url slot accounts s"
| "apply_op Invalidate s = invalidate s"
| "apply_op (ReadPage now sl after limit) s = snd (snapshot_page now sl after limit s)"

definition run_ops :: "store_op list \<Rightarrow> store \<Rightarrow> store" where
  "run_ops ops s = fold apply_op ops s"

lemma run_ops_simps [simp]:
  "run_ops [] s = s" "run_ops (op # ops) s = run_ops ops (apply_op op s)"
  by (simp_all add: run_ops_def)

section \<open>The invariant on retained snapshots\<close>

text \<open>
  A retained entry is filed under its own slot, is not ahead of the current snapshot, and is the
  current snapshot if it has its slot.
\<close>

definition retained_ok :: "store \<Rightarrow> u64 \<Rightarrow> retained_snapshot \<Rightarrow> bool" where
  "retained_ok s slot r \<longleftrightarrow>
     snap_slot (ret_snapshot r) = slot \<and> slot \<le> snap_slot (current s) \<and>
     (slot = snap_slot (current s) \<longrightarrow> ret_snapshot r = current s)"

definition store_inv :: "store \<Rightarrow> bool" where
  "store_inv s \<longleftrightarrow> (\<forall>slot r. retained s slot = Some r \<longrightarrow> retained_ok s slot r)"

lemma store_invD: "store_inv s \<Longrightarrow> retained s slot = Some r \<Longrightarrow> retained_ok s slot r"
  by (simp add: store_inv_def)

lemma store_inv_new: "store_inv new_store"
  by (simp add: store_inv_def new_store_def)

lemma store_inv_cong:
  assumes "store_inv s" and "current s' = current s"
    and "\<And>slot r. retained s' slot = Some r \<Longrightarrow>
           (\<exists>q. retained s slot = Some q \<and> ret_snapshot q = ret_snapshot r) \<or>
           slot = snap_slot (current s) \<and> ret_snapshot r = current s"
  shows "store_inv s'"
  unfolding store_inv_def
proof (intro allI impI)
  fix slot r
  assume "retained s' slot = Some r"
  from assms(3) [OF this] show "retained_ok s' slot r"
  proof
    assume "\<exists>q. retained s slot = Some q \<and> ret_snapshot q = ret_snapshot r"
    then obtain q where "retained s slot = Some q" and "ret_snapshot q = ret_snapshot r"
      by blast
    with store_invD [OF assms(1), of slot q] show ?thesis
      unfolding retained_ok_def assms(2) by metis
  next
    assume "slot = snap_slot (current s) \<and> ret_snapshot r = current s"
    then show ?thesis by (simp add: retained_ok_def assms(2))
  qed
qed

lemma store_inv_publish:
  assumes "store_inv s" and "snap_slot (current s) \<le> slot" and "slot \<noteq> 0"
  shows "store_inv (publish url slot accounts s)"
proof (cases "slot = snap_slot (current s)")
  case True
  with assms show ?thesis
    by (simp add: store_inv_def retained_ok_def current_publish)
next
  case False
  with assms(2) have less: "snap_slot (current s) < slot" by simp
  show ?thesis
    unfolding store_inv_def
  proof (intro allI impI)
    fix slot' r
    assume "retained (publish url slot accounts s) slot' = Some r"
    with store_invD [OF assms(1), of slot' r]
    have "snap_slot (ret_snapshot r) = slot'" and "slot' \<le> snap_slot (current s)"
      by (simp_all add: retained_ok_def)
    with less show "retained_ok (publish url slot accounts s) slot' r"
      by (simp add: retained_ok_def)
  qed
qed

lemma store_inv_invalidate: "store_inv s \<Longrightarrow> store_inv (invalidate s)"
  by (simp add: store_inv_def retained_ok_def)

lemma store_inv_purge: "store_inv s \<Longrightarrow> store_inv (purge now s)"
  by (auto simp: store_inv_def retained_ok_def purge_retained)

lemma pick_snapshot_Inr:
  assumes "pick_snapshot now sl s = (Inr snap, s')"
  shows "(sl = None \<and> snap = current s \<and> s' = s) \<or>
    (\<exists>slot r. sl = Some slot \<and> retained s slot = Some r \<and> elapsed now (touched r) < retention \<and>
       snap = ret_snapshot r \<and>
       s' = (purge now s)\<lparr>retained := (retained (purge now s))(slot \<mapsto> r\<lparr>touched := now\<rparr>)\<rparr>)"
  using assms
  by (auto simp: pick_snapshot_def Let_def purge_retained split: option.splits)

lemma store_inv_pick:
  assumes "store_inv s"
  shows "store_inv (snd (pick_snapshot now sl s))"
proof (cases sl)
  case None
  with assms show ?thesis by (simp add: pick_snapshot_def)
next
  case (Some slot)
  note inv = store_inv_purge [OF assms, of now]
  show ?thesis
  proof (cases "retained (purge now s) slot")
    case None
    with Some inv show ?thesis by (simp add: pick_snapshot_def Let_def)
  next
    case (Some r)
    with \<open>sl = Some slot\<close> show ?thesis
      by (intro store_inv_cong [OF inv]) (auto simp: pick_snapshot_def Let_def split: if_splits)
  qed
qed

lemma store_inv_retain:
  assumes "store_inv s" and "snap = current s \<or> retained s (snap_slot snap) \<noteq> None"
  shows "store_inv (retain now snap s)"
  by (intro store_inv_cong [OF assms(1)])
    (use assms(2) in \<open>auto simp: retain_def split: option.splits if_splits\<close>)

lemma store_inv_page:
  assumes "store_inv s"
  shows "store_inv (snd (snapshot_page now sl after limit s))"
proof (cases "pick_snapshot now sl s")
  case (Pair res s')
  have inv': "store_inv s'" and cur: "current s' = current s"
    using store_inv_pick [OF assms, of now sl] pick_snapshot_frames(1) [of now sl s] Pair by simp_all
  show ?thesis
  proof (cases res)
    case (Inl e)
    with Pair inv' assms show ?thesis by (simp add: snapshot_page_def)
  next
    case (Inr snap)
    have "snap = current s' \<or> retained s' (snap_slot snap) \<noteq> None"
      using pick_snapshot_Inr [of now sl s snap s'] Pair Inr cur assms
      by (auto simp: store_inv_def retained_ok_def)
    then have "store_inv (retain now snap s')"
      by (rule store_inv_retain [OF inv'])
    with Pair Inr inv' assms show ?thesis by (simp add: snapshot_page_def Let_def)
  qed
qed

text \<open>Publications that move the slot forward, as a service without recoveries makes them.\<close>

fun forward_op :: "store \<Rightarrow> store_op \<Rightarrow> bool" where
  "forward_op s (Publish url slot accounts) \<longleftrightarrow> snap_slot (current s) \<le> slot \<and> slot \<noteq> 0"
| "forward_op s op \<longleftrightarrow> True"

fun forward_ops :: "store \<Rightarrow> store_op list \<Rightarrow> bool" where
  "forward_ops s [] \<longleftrightarrow> True"
| "forward_ops s (op # ops) \<longleftrightarrow> forward_op s op \<and> forward_ops (apply_op op s) ops"

lemma store_inv_apply_op: "store_inv s \<Longrightarrow> forward_op s op \<Longrightarrow> store_inv (apply_op op s)"
  by (cases op) (simp_all add: store_inv_publish store_inv_invalidate store_inv_page)

lemma store_inv_run_ops: "store_inv s \<Longrightarrow> forward_ops s ops \<Longrightarrow> store_inv (run_ops ops s)"
  by (induction ops arbitrary: s) (simp_all add: store_inv_apply_op)

section \<open>Following cursors\<close>

text \<open>The snapshot of a slot stays retained while it has been touched since \<open>t0\<close>.\<close>

definition holds :: "instant \<Rightarrow> u64 \<Rightarrow> server_snapshot \<Rightarrow> store \<Rightarrow> bool" where
  "holds t0 slot snap s \<longleftrightarrow>
     (\<exists>r. retained s slot = Some r \<and> ret_snapshot r = snap \<and> t0 \<le> touched r)"

lemma holds_purge:
  "holds t0 slot snap s \<Longrightarrow> elapsed now t0 < retention \<Longrightarrow> holds t0 slot snap (purge now s)"
  by (auto simp: holds_def purge_retained elapsed_def)

lemma holds_touch:
  assumes "holds t0 slot snap s" and "retained s slot' = Some r" and "t0 \<le> now"
  shows "holds t0 slot snap (s\<lparr>retained := (retained s)(slot' \<mapsto> r\<lparr>touched := now\<rparr>)\<rparr>)"
  using assms by (auto simp: holds_def)

lemma holds_pick:
  assumes "holds t0 slot snap s" and "t0 \<le> now" and "elapsed now t0 < retention"
  shows "holds t0 slot snap (snd (pick_snapshot now sl s))"
proof -
  have "holds t0 slot snap (purge now s)"
    using assms(1,3) by (rule holds_purge)
  then show ?thesis
    using assms(1,2) holds_touch
    by (auto simp: pick_snapshot_def Let_def split: option.split)
qed

lemma holds_retain: "holds t0 slot snap s \<Longrightarrow> holds t0 slot snap (retain now snap' s)"
  by (auto simp: holds_def retain_def split: option.split)

lemma holds_page:
  assumes "holds t0 slot snap s" and "t0 \<le> now" and "elapsed now t0 < retention"
  shows "holds t0 slot snap (snd (snapshot_page now sl after limit s))"
  using holds_pick [OF assms, of sl] assms(1)
  by (cases "pick_snapshot now sl s")
    (auto simp: snapshot_page_def Let_def holds_retain split: sum.split)

text \<open>What may happen between two pages of one client: anything but an invalidation.\<close>

fun op_within :: "instant \<Rightarrow> instant \<Rightarrow> store_op \<Rightarrow> bool" where
  "op_within t0 t (ReadPage now _ _ _) \<longleftrightarrow> t0 \<le> now \<and> now \<le> t"
| "op_within t0 t (Publish _ _ _) \<longleftrightarrow> True"
| "op_within t0 t Invalidate \<longleftrightarrow> False"

lemma holds_run_ops:
  assumes "holds t0 slot snap s" and "ready s" and "list_all (op_within t0 t) ops"
    and "elapsed t t0 < retention"
  shows "holds t0 slot snap (run_ops ops s) \<and> ready (run_ops ops s)"
  using assms
proof (induction ops arbitrary: s)
  case (Cons op ops)
  have "holds t0 slot snap (apply_op op s) \<and> ready (apply_op op s)"
  proof (cases op)
    case (Publish url sl accounts)
    with Cons.prems(1) show ?thesis by (simp add: holds_def)
  next
    case (ReadPage now sl after limit)
    with Cons.prems have "t0 \<le> now" and "elapsed now t0 < retention"
      by (auto simp: elapsed_def)
    with ReadPage Cons.prems(1,2) show ?thesis
      by (simp add: holds_page)
  qed (use Cons.prems in simp)
  with Cons show ?case by simp
qed simp

lemma page_at_cursor:
  assumes "holds t0 slot snap s" and "ready s" and "0 < limit" and "elapsed t t0 < retention"
  shows "\<exists>s'. snapshot_page t (Some slot) after limit s = (Inr (page_of snap after limit), s') \<and>
    ready s' \<and> holds t slot snap s'"
proof -
  from assms(1) obtain r where r: "retained s slot = Some r" "ret_snapshot r = snap" "t0 \<le> touched r"
    by (auto simp: holds_def)
  then have "retained (purge t s) slot = Some r"
    using assms(4) by (simp add: purge_retained elapsed_def)
  then show ?thesis
    using assms(2,3) r(2)
    by (auto simp: snapshot_page_def pick_snapshot_def Let_def holds_def
        intro!: holds_retain [unfolded holds_def])
qed

text \<open>
  A client that keeps asking for the next page. \<open>rounds\<close> lists, for each further request, what
  other threads did since the last one and when it arrives; \<open>None\<close> means an error, or that the
  client stopped before the last page.
\<close>

fun crawl :: "usize \<Rightarrow> (store_op list \<times> instant) list \<Rightarrow> u64 \<Rightarrow> key \<Rightarrow> store \<Rightarrow> account list option"
where
  "crawl limit [] slot k s = None"
| "crawl limit ((ops, t) # rounds) slot k s =
     (case snapshot_page t (Some slot) (Some k) limit (run_ops ops s) of
        (Inl e, s') \<Rightarrow> None
      | (Inr page, s') \<Rightarrow>
          (case page_next page of
             None \<Rightarrow> Some (page_accounts page)
           | Some k' \<Rightarrow>
               map_option (\<lambda>rest. page_accounts page @ rest)
                 (crawl limit rounds (page_slot page) k' s')))"

definition paged_listing ::
  "usize \<Rightarrow> instant \<Rightarrow> (store_op list \<times> instant) list \<Rightarrow> store \<Rightarrow> account list option" where
  "paged_listing limit t rounds s =
     (case snapshot_page t None None limit s of
        (Inl e, s') \<Rightarrow> None
      | (Inr page, s') \<Rightarrow>
          (case page_next page of
             None \<Rightarrow> Some (page_accounts page)
           | Some k \<Rightarrow>
               map_option (\<lambda>rest. page_accounts page @ rest)
                 (crawl limit rounds (page_slot page) k s')))"

text \<open>Each request comes less than 300 seconds after the one before.\<close>

fun timely :: "instant \<Rightarrow> (store_op list \<times> instant) list \<Rightarrow> bool" where
  "timely t0 [] \<longleftrightarrow> True"
| "timely t0 ((ops, t) # rounds) \<longleftrightarrow>
     list_all (op_within t0 t) ops \<and> elapsed t t0 < retention \<and> timely t rounds"

lemma crawl_complete:
  assumes "holds t0 slot snap s" and "ready s" and "snap_slot snap = slot"
    and "0 < limit" and "limit \<noteq> - 1" and "timely t0 rounds"
    and "length (om_after (Some k) (snap_accounts snap)) \<le> length rounds * unat limit"
    and "0 < length rounds"
  shows "crawl limit rounds slot k s = Some (map snd (om_after (Some k) (snap_accounts snap)))"
  using assms
proof (induction rounds arbitrary: t0 k s)
  case (Cons round rounds)
  obtain ops t where round: "round = (ops, t)" by (cases round)
  let ?s = "run_ops ops s" and ?page = "page_of snap (Some k) limit"
  have "holds t0 slot snap ?s" and "ready ?s"
    using Cons.prems round holds_run_ops [of t0 slot snap s t ops] by simp_all
  then obtain s' where page: "snapshot_page t (Some slot) (Some k) limit ?s = (Inr ?page, s')"
    and s': "ready s'" "holds t slot snap s'"
    using page_at_cursor [of t0 slot snap ?s limit t "Some k"] Cons.prems round by auto
  show ?case
  proof (cases "page_next ?page")
    case None
    then show ?thesis
      by (simp add: round page page_of_last Cons.prems(4,5))
  next
    case (Some k')
    note chain = page_of_chain [OF Cons.prems(4,5) Some]
    have len: "length (om_after (Some k) (snap_accounts snap)) =
        unat limit + length (om_after (Some k') (snap_accounts snap))"
      using arg_cong [OF chain(1), of length] chain(2) by simp
    have pos: "0 < length (om_after (Some k') (snap_accounts snap))"
      using Some len by (auto simp: page_of_next Cons.prems(4,5) split: if_splits)
    have "crawl limit rounds slot k' s' = Some (map snd (om_after (Some k') (snap_accounts snap)))"
    proof (rule Cons.IH [OF s'(2,1) Cons.prems(3-5)])
      show "timely t rounds" using Cons.prems(6) round by simp
      show "length (om_after (Some k') (snap_accounts snap)) \<le> length rounds * unat limit"
        using Cons.prems(7) len by simp
      then show "0 < length rounds"
        using pos by (cases rounds) simp_all
    qed
    with Some chain(1) show ?thesis
      by (simp add: round page Cons.prems(3))
  qed
qed simp

lemma first_page:
  assumes "store_inv s" and "ready s" and "0 < limit" and "t0 \<le> t"
    and "\<And>r. retained s (snap_slot (current s)) = Some r \<Longrightarrow> t0 \<le> touched r"
  shows "\<exists>s'. snapshot_page t None None limit s = (Inr (page_of (current s) None limit), s') \<and>
    (page_next (page_of (current s) None limit) \<noteq> None \<longrightarrow>
       ready s' \<and> holds t0 (snap_slot (current s)) (current s) s')"
proof (cases "retained s (snap_slot (current s))")
  case None
  with assms show ?thesis
    by (auto simp: snapshot_page_def pick_snapshot_def Let_def retain_def holds_def)
next
  case (Some r)
  with store_invD [OF assms(1)] have "ret_snapshot r = current s"
    by (auto simp: retained_ok_def)
  with Some assms show ?thesis
    by (auto simp: snapshot_page_def pick_snapshot_def Let_def retain_def holds_def)
qed

section \<open>Properties\<close>

definition sample_map :: "byte list \<Rightarrow> (key, account) omap" where
  "sample_map bs = om_of_list (map (\<lambda>b. (key_fill b, sample_account b)) bs)"

lemma om_items_sample_map:
  "om_items (sample_map bs) = fold (\<lambda>b. entry_insert (key_fill b) (sample_account b)) bs []"
proof -
  have "om_items (fold (\<lambda>b. om_insert (key_fill b) (sample_account b)) bs m) =
      fold (\<lambda>b. entry_insert (key_fill b) (sample_account b)) bs (om_items m)" for m
    by (induction bs arbitrary: m) simp_all
  from this [of om_empty] show ?thesis
    by (simp add: sample_map_def om_of_list_def fold_map o_def)
qed

text \<open>
  C34. Every operation keeps the invariant on retained snapshots as long as published slots do
  not go back: a retained entry is filed under its own slot, never ahead of the current one, and
  equal to the current snapshot when it has its slot.
\<close>

theorem retained_snapshots_consistent:
  assumes "forward_ops new_store ops" and "retained (run_ops ops new_store) slot = Some r"
  shows "retained_ok (run_ops ops new_store) slot r"
  using store_inv_run_ops [OF store_inv_new assms(1)] assms(2) by (rule store_invD)

definition sample_ops :: "store_op list" where
  "sample_ops = [Publish ''one'' 13 (sample_map [3, 1, 2]), ReadPage 5 None None 2]"

lemma sample_ops_retained:
  "retained (run_ops sample_ops new_store) 13 =
     Some \<lparr>ret_snapshot = \<lparr>snap_slot = 13, snap_accounts = sample_map [3, 1, 2]\<rparr>, touched = 5\<rparr>"
  by (simp add: sample_ops_def snapshot_page_def pick_snapshot_def page_of_def Let_def retain_def
      publish_def new_store_def om_items_sample_map)

lemma sample_ops_forward: "forward_ops new_store sample_ops"
  by (simp add: sample_ops_def new_store_def)

lemma retained_snapshots_consistent_witness:
  "retained_ok (run_ops sample_ops new_store) 13
     \<lparr>ret_snapshot = \<lparr>snap_slot = 13, snap_accounts = sample_map [3, 1, 2]\<rparr>, touched = 5\<rparr>"
  by (rule retained_snapshots_consistent [OF sample_ops_forward sample_ops_retained])

text \<open>
  C12. A client that follows cursors gets one snapshot's complete listing, in key order and with
  nothing missing or repeated, although other clients page and the updater publishes newer slots
  between its requests: it needs requests less than 300 seconds apart, enough of them, and no
  invalidation. \<open>t0\<close> is the first request's time \<open>t\<close>, or earlier when the slot had already been
  retained, since the first page does not renew an existing entry.
\<close>

theorem paging_lists_one_snapshot:
  assumes "store_inv s" and "ready s" and "0 < limit" and "limit \<noteq> - 1"
    and "t0 \<le> t" and "\<And>r. retained s (snap_slot (current s)) = Some r \<Longrightarrow> t0 \<le> touched r"
    and "timely t0 rounds"
    and "om_len (snap_accounts (current s)) \<le> (length rounds + 1) * unat limit"
  shows "paged_listing limit t rounds s = Some (om_values (snap_accounts (current s)))"
proof -
  let ?page = "page_of (current s) None limit"
  obtain s' where page: "snapshot_page t None None limit s = (Inr ?page, s')"
    and s': "page_next ?page \<noteq> None \<longrightarrow> ready s' \<and> holds t0 (snap_slot (current s)) (current s) s'"
    using first_page [OF assms(1-3,5,6)] by blast
  show ?thesis
  proof (cases "page_next ?page")
    case None
    then show ?thesis
      by (simp add: paged_listing_def page page_of_last assms(3,4) om_values_def)
  next
    case (Some k)
    note chain = page_of_chain [OF assms(3,4) Some]
    have len: "om_len (snap_accounts (current s)) =
        unat limit + length (om_after (Some k) (snap_accounts (current s)))"
      using arg_cong [OF chain(1), of length] chain(2) by (simp add: om_len_def)
    have pos: "unat limit < om_len (snap_accounts (current s))"
      using Some by (auto simp: page_of_next assms(3,4) om_len_def split: if_splits)
    have "crawl limit rounds (snap_slot (current s)) k s' =
        Some (map snd (om_after (Some k) (snap_accounts (current s))))"
    proof (rule crawl_complete [OF _ _ refl assms(3,4,7)])
      show "length (om_after (Some k) (snap_accounts (current s))) \<le> length rounds * unat limit"
        using assms(8) len by simp
      show "0 < length rounds"
        using assms(8) pos by (cases rounds) simp_all
    qed (use s' Some in simp_all)
    with Some chain(1) show ?thesis
      by (simp add: paged_listing_def page om_values_def)
  qed
qed

lemma paging_lists_one_snapshot_witness:
  "paged_listing 2 5 [([Publish ''one'' 14 (sample_map [9]), ReadPage 6 (Some 13) None 1], 7)]
     (publish ''one'' 13 (sample_map [3, 1, 2]) new_store) =
   Some [sample_account 1, sample_account 2, sample_account 3]"
proof -
  let ?s = "publish ''one'' 13 (sample_map [3, 1, 2]) new_store"
  have inv: "store_inv ?s"
    by (rule store_inv_publish [OF store_inv_new]) (simp_all add: new_store_def)
  have cur: "current ?s = \<lparr>snap_slot = 13, snap_accounts = sample_map [3, 1, 2]\<rparr>"
    by (simp add: current_publish new_store_def)
  show ?thesis
    using paging_lists_one_snapshot [OF inv, of 2 5 5
        "[([Publish ''one'' 14 (sample_map [9]), ReadPage 6 (Some 13) None 1], 7)]"]
    by (simp add: cur om_len_def om_values_def om_items_sample_map elapsed_def retention_def
        seconds_def) (simp add: new_store_def)
qed

fun is_publish :: "store_op \<Rightarrow> bool" where
  "is_publish (Publish _ _ _) = True"
| "is_publish _ = False"

lemma not_ready_run_ops:
  "\<not> ready s \<Longrightarrow> \<not> list_ex is_publish ops \<Longrightarrow> \<not> ready (run_ops ops s)"
proof (induction ops arbitrary: s)
  case (Cons op ops)
  then show ?case by (cases op) simp_all
qed simp

text \<open>
  Readiness gates every read: a store that is not ready answers neither a full read nor any
  page, and after an invalidation nothing but a publication makes it ready again.
\<close>

lemma invalidated_store_serves_nothing:
  assumes "\<not> list_ex is_publish ops" and "0 < limit"
  shows "read_snapshot (run_ops ops (invalidate s)) = Inl CacheNotReady \<and>
    fst (snapshot_page now sl after limit (run_ops ops (invalidate s))) = Inl CacheNotReady"
  using not_ready_run_ops [of "invalidate s" ops] assms
  by (simp add: read_snapshot_def snapshot_page_def)

text \<open>
  What a publication makes readers see: the store is ready, it names the new source, and it
  serves the given accounts at the given slot. The exception is a publication for the slot that
  is already current (and not 0), which keeps the accounts that slot was first published with.
\<close>

lemma publish_then_read:
  "read_snapshot (publish url slot accounts s) =
     Inr \<lparr>read_slot = slot,
          read_accounts = (if slot = snap_slot (current s) \<and> slot \<noteq> 0
                           then snap_accounts (current s) else accounts)\<rparr> \<and>
   health (publish url slot accounts s) =
     \<lparr>health_ready = True, health_active_url = Some url, health_confirmed_slot = slot,
      health_accounts =
        om_len (if slot = snap_slot (current s) \<and> slot \<noteq> 0
                then snap_accounts (current s) else accounts)\<rparr>"
  by (auto simp: read_snapshot_def health_def current_publish)

section \<open>Limits of the paging guarantee\<close>

text \<open>
  C38. A limit of paging: when the served slot goes back to \<open>slot'\<close> and comes again to a slot that
  still has a retained snapshot \<open>r\<close>, a listing of the new accounts that does not fit its first
  page continues in \<open>r\<close>, whatever accounts that has, because \<^verbatim>\<open>or_insert\<close> keeps the old entry.
\<close>

theorem regression_mixes_snapshots:
  assumes "retained s slot = Some r" and "slot' \<noteq> slot" and "0 < limit"
    and "page_next (page_of \<lparr>snap_slot = slot, snap_accounts = accs\<rparr> None limit) = Some k"
    and "elapsed t' (touched r) < retention"
  shows "let s0 = publish url slot accs (publish url' slot' accs' s) in
    current s0 = \<lparr>snap_slot = slot, snap_accounts = accs\<rparr> \<and>
    (\<exists>s1 s2.
      snapshot_page t None None limit s0 =
        (Inr (page_of \<lparr>snap_slot = slot, snap_accounts = accs\<rparr> None limit), s1) \<and>
      snapshot_page t' (Some slot) (Some k) limit s1 =
        (Inr (page_of (ret_snapshot r) (Some k) limit), s2))"
proof -
  let ?s0 = "publish url slot accs (publish url' slot' accs' s)"
  have s0: "current ?s0 = \<lparr>snap_slot = slot, snap_accounts = accs\<rparr>" "ready ?s0"
    "retained ?s0 slot = Some r"
    using assms(1,2) by (auto simp: current_publish publish_def)
  obtain s1 where first: "snapshot_page t None None limit ?s0 =
      (Inr (page_of \<lparr>snap_slot = slot, snap_accounts = accs\<rparr> None limit), s1)"
    and s1: "ready s1" "retained s1 slot = Some r"
    using assms(3,4) s0 by (auto simp: snapshot_page_def pick_snapshot_def Let_def retain_def)
  have "retained (purge t' s1) slot = Some r"
    using s1(2) assms(5) by (simp add: purge_retained)
  then have "\<exists>s2. snapshot_page t' (Some slot) (Some k) limit s1 =
      (Inr (page_of (ret_snapshot r) (Some k) limit), s2)"
    using assms(3) s1(1) by (auto simp: snapshot_page_def pick_snapshot_def Let_def)
  with s0(1) first show ?thesis by (auto simp: Let_def)
qed

lemma regression_mixes_snapshots_witness:
  "\<exists>s1 p q s2.
     snapshot_page 6 None None 2 (publish ''two'' 13 (sample_map [6, 7, 8])
       (publish ''two'' 12 (sample_map [5]) (run_ops sample_ops new_store))) = (Inr p, s1) \<and>
     page_accounts p = [sample_account 6, sample_account 7] \<and> page_next p = Some (key_fill 7) \<and>
     snapshot_page 7 (Some 13) (Some (key_fill 7)) 2 s1 = (Inr q, s2) \<and>
     page_accounts q = [] \<and> page_next q = None"
proof -
  let ?new = "\<lparr>snap_slot = 13, snap_accounts = sample_map [6, 7, 8]\<rparr>"
  let ?old = "\<lparr>snap_slot = 13, snap_accounts = sample_map [3, 1, 2]\<rparr>"
  have page: "page_accounts (page_of ?new None 2) = [sample_account 6, sample_account 7]"
    "page_next (page_of ?new None 2) = Some (key_fill 7)"
    "page_accounts (page_of ?old (Some (key_fill 7)) 2) = []"
    "page_next (page_of ?old (Some (key_fill 7)) 2) = None"
    by (simp_all add: page_of_def om_items_sample_map om_after_def)
  from regression_mixes_snapshots [OF sample_ops_retained _ _ page(2), of 12 7 "''two''" "''two''" "sample_map [5]" 6]
  obtain s1 s2 where
    "snapshot_page 6 None None 2 (publish ''two'' 13 (sample_map [6, 7, 8])
       (publish ''two'' 12 (sample_map [5]) (run_ops sample_ops new_store))) = (Inr (page_of ?new None 2), s1)"
    and "snapshot_page 7 (Some 13) (Some (key_fill 7)) 2 s1 = (Inr (page_of ?old (Some (key_fill 7)) 2), s2)"
    by (auto simp: Let_def elapsed_def retention_def seconds_def)
  with page show ?thesis by blast
qed

text \<open>
  A limit of paging: the first page of a listing does not renew an entry that is already
  retained, so its second page can find the snapshot expired although it comes right after.
\<close>

lemma first_page_does_not_renew:
  "\<exists>p s'. snapshot_page (seconds 300 + 4) None None 2 (run_ops sample_ops new_store) = (Inr p, s') \<and>
     page_next p = Some (key_fill 2) \<and>
     fst (snapshot_page (seconds 300 + 5) (Some (page_slot p)) (page_next p) 2 s') =
       Inl SnapshotExpired"
  by (simp add: sample_ops_def snapshot_page_def pick_snapshot_def page_of_def
      Let_def retain_def publish_def new_store_def om_items_sample_map om_after_def purge_def
      elapsed_def retention_def seconds_def)

end
