(* ===== verification/Replay.thy ===== *)
theory Replay
  imports State_Updater Paging
begin

text \<open>
  The state events of \<^verbatim>\<open>src/updater.rs\<close>, their application to the state updater
  (\<^verbatim>\<open>apply_state_event\<close>) and what a sequence of them amounts to: a refinement of the staging
  contract, with the store seeing exactly the confirmed states of a live updater and nothing of a
  recovering one.
\<close>

section \<open>Events\<close>

datatype state_event =
    AccountWrite key u64 u64 "account option"
  | ConfirmedSlot u64

fun apply_state_event :: "state_event \<Rightarrow> store \<times> state_updater \<Rightarrow> store \<times> state_updater" where
  "apply_state_event (AccountWrite key slot version acc) (s, u) =
     (s, snd (queue key slot version acc u))"
| "apply_state_event (ConfirmedSlot slot) (s, u) = snd (confirm slot (s, u))"

text \<open>\<^verbatim>\<open>while let Some(event) = buffered.pop_front() { apply_state_event(event, updater) }\<close>.\<close>

definition replay :: "state_event list \<Rightarrow> store \<times> state_updater \<Rightarrow> store \<times> state_updater" where
  "replay es su = fold apply_state_event es su"

lemma replay_simps [simp]:
  "replay [] su = su" "replay (e # es) su = replay es (apply_state_event e su)"
  by (simp_all add: replay_def)

lemma replay_append: "replay (es @ es') su = replay es' (replay es su)"
  by (simp add: replay_def)

fun as_staged :: "state_event \<Rightarrow> account staging_event" where
  "as_staged (AccountWrite k sl v a) =
     Write \<lparr>w_key = k, w_slot = sl, w_version = v, w_value = a\<rparr>"
| "as_staged (ConfirmedSlot sl) = Flush sl"

section \<open>The updater's half\<close>

lemma snd_apply_state_event: "snd (apply_state_event e su) = su.feed (as_staged e) (snd su)"
proof (cases su)
  case (Pair s u)
  then show ?thesis
    by (cases e) (simp_all add: su.feed_def stage_write_def snd_confirm)
qed

lemma snd_replay: "snd (replay es su) = fold su.feed (map as_staged es) (snd su)"
  by (induction es arbitrary: su) (simp_all add: snd_apply_state_event)

lemma om_of_list_om_items: "om_get (om_of_list (om_items m)) = om_get m"
  by simp

lemma from_fetched_simps [simp]:
  "bootstrap_slot (from_fetched_alt_state url f) = context_slot f"
  "confirmed_slot (from_fetched_alt_state url f) = context_slot f"
  "source_url (from_fetched_alt_state url f) = url"
  "accounts (from_fetched_alt_state url f) = fetched_accounts f"
  "pending (from_fetched_alt_state url f) = om_empty"
  "versions (from_fetched_alt_state url f) = Map.empty"
  "recovering (from_fetched_alt_state url f) = True"
  by (simp_all add: from_fetched_alt_state_def)

lemma view_from_fetched: "view s (from_fetched_alt_state url f) = om_get (fetched_accounts f)"
  by (simp add: view_def fun_eq_iff staged_for_def staged_def)

definition fetched_spec :: "fetched_alt_state \<Rightarrow> state_event list \<Rightarrow> account staging_spec" where
  "fetched_spec f es =
     spec_run (map as_staged es) (spec_init (context_slot f) (om_get (fetched_accounts f)))"

lemma replay_refines:
  "su.refines (snd (replay es (s, from_fetched_alt_state url f))) (fetched_spec f es)"
  unfolding snd_replay fetched_spec_def snd_conv
  by (rule su.refines_run)
    (use su.refines_init [of "from_fetched_alt_state url f"] in
      \<open>simp add: updater_inv_from_fetched view_from_fetched\<close>)

lemma replay_view:
  assumes "confirmed_slot (snd (replay es (st, from_fetched_alt_state url f))) \<le> s"
  shows "view s (snd (replay es (st, from_fetched_alt_state url f))) =
    latest (om_get (fetched_accounts f)) (spec_log (fetched_spec f es)) s"
  using replay_refines [of es st url f] assms
  by (simp add: su.refines_def fetched_spec_def spec_init_def)

lemma confirmed_slot_replay: "confirmed_slot (snd su) \<le> confirmed_slot (snd (replay es su))"
  unfolding snd_replay by (rule su.confirmed_run)

lemma frames_step:
  "recovering (su.feed e u) = recovering u" "source_url (su.feed e u) = source_url u"
  "bootstrap_slot (su.feed e u) = bootstrap_slot u"
  by (cases e; simp add: su.feed_def stage_write_def confirm_updater_def)+

lemma frames_replay [simp, frame_simps]:
  "recovering (snd (replay es su)) = recovering (snd su)"
  "source_url (snd (replay es su)) = source_url (snd su)"
  "bootstrap_slot (snd (replay es su)) = bootstrap_slot (snd su)"
  by (induction es arbitrary: su) (simp_all add: snd_apply_state_event frames_step)

text \<open>The confirmed slot is the largest one the updater was told of.\<close>

fun event_slot :: "state_event \<Rightarrow> u64" where
  "event_slot (ConfirmedSlot sl) = sl"
| "event_slot (AccountWrite _ _ _ _) = 0"

lemma confirmed_slot_step:
  "confirmed_slot (su.feed (as_staged e) u) = max (confirmed_slot u) (event_slot e)"
  by (cases e) (auto simp: su.feed_def stage_write_def confirm_updater_def max_def)

lemma confirmed_slot_replay_max:
  "confirmed_slot (snd (replay es su)) = fold max (map event_slot es) (confirmed_slot (snd su))"
  by (induction es arbitrary: su)
    (simp_all add: snd_apply_state_event confirmed_slot_step max.commute)

section \<open>The store's half\<close>

lemma apply_recovering:
  "recovering (snd su) \<Longrightarrow> fst (apply_state_event e su) = fst su"
  by (cases su; cases e) (auto simp: confirm_def Let_def)

lemma replay_recovering: "recovering (snd su) \<Longrightarrow> fst (replay es su) = fst su"
  by (induction es arbitrary: su)
    (simp_all add: apply_recovering snd_apply_state_event frames_step)

text \<open>The store shows what the updater holds.\<close>

definition synced :: "store \<times> state_updater \<Rightarrow> bool" where
  "synced su \<longleftrightarrow>
     ready (fst su) \<and> snap_slot (current (fst su)) = confirmed_slot (snd su) \<and>
     snap_accounts (current (fst su)) = accounts (snd su) \<and>
     active_yellowstone_url (fst su) = Some (source_url (snd su))"

lemma synced_apply:
  assumes "synced su" and "\<not> recovering (snd su)"
  shows "synced (apply_state_event e su)"
proof (cases su)
  case (Pair s u)
  with assms show ?thesis
    by (cases e) (auto simp: synced_def confirm_def Let_def current_publish)
qed

lemma synced_replay: "synced su \<Longrightarrow> \<not> recovering (snd su) \<Longrightarrow> synced (replay es su)"
  by (induction es arbitrary: su)
    (simp_all add: synced_apply snd_apply_state_event frames_step)

lemma finish_recovery_updater:
  "confirmed_slot (snd (finish_recovery su)) = confirmed_slot (snd su)"
  "recovering (snd (finish_recovery su)) = False"
  "om_get (accounts (snd (finish_recovery su))) = view (confirmed_slot (snd su)) (snd su)"
  "source_url (snd (finish_recovery su)) = source_url (snd su)"
  by (cases su; simp add: finish_recovery_def Let_def accounts_view)+

lemma finish_recovery_store:
  "fst (finish_recovery su) =
     publish (source_url (snd su)) (confirmed_slot (snd su)) (accounts (snd (finish_recovery su))) (fst su)"
  by (cases su) (simp add: finish_recovery_def Let_def)

lemma finish_recovery_synced:
  assumes "snap_slot (current (fst su)) \<noteq> confirmed_slot (snd su) \<or> confirmed_slot (snd su) = 0"
  shows "synced (finish_recovery su)"
  using assms
  by (auto simp: synced_def finish_recovery_store finish_recovery_updater current_publish)

section \<open>Properties\<close>

text \<open>
  C9. The state updater implements the staging contract: after any sequence of writes and
  confirmations on a fetched state, its confirmed slot and its account map are those of the
  abstract machine that keeps the log of accepted writes and, at each confirmation, shows every
  key's last accepted write up to the confirmed slot; and finishing a recovery shows the log at
  the confirmed slot.
\<close>

theorem updater_refines_staging:
  "let u = snd (replay es (st, from_fetched_alt_state url f)); sp = fetched_spec f es in
     confirmed_slot u = spec_confirmed sp \<and> om_get (accounts u) = spec_shown sp \<and>
     om_get (accounts (snd (finish_recovery (st, u)))) =
       latest (om_get (fetched_accounts f)) (spec_log sp) (spec_confirmed sp)"
  using replay_refines [of es st url f] replay_view [of es st url f]
  by (simp add: Let_def su.refines_def finish_recovery_updater)



definition sample_fetched :: fetched_alt_state where
  "sample_fetched = \<lparr>context_slot = 10, fetched_accounts = sample_map [1]\<rparr>"


text \<open>
  A state under construction is invisible: replaying any events into a freshly fetched state
  leaves the store as it was, so the served state stays until \<^verbatim>\<open>finish_recovery\<close>, which then
  publishes the confirmed slot and the whole replayed map in one step (unless that very slot is
  being served already).
\<close>

lemma recovery_publishes_once:
  "let su = replay es (st, from_fetched_alt_state url f); done = finish_recovery su in
     fst su = st \<and>
     (read_snapshot (fst done) =
       Inr \<lparr>read_slot = confirmed_slot (snd done),
            read_accounts = (if confirmed_slot (snd done) = snap_slot (current st) \<and>
                                confirmed_slot (snd done) \<noteq> 0
                             then snap_accounts (current st) else accounts (snd done))\<rparr>)"
  using replay_recovering [of "(st, from_fetched_alt_state url f)" es]
  by (auto simp: Let_def finish_recovery_store finish_recovery_updater read_snapshot_def
      current_publish)

text \<open>
  A live updater and the store never drift apart: once the store shows the updater's map,
  slot and source, it does so after every further write and confirmation, so readers always see
  one confirmed slot together with that slot's accounts.
\<close>

theorem live_store_in_step:
  assumes "synced (s, u)" and "\<not> recovering u"
  shows "read_snapshot (fst (replay es (s, u))) =
    Inr \<lparr>read_slot = confirmed_slot (snd (replay es (s, u))),
         read_accounts = accounts (snd (replay es (s, u)))\<rparr>"
  using synced_replay [of "(s, u)" es] assms
  by (simp add: synced_def read_snapshot_def)

lemma live_store_in_step_witness:
  "\<exists>s u. synced (s, u) \<and>
     read_snapshot (fst (replay [AccountWrite (key_fill 8) 10 1 (Some (sample_account 8)),
         ConfirmedSlot 11] (s, u))) =
       Inr \<lparr>read_slot = 11, read_accounts = accounts (snd (replay
         [AccountWrite (key_fill 8) 10 1 (Some (sample_account 8)), ConfirmedSlot 11] (s, u)))\<rparr>"
proof -
  define su where "su = finish_recovery (new_store, from_fetched_alt_state ''one'' sample_fetched)"
  obtain s u where su: "su = (s, u)" by (cases su)
  have "synced su" and "\<not> recovering (snd su)" and slot: "confirmed_slot (snd su) = 10"
    unfolding su_def by (rule finish_recovery_synced)
      (simp_all add: finish_recovery_updater sample_fetched_def new_store_def)
  then have "synced (s, u)" and "\<not> recovering u" by (simp_all add: su)
  from live_store_in_step [OF this, of "[AccountWrite (key_fill 8) 10 1 (Some (sample_account 8)),
      ConfirmedSlot 11]"] this(1) slot
  show ?thesis
    by (intro exI [of _ s] exI [of _ u])
      (simp add: confirmed_slot_replay_max su del: replay_simps)
qed

end
