(* ===== verification/Updater.thy ===== *)
theory Updater
  imports Replay
begin

text \<open>
  \<^verbatim>\<open>src/updater.rs\<close>, its parts: the events of the Yellowstone sources, the choice of the
  next source, the decoding of account updates, the background refresh with its buffer, and one
  handler for each branch of the \<^verbatim>\<open>select!\<close> loops. \<open>Service\<close> composes them into the loop.
\<close>

section \<open>Events of the sources\<close>

text \<open>\<^verbatim>\<open>yellowstone::Event\<close>; sources are numbered as in the configuration.\<close>

datatype event =
    Connected nat
  | Disconnected nat
  | AccountEvent nat account_update
  | ConfirmedEvent nat u64

fun event_source :: "event \<Rightarrow> nat" where
  "event_source (Connected source) = source"
| "event_source (Disconnected source) = source"
| "event_source (AccountEvent source update) = source"
| "event_source (ConfirmedEvent source slot) = source"

section \<open>Choosing a source\<close>

definition next_connected :: "nat \<Rightarrow> nat set \<Rightarrow> nat \<Rightarrow> nat option" where
  "next_connected active connected count =
     find (\<lambda>source. source \<in> connected) (map (\<lambda>offset. (active + offset) mod count) [1..<count + 1])"

record service =
  stream_capacity :: usize
  yellowstone_urls :: "string list"
  connected_sources :: "nat set"
  active_source :: nat

definition select_next_yellowstone :: "service \<Rightarrow> service" where
  "select_next_yellowstone svc =
     (case next_connected (active_source svc) (connected_sources svc)
             (length (yellowstone_urls svc)) of
        Some source \<Rightarrow> svc\<lparr>active_source := source\<rparr>
      | None \<Rightarrow> svc)"

text \<open>\<^verbatim>\<open>connected_sources.insert\<close> and \<^verbatim>\<open>remove\<close>.\<close>

definition mark_connected :: "nat \<Rightarrow> service \<Rightarrow> service" where
  "mark_connected source svc = svc\<lparr>connected_sources := insert source (connected_sources svc)\<rparr>"

definition mark_disconnected :: "nat \<Rightarrow> service \<Rightarrow> service" where
  "mark_disconnected source svc = svc\<lparr>connected_sources := connected_sources svc - {source}\<rparr>"

section \<open>Decoding account updates\<close>

text \<open>A drained, reassigned or undecodable account is a removal.\<close>

definition update_value :: "crates \<Rightarrow> account_info \<Rightarrow> key \<Rightarrow> account option" where
  "update_value c acc own =
     (if lamports acc = 0 \<or> own \<noteq> alt_program_id c then None
      else case from_yellowstone c acc of Inr a \<Rightarrow> Some a | Inl e \<Rightarrow> None)"

definition decode_account_update :: "crates \<Rightarrow> account_update \<Rightarrow> state_event result" where
  "decode_account_update c update =
     and_then (ok_or AccountBodyMissing (upd_account update)) (\<lambda>acc.
     and_then (ok_or InvalidAccountKey (key_of_bytes (pubkey acc))) (\<lambda>key.
     and_then (ok_or InvalidOwnerKey (key_of_bytes (owner acc))) (\<lambda>own.
       Inr (AccountWrite key (upd_slot update) (write_version acc) (update_value c acc own)))))"

section \<open>The background refresh\<close>

text \<open>
  The fetch task is outside; \<open>refresh_minimum\<close> is the \<^verbatim>\<open>minContextSlot\<close> it was started with.
\<close>

record refresh_in_progress =
  refresh_minimum :: u64
  buffered_events :: "state_event list"

definition refresh_start :: "u64 \<Rightarrow> refresh_in_progress" where
  "refresh_start minimum = \<lparr>refresh_minimum = minimum, buffered_events = []\<rparr>"

definition refresh_buffer ::
  "state_event \<Rightarrow> usize \<Rightarrow> refresh_in_progress \<Rightarrow> refresh_in_progress result" where
  "refresh_buffer ev capacity r =
     ensure (length (buffered_events r) < unat capacity) RefreshBufferFull
       (Inr (r\<lparr>buffered_events := buffered_events r @ [ev]\<rparr>))"

text \<open>An overflow drops the refresh, not the event: the live state has already taken it.\<close>

definition buffer_refresh_event ::
  "refresh_in_progress option \<Rightarrow> state_event \<Rightarrow> usize \<Rightarrow> refresh_in_progress option" where
  "buffer_refresh_event refresh ev capacity =
     (case refresh of
        None \<Rightarrow> None
      | Some r \<Rightarrow> (case refresh_buffer ev capacity r of Inl e \<Rightarrow> None | Inr r' \<Rightarrow> Some r'))"

text \<open>The refreshed state replaces the updater after the buffered events were replayed into it.\<close>

definition install_refreshed_alt_state ::
  "fetched_alt_state result \<Rightarrow> refresh_in_progress option \<Rightarrow> string \<Rightarrow> store \<times> state_updater \<Rightarrow>
   store \<times> state_updater \<times> refresh_in_progress option" where
  "install_refreshed_alt_state res refresh url su =
     (case refresh of
        None \<Rightarrow> (fst su, snd su, None)
      | Some completed \<Rightarrow>
          (case res of
             Inl e \<Rightarrow> (fst su, snd su, None)
           | Inr fetched \<Rightarrow>
               let (s', refreshed) =
                     finish_recovery
                       (replay (buffered_events completed)
                         (fst su, from_fetched_alt_state url fetched))
               in (s', refreshed, None)))"

section \<open>Waiting for a source\<close>

definition wait_entry :: "service \<Rightarrow> service" where
  "wait_entry svc =
     (if active_source svc \<notin> connected_sources svc then select_next_yellowstone svc else svc)"

fun wait_event :: "event \<Rightarrow> service \<Rightarrow> service" where
  "wait_event (Connected source) svc = (mark_connected source svc)\<lparr>active_source := source\<rparr>"
| "wait_event (Disconnected source) svc = mark_disconnected source svc"
| "wait_event (AccountEvent _ _) svc = svc"
| "wait_event (ConfirmedEvent _ _) svc = svc"

section \<open>Bootstrapping\<close>

text \<open>
  What one event does to \<^verbatim>\<open>bootstrap_alt_state\<close>: it goes on with a longer buffer, gives up
  (\<^verbatim>\<open>Ok(None)\<close>), or fails the whole service.
\<close>

datatype bootstrap_outcome =
    BootstrapContinue service "state_event list"
  | BootstrapGiveUp service
  | BootstrapFail error

definition bootstrap_buffer ::
  "service \<Rightarrow> state_event list \<Rightarrow> state_event \<Rightarrow> bootstrap_outcome" where
  "bootstrap_buffer svc buffered ev = BootstrapContinue svc (buffered @ [ev])"

fun bootstrap_event ::
  "crates \<Rightarrow> event \<Rightarrow> service \<Rightarrow> state_event list \<Rightarrow> bootstrap_outcome" where
  "bootstrap_event c (Connected source) svc buffered =
     BootstrapContinue (mark_connected source svc) buffered"
| "bootstrap_event c (Disconnected failed) svc buffered =
     (let svc' = mark_disconnected failed svc in
      if failed = active_source svc' then BootstrapGiveUp (select_next_yellowstone svc')
      else BootstrapContinue svc' buffered)"
| "bootstrap_event c (AccountEvent source update) svc buffered =
     (if source = active_source svc then
        (if length buffered < unat (stream_capacity svc) then
           (case decode_account_update c update of
              Inr ev \<Rightarrow> bootstrap_buffer svc buffered ev
            | Inl e \<Rightarrow> BootstrapGiveUp (select_next_yellowstone svc))
         else BootstrapFail BootstrapBufferFull)
      else BootstrapContinue svc buffered)"
| "bootstrap_event c (ConfirmedEvent source slot) svc buffered =
     (if source = active_source svc then
        (if length buffered < unat (stream_capacity svc)
         then bootstrap_buffer svc buffered (ConfirmedSlot slot)
         else BootstrapFail BootstrapBufferFull)
      else BootstrapContinue svc buffered)"

text \<open>The fetch succeeded: replay what was buffered and publish.\<close>

definition bootstrap_finish ::
  "string \<Rightarrow> state_event list \<Rightarrow> fetched_alt_state \<Rightarrow> store \<Rightarrow> store \<times> state_updater" where
  "bootstrap_finish url buffered fetched s =
     finish_recovery (replay buffered (s, from_fetched_alt_state url fetched))"

section \<open>Serving\<close>

datatype serve_outcome =
    ServeContinue service store state_updater "refresh_in_progress option"
  | ServeRestart service

text \<open>\<^verbatim>\<open>UpdaterEvent::RefreshDue\<close>.\<close>

definition serve_refresh_due ::
  "state_updater \<Rightarrow> refresh_in_progress option \<Rightarrow> refresh_in_progress option" where
  "serve_refresh_due u refresh =
     (if refresh = None then Some (refresh_start (confirmed_slot u)) else refresh)"

text \<open>An event of the active source: into the live state, then into the refresh's buffer.\<close>

definition serve_state_event ::
  "service \<Rightarrow> state_event \<Rightarrow> store \<times> state_updater \<Rightarrow> refresh_in_progress option \<Rightarrow> serve_outcome"
where
  "serve_state_event svc ev su refresh =
     (let (s', u') = apply_state_event ev su
      in ServeContinue svc s' u' (buffer_refresh_event refresh ev (stream_capacity svc)))"

fun serve_event ::
  "crates \<Rightarrow> event \<Rightarrow> service \<Rightarrow> store \<times> state_updater \<Rightarrow> refresh_in_progress option \<Rightarrow> serve_outcome"
where
  "serve_event c (Connected source) svc su refresh =
     ServeContinue (mark_connected source svc) (fst su) (snd su) refresh"
| "serve_event c (Disconnected failed) svc su refresh =
     (let svc' = mark_disconnected failed svc in
      if failed = active_source svc' then ServeRestart (select_next_yellowstone svc')
      else ServeContinue svc' (fst su) (snd su) refresh)"
| "serve_event c (AccountEvent source update) svc su refresh =
     (if source = active_source svc then
        (case decode_account_update c update of
           Inl e \<Rightarrow> ServeRestart (select_next_yellowstone svc)
         | Inr ev \<Rightarrow> serve_state_event svc ev su refresh)
      else ServeContinue svc (fst su) (snd su) refresh)"
| "serve_event c (ConfirmedEvent source slot) svc su refresh =
     (if source = active_source svc
      then serve_state_event svc (ConfirmedSlot slot) su refresh
      else ServeContinue svc (fst su) (snd su) refresh)"

section \<open>Facts about the parts\<close>

lemma mark_frames [simp, frame_simps]:
  "stream_capacity (mark_connected n svc) = stream_capacity svc"
  "yellowstone_urls (mark_connected n svc) = yellowstone_urls svc"
  "active_source (mark_connected n svc) = active_source svc"
  "connected_sources (mark_connected n svc) = insert n (connected_sources svc)"
  "stream_capacity (mark_disconnected n svc) = stream_capacity svc"
  "yellowstone_urls (mark_disconnected n svc) = yellowstone_urls svc"
  "active_source (mark_disconnected n svc) = active_source svc"
  "connected_sources (mark_disconnected n svc) = connected_sources svc - {n}"
  by (simp_all add: mark_connected_def mark_disconnected_def)

lemma select_next_frames [simp, frame_simps]:
  "stream_capacity (select_next_yellowstone svc) = stream_capacity svc"
  "yellowstone_urls (select_next_yellowstone svc) = yellowstone_urls svc"
  "connected_sources (select_next_yellowstone svc) = connected_sources svc"
  by (simp_all add: select_next_yellowstone_def split: option.split)

lemma find_SomeD: "find P xs = Some x \<Longrightarrow> x \<in> set xs \<and> P x"
  by (induction xs) (auto split: if_splits)

lemma next_connected_Some:
  assumes "next_connected active connected count = Some source"
  shows "source \<in> connected" and "source < count"
  using find_SomeD [OF assms [unfolded next_connected_def]] by auto

lemma rotation_reaches:
  assumes "s < count" and "active < (count :: nat)"
  shows "\<exists>offset \<in> {1..count}. (active + offset) mod count = s"
proof (cases "active < s")
  case True
  with assms show ?thesis by (intro bexI [of _ "s - active"]) auto
next
  case False
  with assms show ?thesis
    by (intro bexI [of _ "count - active + s"]) (auto simp: mod_if)
qed

lemma next_connected_None:
  assumes "active < count"
  shows "next_connected active connected count = None \<longleftrightarrow> connected \<inter> {..<count} = {}"
proof -
  have "next_connected active connected count = None \<longleftrightarrow>
      (\<forall>offset \<in> {1..count}. (active + offset) mod count \<notin> connected)"
    by (auto simp: next_connected_def find_None_iff)
  also have "\<dots> \<longleftrightarrow> connected \<inter> {..<count} = {}"
  proof -
    have "0 < count" using assms by simp
    then show ?thesis using rotation_reaches [OF _ assms] by force
  qed
  finally show ?thesis .
qed

lemma update_value_eq:
  assumes "owner acc = key_bytes own"
  shows "update_value c acc own =
    (if lamports acc \<noteq> 0 \<and> valid_account c (Account acc) then Some (Account acc) else None)"
proof (cases "from_yellowstone c acc")
  case (Inl e)
  then have "\<not> valid_account c (Account acc)"
    using from_yellowstone_ok [of c acc "Account acc"] by auto
  with Inl show ?thesis by (simp add: update_value_def)
next
  case (Inr a)
  then have "valid_account c (Account acc)" and "a = Account acc"
    by (simp_all add: from_yellowstone_ok)
  moreover from this have "own = alt_program_id c"
    using assms by (simp add: valid_account_def key_bytes_inject)
  ultimately show ?thesis using Inr by (simp add: update_value_def)
qed

lemma decode_ok:
  "decode_account_update c update = Inr ev \<longleftrightarrow>
     (\<exists>acc key own. upd_account update = Some acc \<and> pubkey acc = key_bytes key \<and>
        owner acc = key_bytes own \<and>
        ev = AccountWrite key (upd_slot update) (write_version acc) (update_value c acc own))"
  by (auto simp: decode_account_update_def result_ok key_of_bytes_eq_Some)

lemma buffer_refresh_event_Some:
  "buffer_refresh_event refresh ev cap = Some r \<longleftrightarrow>
     (\<exists>q. refresh = Some q \<and> length (buffered_events q) < unat cap \<and>
        r = q\<lparr>buffered_events := buffered_events q @ [ev]\<rparr>)"
  by (auto simp: buffer_refresh_event_def refresh_buffer_def ensure_def split: option.splits)

lemma find_append:
  "find P (xs @ ys) = (case find P xs of None \<Rightarrow> find P ys | Some x \<Rightarrow> Some x)"
  by (induction xs) auto

lemma find_map_upt:
  assumes "find P (map g [m..<n]) = Some s"
  shows "\<exists>d \<in> {m..<n}. s = g d \<and> P (g d) \<and> (\<forall>d' \<in> {m..<d}. \<not> P (g d'))"
  using assms
proof (induction n)
  case (Suc n)
  show ?case
  proof (cases "m \<le> n")
    case True
    show ?thesis
    proof (cases "find P (map g [m..<n])")
      case None
      then have none: "\<forall>d' \<in> {m..<n}. \<not> P (g d')" by (auto simp: find_None_iff)
      have "find P (map g [m..<n] @ [g n]) = Some s" using Suc.prems True by simp
      with None have "s = g n" and "P (g n)" by (auto simp: find_append split: if_splits)
      with none True show ?thesis by (intro bexI [of _ n]) auto
    next
      case (Some s')
      with Suc.prems True have "s' = s" by (simp add: find_append)
      with Suc.IH Some obtain d where "d \<in> {m..<n}" "s = g d" "P (g d)" "\<forall>d' \<in> {m..<d}. \<not> P (g d')"
        by auto
      then show ?thesis by (intro bexI [of _ d]) auto
    qed
  qed (use Suc.prems in simp)
qed simp

section \<open>Properties\<close>

text \<open>
  Failover takes the next connected source in cyclic order after the active one: none is
  found exactly when no source is connected; otherwise every source passed over on the way is
  disconnected, so the active one itself is kept only when it is the last one connected.
\<close>

lemma next_connected_rotation:
  assumes "active < count"
  shows "case next_connected active connected count of
      None \<Rightarrow> connected \<inter> {..<count} = {}
    | Some source \<Rightarrow> source \<in> connected \<and>
        (\<exists>d \<in> {1..count}. source = (active + d) mod count \<and>
           (\<forall>d' \<in> {1..<d}. (active + d') mod count \<notin> connected))"
proof (cases "next_connected active connected count")
  case None
  then have "connected \<inter> {..<count} = {}"
    using next_connected_None [OF assms] by simp
  with None show ?thesis by simp
next
  case (Some source)
  then have "\<exists>d \<in> {1..<count + 1}. source = (active + d) mod count \<and>
      (active + d) mod count \<in> connected \<and> (\<forall>d' \<in> {1..<d}. (active + d') mod count \<notin> connected)"
    unfolding next_connected_def by (rule find_map_upt)
  with Some show ?thesis by force
qed

text \<open>
  An update of an account decodes to a write stamped with its slot and write version: of the
  account itself when it is open and validates as a lookup table, of a removal when it is closed,
  belongs to another program or does not validate. Only a missing body or a key or owner of the
  wrong length is an error, in that order.
\<close>

lemma decode_classifies_updates:
  "decode_account_update c update =
    (case upd_account update of
       None \<Rightarrow> Inl AccountBodyMissing
     | Some acc \<Rightarrow>
         if length (pubkey acc) \<noteq> 32 then Inl InvalidAccountKey
         else if length (owner acc) \<noteq> 32 then Inl InvalidOwnerKey
         else Inr (AccountWrite (Abs_key (pubkey acc)) (upd_slot update) (write_version acc)
           (if lamports acc \<noteq> 0 \<and> valid_account c (Account acc) then Some (Account acc) else None)))"
  using update_value_eq
  by (auto simp: decode_account_update_def key_of_bytes_def Abs_key_inverse split: option.split)

section \<open>A sample update\<close>

definition sample_update :: "byte \<Rightarrow> u64 \<Rightarrow> account_update" where
  "sample_update b slot =
     \<lparr>upd_account = Some (account_value (sample_account b)), upd_slot = slot, upd_is_startup = False\<rparr>"

lemma decode_sample_update [simp]:
  "decode_account_update sample_crates (sample_update b slot) =
     Inr (AccountWrite (key_fill b) slot 5 (Some (sample_account b)))"
proof -
  have "key_of_bytes (replicate 32 x) = Some (key_fill x)" for x
    by (simp add: key_of_bytes_eq_Some)
  moreover have "update_value sample_crates (account_value (sample_account b)) (key_fill 7) =
      Some (sample_account b)"
    using update_value_eq [of "account_value (sample_account b)" "key_fill 7" sample_crates]
      valid_sample_account [of b] by (simp add: sample_account_def)
  ultimately show ?thesis
    by (simp add: decode_account_update_def sample_update_def) (simp add: sample_account_def)
qed

end
