(* ===== verification/Fetcher.thy ===== *)
theory Fetcher
  imports State_Updater
begin

text \<open>
  \<^verbatim>\<open>src/alt_state_fetcher.rs\<close>: the full listing of the program's accounts, read page by page
  from a JSON-RPC service. The service is a parameter: what it replies to the \<open>n\<close>-th call with a
  request, as the bytes that came back parse. A service can hand out fresh cursors for ever, so
  the loop takes fuel; a listing with finitely many cursors needs no more than one call per cursor
  and one for the last page. Timings and counters for the log are left out.
\<close>

section \<open>Requests and replies\<close>

definition page_size :: usize where
  "page_size = 10000"

record json_rpc_error =
  err_code :: i64
  err_message :: string

record 'a json_rpc_response =
  reply_result :: "'a option"
  reply_error :: "json_rpc_error option"

text \<open>
  The end of \<^verbatim>\<open>rpc\<close>: \<open>reply\<close> is the parsed body, or the error of the transport, of the
  HTTP status or of the parser.
\<close>

definition rpc :: "'a json_rpc_response result \<Rightarrow> 'a result" where
  "rpc reply =
     and_then reply (\<lambda>r.
       case reply_error r of
         Some e \<Rightarrow> Inl (RpcErrorReply (err_code e) (err_message e))
       | None \<Rightarrow> ok_or RpcResultMissing (reply_result r))"

record paged_accounts =
  pa_accounts :: "keyed_ui_account list"
  pa_pagination_key :: "string option"

record 'a context_response =
  ctx_slot :: u64
  ctx_value :: 'a

record accounts_request =
  req_commitment :: string
  req_encoding :: ui_account_encoding
  req_with_context :: bool
  req_limit :: usize
  req_min_context_slot :: "u64 option"
  req_pagination_key :: "string option"

type_synonym page_reply = "paged_accounts context_response json_rpc_response result"
type_synonym listing_service = "nat \<Rightarrow> accounts_request \<Rightarrow> page_reply"

definition page_request :: "u64 option \<Rightarrow> string option \<Rightarrow> accounts_request" where
  "page_request minimum cursor =
     \<lparr>req_commitment = ''confirmed'', req_encoding = Base64Zstd, req_with_context = True,
      req_limit = page_size, req_min_context_slot = minimum, req_pagination_key = cursor\<rparr>"

section \<open>The loop\<close>

record fetch_state =
  fs_context_slot :: "u64 option"
  fs_cursor :: "string option"
  fs_seen :: "string set"
  fs_accounts :: "(key, account) omap"

definition fetch_start :: fetch_state where
  "fetch_start =
     \<lparr>fs_context_slot = None, fs_cursor = None, fs_seen = {}, fs_accounts = om_empty\<rparr>"

text \<open>
  One entry: closed accounts and accounts that do not decode are skipped, a key that does not
  parse fails the whole fetch.
\<close>

definition fetch_entry ::
  "crates \<Rightarrow> keyed_ui_account \<Rightarrow> (key, account) omap \<Rightarrow> (key, account) omap result" where
  "fetch_entry c e accs =
     (if ui_lamports (kua_account e) = 0 then Inr accs
      else and_then (parse_key c (kua_pubkey e)) (\<lambda>k.
        case from_rpc c (kua_pubkey e) (kua_account e) of
          Inl _ \<Rightarrow> Inr accs
        | Inr a \<Rightarrow> Inr (om_insert k a accs)))"

fun fetch_entries ::
  "crates \<Rightarrow> keyed_ui_account list \<Rightarrow> (key, account) omap \<Rightarrow> (key, account) omap result" where
  "fetch_entries c [] accs = Inr accs"
| "fetch_entries c (e # es) accs = and_then (fetch_entry c e accs) (fetch_entries c es)"

datatype fetch_progress = FetchMore fetch_state | FetchDone fetch_state

text \<open>One round of the loop, after the reply was parsed.\<close>

definition fetch_page ::
  "crates \<Rightarrow> u64 option \<Rightarrow> fetch_state \<Rightarrow> paged_accounts context_response \<Rightarrow> fetch_progress result"
where
  "fetch_page c minimum st response =
     (let slot = ctx_slot response;
          first_slot = (case fs_context_slot st of None \<Rightarrow> slot | Some s \<Rightarrow> s);
          page = ctx_value response
      in ensure (case minimum of None \<Rightarrow> True | Some m \<Rightarrow> m \<le> slot)
           (RpcSlotBelowMinimum slot (the minimum))
        (ensure (first_slot \<le> slot) (RpcContextRegressed first_slot slot)
          (and_then (fetch_entries c (pa_accounts page) (fs_accounts st)) (\<lambda>accs.
            let st' = st\<lparr>fs_context_slot := Some first_slot, fs_accounts := accs\<rparr> in
            case pa_pagination_key page of
              None \<Rightarrow> Inr (FetchDone st')
            | Some k \<Rightarrow>
                ensure (k \<notin> fs_seen st) RpcRepeatedCursor
                  (Inr (FetchMore (st'\<lparr>fs_seen := insert k (fs_seen st), fs_cursor := Some k\<rparr>)))))))"

definition fetch_finish :: "fetch_state \<Rightarrow> fetched_alt_state result" where
  "fetch_finish st =
     and_then (ok_or RpcContextMissing (fs_context_slot st)) (\<lambda>slot.
       Inr \<lparr>context_slot = slot, fetched_accounts = fs_accounts st\<rparr>)"

fun fetch_loop ::
  "crates \<Rightarrow> listing_service \<Rightarrow> u64 option \<Rightarrow> nat \<Rightarrow> nat \<Rightarrow> fetch_state \<Rightarrow>
   fetched_alt_state result option" where
  "fetch_loop c srv minimum 0 n st = None"
| "fetch_loop c srv minimum (Suc fuel) n st =
     (case and_then (rpc (srv n (page_request minimum (fs_cursor st)))) (fetch_page c minimum st) of
        Inl e \<Rightarrow> Some (Inl e)
      | Inr (FetchDone st') \<Rightarrow> Some (fetch_finish st')
      | Inr (FetchMore st') \<Rightarrow> fetch_loop c srv minimum fuel (Suc n) st')"

definition fetch_full_alt_state ::
  "crates \<Rightarrow> listing_service \<Rightarrow> u64 option \<Rightarrow> nat \<Rightarrow> fetched_alt_state result option" where
  "fetch_full_alt_state c srv minimum fuel = fetch_loop c srv minimum fuel 0 fetch_start"

section \<open>What a listing amounts to\<close>

definition entry_of :: "crates \<Rightarrow> keyed_ui_account \<Rightarrow> (key \<times> account) list" where
  "entry_of c e =
     (case parse_key c (kua_pubkey e) of
        Inl _ \<Rightarrow> []
      | Inr k \<Rightarrow>
          if ui_lamports (kua_account e) = 0 then []
          else (case from_rpc c (kua_pubkey e) (kua_account e) of Inl _ \<Rightarrow> [] | Inr a \<Rightarrow> [(k, a)]))"

definition listing :: "crates \<Rightarrow> keyed_ui_account list \<Rightarrow> (key, account) omap" where
  "listing c es = om_of_list (concat (map (entry_of c) es))"

lemma om_of_list_append: "om_of_list (xs @ ys) = fold (\<lambda>(k, v). om_insert k v) ys (om_of_list xs)"
  by (simp add: om_of_list_def)

lemma fetch_entry_listing:
  "fetch_entry c e accs = Inr accs' \<Longrightarrow> accs' = fold (\<lambda>(k, v). om_insert k v) (entry_of c e) accs"
  by (cases "parse_key c (kua_pubkey e)"; cases "from_rpc c (kua_pubkey e) (kua_account e)")
    (auto simp: fetch_entry_def entry_of_def split: if_splits)

lemma fetch_entries_listing:
  "fetch_entries c es (listing c ds) = Inr accs \<Longrightarrow> accs = listing c (ds @ es)"
proof (induction es arbitrary: ds)
  case (Cons e es)
  then obtain mid where mid: "fetch_entry c e (listing c ds) = Inr mid"
    and rest: "fetch_entries c es mid = Inr accs"
    by (auto simp: result_ok)
  have "mid = listing c (ds @ [e])"
    using fetch_entry_listing [OF mid] by (simp add: listing_def om_of_list_append)
  with Cons.IH [of "ds @ [e]"] rest show ?case by simp
qed simp

lemma fetch_page_Inr:
  "fetch_page c minimum st resp = Inr p \<longleftrightarrow>
     (\<exists>accs. (\<forall>m. minimum = Some m \<longrightarrow> m \<le> ctx_slot resp) \<and>
        (\<forall>s. fs_context_slot st = Some s \<longrightarrow> s \<le> ctx_slot resp) \<and>
        fetch_entries c (pa_accounts (ctx_value resp)) (fs_accounts st) = Inr accs \<and>
        (let st' = st\<lparr>fs_context_slot :=
                 Some (case fs_context_slot st of None \<Rightarrow> ctx_slot resp | Some s \<Rightarrow> s),
               fs_accounts := accs\<rparr> in
         case pa_pagination_key (ctx_value resp) of
           None \<Rightarrow> p = FetchDone st'
         | Some k \<Rightarrow> k \<notin> fs_seen st \<and>
             p = FetchMore (st'\<lparr>fs_seen := insert k (fs_seen st), fs_cursor := Some k\<rparr>)))"
  by (auto simp: fetch_page_def Let_def result_ok split: option.splits)

text \<open>The replies read so far, and the state they leave.\<close>

definition page_cursor :: "paged_accounts context_response \<Rightarrow> string option" where
  "page_cursor p = pa_pagination_key (ctx_value p)"

definition page_entries :: "paged_accounts context_response list \<Rightarrow> keyed_ui_account list" where
  "page_entries ps = concat (map (\<lambda>p. pa_accounts (ctx_value p)) ps)"

definition last_cursor :: "paged_accounts context_response list \<Rightarrow> string option" where
  "last_cursor ps = (if ps = [] then None else page_cursor (last ps))"

text \<open>
  \<open>pages_read c srv minimum ps\<close>: the service's replies to the calls \<open>0, 1, ...\<close>, each with the
  cursor of the reply before it, were \<open>ps\<close>.
\<close>

definition pages_read ::
  "listing_service \<Rightarrow> u64 option \<Rightarrow> paged_accounts context_response list \<Rightarrow> bool" where
  "pages_read srv minimum ps \<longleftrightarrow>
     (\<forall>i < length ps. rpc (srv i (page_request minimum (last_cursor (take i ps)))) = Inr (ps ! i))"

definition slots_ok :: "u64 option \<Rightarrow> paged_accounts context_response list \<Rightarrow> bool" where
  "slots_ok minimum ps \<longleftrightarrow>
     (\<forall>p \<in> set ps. ctx_slot (hd ps) \<le> ctx_slot p \<and> (\<forall>m. minimum = Some m \<longrightarrow> m \<le> ctx_slot p))"

definition fetch_inv ::
  "crates \<Rightarrow> listing_service \<Rightarrow> u64 option \<Rightarrow> paged_accounts context_response list \<Rightarrow>
   fetch_state \<Rightarrow> bool" where
  "fetch_inv c srv minimum ps st \<longleftrightarrow>
     pages_read srv minimum ps \<and> slots_ok minimum ps \<and>
     fs_context_slot st = (if ps = [] then None else Some (ctx_slot (hd ps))) \<and>
     fs_cursor st = last_cursor ps \<and>
     None \<notin> page_cursor ` set ps \<and>
     Some ` fs_seen st = page_cursor ` set ps \<and>
     distinct (map page_cursor ps) \<and>
     fs_accounts st = listing c (page_entries ps)"

lemma pages_read_snoc:
  "pages_read srv minimum (ps @ [p]) \<longleftrightarrow>
     pages_read srv minimum ps \<and>
     rpc (srv (length ps) (page_request minimum (last_cursor ps))) = Inr p"
  by (auto simp: pages_read_def nth_append less_Suc_eq)

lemma slots_ok_snoc:
  "slots_ok minimum (ps @ [p]) \<longleftrightarrow>
     slots_ok minimum ps \<and> (ps \<noteq> [] \<longrightarrow> ctx_slot (hd ps) \<le> ctx_slot p) \<and>
     (\<forall>m. minimum = Some m \<longrightarrow> m \<le> ctx_slot p)"
  by (cases ps) (auto simp: slots_ok_def)

lemma page_entries_snoc [simp]:
  "page_entries (ps @ [p]) = page_entries ps @ pa_accounts (ctx_value p)"
  by (simp add: page_entries_def)

lemma last_cursor_snoc [simp]: "last_cursor (ps @ [p]) = page_cursor p"
  by (simp add: last_cursor_def)

lemma fetch_inv_start [simp]: "fetch_inv c srv minimum [] fetch_start"
  by (simp add: fetch_inv_def pages_read_def slots_ok_def fetch_start_def last_cursor_def
      page_entries_def listing_def om_of_list_def)

lemma fetch_inv_reply:
  assumes "fetch_inv c srv minimum ps st"
    and "rpc (srv (length ps) (page_request minimum (fs_cursor st))) = Inr resp"
    and "fetch_page c minimum st resp = Inr p"
  shows "pages_read srv minimum (ps @ [resp]) \<and> slots_ok minimum (ps @ [resp])"
  using assms unfolding pages_read_snoc slots_ok_snoc
  by (cases "ps = []") (auto simp: fetch_inv_def fetch_page_Inr)

lemma fetch_inv_accounts:
  assumes "fetch_inv c srv minimum ps st"
    and "fetch_entries c (pa_accounts (ctx_value resp)) (fs_accounts st) = Inr accs"
  shows "accs = listing c (page_entries (ps @ [resp]))"
  using assms fetch_entries_listing by (simp add: fetch_inv_def)

lemma fetch_more:
  assumes inv: "fetch_inv c srv minimum ps st"
    and reply: "rpc (srv (length ps) (page_request minimum (fs_cursor st))) = Inr resp"
    and page: "fetch_page c minimum st resp = Inr (FetchMore st')"
  shows "fetch_inv c srv minimum (ps @ [resp]) st'"
proof -
  from page obtain accs k where accs:
      "fetch_entries c (pa_accounts (ctx_value resp)) (fs_accounts st) = Inr accs"
    and k: "page_cursor resp = Some k" "k \<notin> fs_seen st"
    and st': "fs_seen st' = insert k (fs_seen st)" "fs_cursor st' = Some k" "fs_accounts st' = accs"
      "fs_context_slot st' =
         Some (case fs_context_slot st of None \<Rightarrow> ctx_slot resp | Some s \<Rightarrow> s)"
    by (auto simp: fetch_page_Inr page_cursor_def Let_def split: option.splits)
  have "Some ` fs_seen st = page_cursor ` set ps"
    using inv by (simp add: fetch_inv_def)
  then have "Some k \<notin> page_cursor ` set ps"
    using k(2) by (blast dest: equalityD2 [THEN subsetD])
  then show ?thesis
    using inv fetch_inv_reply [OF assms] fetch_inv_accounts [OF inv accs]
    by (cases "ps = []") (auto simp: fetch_inv_def last_cursor_def k st')
qed

definition fetch_success ::
  "crates \<Rightarrow> listing_service \<Rightarrow> u64 option \<Rightarrow> paged_accounts context_response list \<Rightarrow>
   fetched_alt_state \<Rightarrow> bool" where
  "fetch_success c srv minimum ps f \<longleftrightarrow>
     ps \<noteq> [] \<and> pages_read srv minimum ps \<and> slots_ok minimum ps \<and>
     last_cursor ps = None \<and> distinct (map page_cursor ps) \<and>
     f = \<lparr>context_slot = ctx_slot (hd ps), fetched_accounts = listing c (page_entries ps)\<rparr>"

lemma fetch_done:
  assumes inv: "fetch_inv c srv minimum ps st"
    and reply: "rpc (srv (length ps) (page_request minimum (fs_cursor st))) = Inr resp"
    and page: "fetch_page c minimum st resp = Inr (FetchDone st')"
  shows "\<exists>f. fetch_finish st' = Inr f \<and> fetch_success c srv minimum (ps @ [resp]) f"
proof -
  from page obtain accs where accs:
      "fetch_entries c (pa_accounts (ctx_value resp)) (fs_accounts st) = Inr accs"
    and last: "page_cursor resp = None"
    and st': "fs_accounts st' = accs"
      "fs_context_slot st' =
         Some (case fs_context_slot st of None \<Rightarrow> ctx_slot resp | Some s \<Rightarrow> s)"
    by (auto simp: fetch_page_Inr page_cursor_def Let_def split: option.splits)
  show ?thesis
    using inv fetch_inv_reply [OF assms] fetch_inv_accounts [OF inv accs]
    by (cases "ps = []")
      (auto simp: fetch_inv_def fetch_success_def fetch_finish_def last_cursor_def last st')
qed

lemma fetch_loop_ok:
  assumes "fetch_loop c srv minimum fuel (length ps) st = Some (Inr f)"
    and "fetch_inv c srv minimum ps st"
  shows "\<exists>qs. fetch_success c srv minimum qs f"
  using assms
proof (induction fuel arbitrary: ps st)
  case (Suc fuel)
  then obtain resp where resp:
      "rpc (srv (length ps) (page_request minimum (fs_cursor st))) = Inr resp"
    by (auto simp: and_then_def split: sum.splits)
  show ?case
  proof (cases "fetch_page c minimum st resp")
    case (Inl e)
    with Suc.prems(1) resp show ?thesis by simp
  next
    case (Inr p)
    show ?thesis
    proof (cases p)
      case (FetchMore st')
      with Suc.prems(1) resp Inr
      have "fetch_loop c srv minimum fuel (length (ps @ [resp])) st' = Some (Inr f)" by simp
      moreover have "fetch_inv c srv minimum (ps @ [resp]) st'"
        using fetch_more Suc.prems(2) resp Inr FetchMore by blast
      ultimately show ?thesis by (rule Suc.IH)
    next
      case (FetchDone st')
      with Suc.prems(1) resp Inr have "fetch_finish st' = Inr f" by simp
      moreover have "\<exists>g. fetch_finish st' = Inr g \<and> fetch_success c srv minimum (ps @ [resp]) g"
        by (rule fetch_done [OF Suc.prems(2) resp Inr [unfolded FetchDone]])
      ultimately show ?thesis by auto
    qed
  qed
qed simp

lemma fetch_ok:
  "fetch_full_alt_state c srv minimum fuel = Some (Inr f) \<Longrightarrow> \<exists>ps. fetch_success c srv minimum ps f"
  using fetch_loop_ok [of c srv minimum fuel "[]" fetch_start f]
  by (simp add: fetch_full_alt_state_def)

text \<open>A fetch never reports the internal error \<open>RpcContextMissing\<close> at its end.\<close>

lemma fetch_loop_returns:
  assumes "finite S" and "fs_seen st \<subseteq> S" and "card (S - fs_seen st) < fuel"
    and "\<And>n req p k. rpc (srv n req) = Inr p \<Longrightarrow> page_cursor p = Some k \<Longrightarrow> k \<in> S"
  shows "\<exists>r. fetch_loop c srv minimum fuel n st = Some r"
  using assms(2,3)
proof (induction fuel arbitrary: n st)
  case (Suc fuel)
  show ?case
  proof (cases "and_then (rpc (srv n (page_request minimum (fs_cursor st)))) (fetch_page c minimum st)")
    case (Inl e)
    then show ?thesis by simp
  next
    case (Inr p)
    show ?thesis
    proof (cases p)
      case (FetchMore st')
      from Inr FetchMore obtain resp k where
        "rpc (srv n (page_request minimum (fs_cursor st))) = Inr resp"
        and "page_cursor resp = Some k" and new: "k \<notin> fs_seen st"
        and seen: "fs_seen st' = insert k (fs_seen st)"
        by (auto simp: and_then_eq_Inr fetch_page_Inr page_cursor_def Let_def split: option.splits)
      with assms(4) have "k \<in> S" by blast
      then have "card (S - fs_seen st') < card (S - fs_seen st)"
        using assms(1) new by (intro psubset_card_mono) (auto simp: seen)
      with \<open>k \<in> S\<close> Suc.prems have "\<exists>r. fetch_loop c srv minimum fuel (Suc n) st' = Some r"
        by (intro Suc.IH) (simp_all add: seen)
      with Inr FetchMore show ?thesis by simp
    next
      case (FetchDone st')
      with Inr show ?thesis by simp
    qed
  qed
qed simp

lemma fetch_loop_more_fuel:
  "fetch_loop c srv minimum fuel n st = Some r \<Longrightarrow> fetch_loop c srv minimum (fuel + k) n st = Some r"
  by (induction fuel arbitrary: n st) (auto split: sum.splits fetch_progress.splits)

section \<open>Results of a fetch\<close>

text \<open>
  A result a fetch can give the updater: what the loop returns against some service, or the error
  of a task that panicked (\<^verbatim>\<open>background refresh task failed\<close>).
\<close>

definition fetch_result :: "crates \<Rightarrow> u64 option \<Rightarrow> fetched_alt_state result \<Rightarrow> bool" where
  "fetch_result c minimum res \<longleftrightarrow>
     res = Inl RefreshTaskFailed \<or>
     (\<exists>srv fuel. fetch_full_alt_state c srv minimum fuel = Some res)"

lemma fetch_result_minimum:
  assumes "fetch_result c (Some m) (Inr f)"
  shows "m \<le> context_slot f"
proof -
  from assms obtain ps srv where "fetch_success c srv (Some m) ps f"
    by (auto simp: fetch_result_def dest: fetch_ok)
  then show ?thesis by (cases ps) (auto simp: fetch_success_def slots_ok_def)
qed

lemma listing_valid:
  "om_get (listing c es) k = Some a \<Longrightarrow> valid_account c a \<and> pubkey (account_value a) = key_bytes k"
proof -
  assume "om_get (listing c es) k = Some a"
  then have "(k, a) \<in> set (concat (map (entry_of c) es))"
    unfolding listing_def om_get_of_list by (auto dest: map_of_SomeD)
  then obtain e where "(k, a) \<in> set (entry_of c e)" by auto
  then show ?thesis
    by (cases "parse_key c (kua_pubkey e)"; cases "from_rpc c (kua_pubkey e) (kua_account e)")
      (auto simp: entry_of_def from_rpc_valid from_rpc_pubkey split: if_splits)
qed

section \<open>A sample service\<close>

definition sample_entry :: "byte \<Rightarrow> keyed_ui_account" where
  "sample_entry b =
     \<lparr>kua_pubkey = text_of_bytes (replicate 32 b),
      kua_account = \<lparr>ui_lamports = 1, ui_data = Binary (text_of_bytes [b]) Base64,
        ui_owner = text_of_bytes (replicate 32 7), ui_executable = False, ui_rent_epoch = 0,
        ui_space = None\<rparr>\<rparr>"

text \<open>Two pages, the second at a later slot.\<close>

definition sample_service :: listing_service where
  "sample_service n req =
     Inr \<lparr>reply_result = Some (
            if req_pagination_key req = None
            then \<lparr>ctx_slot = 6, ctx_value =
                   \<lparr>pa_accounts = [sample_entry 1], pa_pagination_key = Some ''a''\<rparr>\<rparr>
            else \<lparr>ctx_slot = 7, ctx_value =
                   \<lparr>pa_accounts = [sample_entry 2], pa_pagination_key = None\<rparr>\<rparr>),
          reply_error = None\<rparr>"

lemma parse_key_sample [simp]:
  "parse_key sample_crates (text_of_bytes (replicate 32 b)) = Inr (key_fill b)"
  using parse_key_encode [of sample_crates "key_fill b"] by simp

lemma fetch_entry_sample [simp]:
  "\<exists>a. fetch_entry sample_crates (sample_entry b) accs = Inr (om_insert (key_fill b) a accs)"
  by (auto simp: fetch_entry_def sample_entry_def from_rpc_def from_yellowstone_def)

lemma fetch_sample:
  "\<exists>f. fetch_full_alt_state sample_crates sample_service (Some 5) (Suc (Suc 0)) = Some (Inr f)"
proof -
  obtain a where a: "fetch_entry sample_crates (sample_entry 1) om_empty =
      Inr (om_insert (key_fill 1) a om_empty)"
    using fetch_entry_sample by blast
  obtain b where b: "fetch_entry sample_crates (sample_entry 2) (om_insert (key_fill 1) a om_empty) =
      Inr (om_insert (key_fill 2) b (om_insert (key_fill 1) a om_empty))"
    using fetch_entry_sample by blast
  show ?thesis
    by (simp add: fetch_full_alt_state_def sample_service_def page_request_def rpc_def
        fetch_page_def fetch_start_def fetch_finish_def Let_def a b)
qed

section \<open>Properties\<close>

text \<open>
  C25. A fetch that succeeds has read the service's whole listing, from the first page along the
  cursors to a page without one, never following a cursor twice. Its slot is the first reply's,
  no reply was older than that or than the required minimum, and its accounts are exactly the
  decodable open accounts of all the pages, a later entry for a key replacing an earlier one.
\<close>

theorem fetch_reads_whole_listing:
  assumes "fetch_full_alt_state c srv minimum fuel = Some (Inr f)"
  shows "\<exists>ps. ps \<noteq> [] \<and> pages_read srv minimum ps \<and> last_cursor ps = None \<and>
    distinct (map page_cursor ps) \<and> context_slot f = ctx_slot (hd ps) \<and> slots_ok minimum ps \<and>
    fetched_accounts f = listing c (page_entries ps)"
  using fetch_ok [OF assms] by (auto simp: fetch_success_def)

lemma fetch_reads_whole_listing_witness:
  "\<exists>f ps. fetch_full_alt_state sample_crates sample_service (Some 5) (Suc (Suc 0)) = Some (Inr f) \<and>
     ps \<noteq> [] \<and> pages_read sample_service (Some 5) ps \<and> last_cursor ps = None \<and>
     context_slot f = ctx_slot (hd ps) \<and>
     fetched_accounts f = listing sample_crates (page_entries ps)"
proof -
  obtain f where "fetch_full_alt_state sample_crates sample_service (Some 5) (Suc (Suc 0)) = Some (Inr f)"
    using fetch_sample by blast
  from this fetch_reads_whole_listing [OF this] show ?thesis by blast
qed

text \<open>
  C29. A fetch returns when the service has only finitely many cursors, however it repeats or
  reorders them: one call more than there are cursors is enough, since following one twice is an
  error.
\<close>

theorem fetch_terminates:
  assumes "finite S" and "card S < fuel"
    and "\<And>n req p k. rpc (srv n req) = Inr p \<Longrightarrow> page_cursor p = Some k \<Longrightarrow> k \<in> S"
  shows "\<exists>r. fetch_full_alt_state c srv minimum fuel = Some r"
  unfolding fetch_full_alt_state_def
  by (rule fetch_loop_returns [OF assms(1) _ _ assms(3)])
    (use assms(2) in \<open>simp_all add: fetch_start_def\<close>)

text \<open>A service that hands out the same cursor for ever.\<close>

lemma fetch_terminates_witness:
  "\<exists>r. fetch_full_alt_state sample_crates
     (\<lambda>n req. Inr \<lparr>reply_result = Some \<lparr>ctx_slot = of_nat n, ctx_value =
          \<lparr>pa_accounts = [], pa_pagination_key = Some ''a''\<rparr>\<rparr>, reply_error = None\<rparr>) None 2 = Some r"
  by (rule fetch_terminates [of "{''a''}"]) (auto simp: rpc_def page_cursor_def)

end
