(* ===== verification/Service.thy ===== *)
theory Service
  imports Updater Fetcher
begin

text \<open>
  \<^verbatim>\<open>UpdaterService::run\<close> of \<^verbatim>\<open>src/updater.rs\<close> as a state machine: a phase for each
  place the task can wait in, a rule for each branch of its \<^verbatim>\<open>select!\<close> statements. The
  scheduler's choice between ready branches, the fetched states, the events and the reading
  clients are the relation's nondeterminism.
\<close>

section \<open>State\<close>

datatype phase =
    WaitingForSource
  | Bootstrapping string "state_event list"
  | RetryPause
  | Serving string state_updater "refresh_in_progress option"
  | Stopped
  | Failed error

record machine =
  m_service :: service
  m_store :: store
  m_phase :: phase
  m_stop :: bool

section \<open>Moves between the phases\<close>

text \<open>After the loop: \<^verbatim>\<open>updater.invalidate(); Ok(())\<close>.\<close>

definition shutdown :: "machine \<Rightarrow> machine" where
  "shutdown m = m\<lparr>m_store := invalidate (m_store m), m_phase := Stopped\<rparr>"

text \<open>
  The guard of the waiting loop. With a connected active source the bootstrap begins and reads
  the source's URL, an index that would panic out of range.
\<close>

definition enter :: "machine \<Rightarrow> machine" where
  "enter m =
     (let svc = m_service m in
      if active_source svc \<in> connected_sources svc then
        (if active_source svc < length (yellowstone_urls svc)
         then m\<lparr>m_phase := Bootstrapping (yellowstone_urls svc ! active_source svc) []\<rparr>
         else m\<lparr>m_phase := Failed IndexPanic\<rparr>)
      else m\<lparr>m_phase := WaitingForSource\<rparr>)"

text \<open>The top of the loop in \<^verbatim>\<open>run\<close>.\<close>

definition loop_top :: "machine \<Rightarrow> machine" where
  "loop_top m =
     enter (m\<lparr>m_store := invalidate (m_store m), m_service := wait_entry (m_service m)\<rparr>)"

text \<open>\<^verbatim>\<open>bootstrap_alt_state\<close> returned \<^verbatim>\<open>Ok(None)\<close>.\<close>

definition give_up :: "machine \<Rightarrow> machine" where
  "give_up m = (if m_stop m then shutdown m else loop_top m)"

definition initial_machine :: "usize \<Rightarrow> string list \<Rightarrow> machine" where
  "initial_machine capacity urls =
     loop_top
       \<lparr>m_service = \<lparr>stream_capacity = capacity, yellowstone_urls = urls,
                     connected_sources = {}, active_source = 0\<rparr>,
        m_store = new_store, m_phase = WaitingForSource, m_stop = False\<rparr>"

definition wait_received :: "event \<Rightarrow> machine \<Rightarrow> machine" where
  "wait_received ev m = enter (m\<lparr>m_service := wait_event ev (m_service m)\<rparr>)"

definition bootstrap_received ::
  "crates \<Rightarrow> event \<Rightarrow> string \<Rightarrow> state_event list \<Rightarrow> machine \<Rightarrow> machine" where
  "bootstrap_received c ev url buffered m =
     (case bootstrap_event c ev (m_service m) buffered of
        BootstrapContinue svc buffered' \<Rightarrow>
          m\<lparr>m_service := svc, m_phase := Bootstrapping url buffered'\<rparr>
      | BootstrapGiveUp svc \<Rightarrow> give_up (m\<lparr>m_service := svc\<rparr>)
      | BootstrapFail e \<Rightarrow> m\<lparr>m_phase := Failed e\<rparr>)"

definition bootstrap_fetched ::
  "fetched_alt_state result \<Rightarrow> string \<Rightarrow> state_event list \<Rightarrow> machine \<Rightarrow> machine" where
  "bootstrap_fetched res url buffered m =
     (case res of
        Inl e \<Rightarrow> m\<lparr>m_phase := RetryPause\<rparr>
      | Inr fetched \<Rightarrow>
          let (s', u') = bootstrap_finish url buffered fetched (m_store m)
          in m\<lparr>m_store := s', m_phase := Serving url u' None\<rparr>)"

definition serve_received ::
  "crates \<Rightarrow> event \<Rightarrow> string \<Rightarrow> state_updater \<Rightarrow> refresh_in_progress option \<Rightarrow> machine \<Rightarrow> machine"
where
  "serve_received c ev url u refresh m =
     (case serve_event c ev (m_service m) (m_store m, u) refresh of
        ServeContinue svc s' u' refresh' \<Rightarrow>
          m\<lparr>m_service := svc, m_store := s', m_phase := Serving url u' refresh'\<rparr>
      | ServeRestart svc \<Rightarrow> loop_top (m\<lparr>m_service := svc\<rparr>))"

definition serve_refreshed ::
  "fetched_alt_state result \<Rightarrow> string \<Rightarrow> state_updater \<Rightarrow> refresh_in_progress \<Rightarrow> machine \<Rightarrow> machine"
where
  "serve_refreshed res url u r m =
     (let (s', u', refresh') = install_refreshed_alt_state res (Some r) url (m_store m, u)
      in m\<lparr>m_store := s', m_phase := Serving url u' refresh'\<rparr>)"

section \<open>Steps\<close>

text \<open>
  \<open>from_source\<close>: the events come from the tasks that \<^verbatim>\<open>main\<close> spawned, one per URL. The
  label of a step is the event it received, if any.
\<close>

definition from_source :: "machine \<Rightarrow> event \<Rightarrow> bool" where
  "from_source m ev \<longleftrightarrow> event_source ev < length (yellowstone_urls (m_service m))"

inductive step :: "crates \<Rightarrow> event option \<Rightarrow> machine \<Rightarrow> machine \<Rightarrow> bool" for c where
  cancel: "step c None m (m\<lparr>m_stop := True\<rparr>)"
| reader: "step c None m (m\<lparr>m_store := snd (snapshot_page now sl after limit (m_store m))\<rparr>)"
| wait_stop: "m_phase m = WaitingForSource \<Longrightarrow> m_stop m \<Longrightarrow> step c None m (shutdown m)"
| wait_closed: "m_phase m = WaitingForSource \<Longrightarrow> step c None m (m\<lparr>m_phase := Failed SourcesStopped\<rparr>)"
| wait_recv: "m_phase m = WaitingForSource \<Longrightarrow> from_source m ev \<Longrightarrow> step c (Some ev) m (wait_received ev m)"
| boot_stop: "m_phase m = Bootstrapping url buffered \<Longrightarrow> m_stop m \<Longrightarrow> step c None m (give_up m)"
| boot_closed: "m_phase m = Bootstrapping url buffered \<Longrightarrow>
    step c None m (m\<lparr>m_phase := Failed SourcesStopped\<rparr>)"
| boot_recv: "m_phase m = Bootstrapping url buffered \<Longrightarrow> from_source m ev \<Longrightarrow>
    step c (Some ev) m (bootstrap_received c ev url buffered m)"
| boot_fetched: "m_phase m = Bootstrapping url buffered \<Longrightarrow> fetch_result c None res \<Longrightarrow>
    step c None m (bootstrap_fetched res url buffered m)"
| pause_over: "m_phase m = RetryPause \<Longrightarrow> step c None m (give_up m)"
| serve_stop: "m_phase m = Serving url u refresh \<Longrightarrow> m_stop m \<Longrightarrow> step c None m (shutdown m)"
| serve_closed: "m_phase m = Serving url u refresh \<Longrightarrow>
    step c None m (m\<lparr>m_phase := Failed SourcesStopped\<rparr>)"
| serve_due: "m_phase m = Serving url u refresh \<Longrightarrow>
    step c None m (m\<lparr>m_phase := Serving url u (serve_refresh_due u refresh)\<rparr>)"
| serve_done: "m_phase m = Serving url u (Some r) \<Longrightarrow> fetch_result c (Some (refresh_minimum r)) res \<Longrightarrow>
    step c None m (serve_refreshed res url u r m)"
| serve_recv: "m_phase m = Serving url u refresh \<Longrightarrow> from_source m ev \<Longrightarrow>
    step c (Some ev) m (serve_received c ev url u refresh m)"

inductive reachable :: "crates \<Rightarrow> usize \<Rightarrow> string list \<Rightarrow> machine \<Rightarrow> bool" for c capacity urls where
  start: "reachable c capacity urls (initial_machine capacity urls)"
| move: "reachable c capacity urls m \<Longrightarrow> step c l m m' \<Longrightarrow> reachable c capacity urls m'"

text \<open>An event has one outcome: what is left to the scheduler is which branch is taken.\<close>

inductive_cases step_recvE: "step c (Some ev) m m'"

lemma received_unique: "step c (Some ev) m m' \<Longrightarrow> step c (Some ev) m m'' \<Longrightarrow> m' = m''"
  by (elim step_recvE) simp_all

section \<open>The invariant\<close>

definition service_ok :: "service \<Rightarrow> bool" where
  "service_ok svc \<longleftrightarrow>
     connected_sources svc \<subseteq> {..<length (yellowstone_urls svc)} \<and>
     active_source svc < length (yellowstone_urls svc)"

text \<open>
  A buffer holds what was applied since the refresh began: the live confirmed slot is the
  refresh's minimum advanced by the buffered confirmations.
\<close>

definition refresh_ok :: "usize \<Rightarrow> state_updater \<Rightarrow> refresh_in_progress option \<Rightarrow> bool" where
  "refresh_ok capacity u refresh =
     (case refresh of
        None \<Rightarrow> True
      | Some r \<Rightarrow>
          length (buffered_events r) \<le> unat capacity \<and>
          confirmed_slot u = fold max (map event_slot (buffered_events r)) (refresh_minimum r))"

definition serving_ok :: "machine \<Rightarrow> string \<Rightarrow> state_updater \<Rightarrow> bool" where
  "serving_ok m url u \<longleftrightarrow>
     ready (m_store m) \<and> active_source (m_service m) \<in> connected_sources (m_service m) \<and>
     url = yellowstone_urls (m_service m) ! active_source (m_service m) \<and>
     source_url u = url \<and> active_yellowstone_url (m_store m) = Some url \<and> \<not> recovering u \<and>
     snap_slot (current (m_store m)) = confirmed_slot u"

fun phase_ok :: "phase \<Rightarrow> machine \<Rightarrow> bool" where
  "phase_ok WaitingForSource m \<longleftrightarrow>
     \<not> ready (m_store m) \<and> connected_sources (m_service m) = {}"
| "phase_ok (Bootstrapping url buffered) m \<longleftrightarrow>
     \<not> ready (m_store m) \<and> active_source (m_service m) \<in> connected_sources (m_service m) \<and>
     url = yellowstone_urls (m_service m) ! active_source (m_service m) \<and>
     length buffered \<le> unat (stream_capacity (m_service m))"
| "phase_ok RetryPause m \<longleftrightarrow> \<not> ready (m_store m)"
| "phase_ok (Serving url u refresh) m \<longleftrightarrow>
     serving_ok m url u \<and> refresh_ok (stream_capacity (m_service m)) u refresh"
| "phase_ok Stopped m \<longleftrightarrow> \<not> ready (m_store m)"
| "phase_ok (Failed e) m \<longleftrightarrow>
     (e = SourcesStopped \<or> e = BootstrapBufferFull) \<and>
     (ready (m_store m) \<longrightarrow> e = SourcesStopped \<and>
       active_source (m_service m) \<in> connected_sources (m_service m) \<and>
       active_yellowstone_url (m_store m) =
         Some (yellowstone_urls (m_service m) ! active_source (m_service m)))"

definition machine_ok :: "machine \<Rightarrow> bool" where
  "machine_ok m \<longleftrightarrow> service_ok (m_service m) \<and> phase_ok (m_phase m) m"

lemma service_ok_select [simp]: "service_ok svc \<Longrightarrow> service_ok (select_next_yellowstone svc)"
  by (auto simp: service_ok_def select_next_yellowstone_def split: option.split
      dest: next_connected_Some)

lemma service_ok_mark [simp]:
  "service_ok svc \<Longrightarrow> n < length (yellowstone_urls svc) \<Longrightarrow> service_ok (mark_connected n svc)"
  "service_ok svc \<Longrightarrow> service_ok (mark_disconnected n svc)"
  by (auto simp: service_ok_def)

lemma service_ok_wait_event:
  "service_ok svc \<Longrightarrow> event_source ev < length (yellowstone_urls svc) \<Longrightarrow>
   service_ok (wait_event ev svc)"
  by (cases ev) (auto simp: service_ok_def)

text \<open>Some source is connected: the one selected is.\<close>

lemma wait_entry_connected:
  assumes "service_ok svc" and "connected_sources svc \<noteq> {}"
  shows "active_source (wait_entry svc) \<in> connected_sources (wait_entry svc)"
proof (cases "next_connected (active_source svc) (connected_sources svc) (length (yellowstone_urls svc))")
  case None
  with assms show ?thesis
    by (auto simp: service_ok_def next_connected_None)
next
  case (Some source)
  then show ?thesis
    using next_connected_Some(1) [OF Some]
    by (simp add: wait_entry_def select_next_yellowstone_def)
qed

lemma wait_entry_frames [simp, frame_simps]:
  "stream_capacity (wait_entry svc) = stream_capacity svc"
  "yellowstone_urls (wait_entry svc) = yellowstone_urls svc"
  "connected_sources (wait_entry svc) = connected_sources svc"
  "service_ok svc \<Longrightarrow> service_ok (wait_entry svc)"
  by (simp_all add: wait_entry_def)

lemma enter_ok:
  assumes "service_ok (m_service m)" and "\<not> ready (m_store m)"
    and "active_source (m_service m) \<in> connected_sources (m_service m) \<or>
         connected_sources (m_service m) = {}"
  shows "machine_ok (enter m)"
  using assms by (auto simp: machine_ok_def enter_def service_ok_def Let_def)

lemma loop_top_ok:
  assumes "service_ok (m_service m)"
  shows "machine_ok (loop_top m)"
proof -
  have "active_source (wait_entry (m_service m)) \<in> connected_sources (wait_entry (m_service m)) \<or>
      connected_sources (wait_entry (m_service m)) = {}"
    using wait_entry_connected [OF assms] by auto
  then show ?thesis
    unfolding loop_top_def using assms by (intro enter_ok) simp_all
qed

lemma shutdown_ok: "service_ok (m_service m) \<Longrightarrow> machine_ok (shutdown m)"
  by (simp add: machine_ok_def shutdown_def)

lemma give_up_ok: "service_ok (m_service m) \<Longrightarrow> machine_ok (give_up m)"
  by (simp add: give_up_def shutdown_ok loop_top_ok)

lemma initial_machine_ok: "urls \<noteq> [] \<Longrightarrow> machine_ok (initial_machine capacity urls)"
  unfolding initial_machine_def by (rule loop_top_ok) (simp add: service_ok_def)

lemma wait_received_ok:
  assumes "machine_ok m" and "m_phase m = WaitingForSource" and "from_source m ev"
  shows "machine_ok (wait_received ev m)"
  unfolding wait_received_def
proof (rule enter_ok)
  show "service_ok (m_service (m\<lparr>m_service := wait_event ev (m_service m)\<rparr>))"
    using assms by (simp add: machine_ok_def from_source_def service_ok_wait_event)
qed (use assms in \<open>cases ev; auto simp: machine_ok_def\<close>)+

lemma bootstrap_event_cases:
  assumes "service_ok svc" and "event_source ev < length (yellowstone_urls svc)"
    and "active_source svc \<in> connected_sources svc"
    and "length buffered \<le> unat (stream_capacity svc)"
  shows "case bootstrap_event c ev svc buffered of
      BootstrapContinue svc' buffered' \<Rightarrow>
        service_ok svc' \<and> active_source svc' = active_source svc \<and>
        yellowstone_urls svc' = yellowstone_urls svc \<and>
        stream_capacity svc' = stream_capacity svc \<and>
        active_source svc' \<in> connected_sources svc' \<and>
        length buffered' \<le> unat (stream_capacity svc)
    | BootstrapGiveUp svc' \<Rightarrow> service_ok svc'
    | BootstrapFail e \<Rightarrow> e = BootstrapBufferFull"
  using assms
  by (cases ev) (auto simp: Let_def bootstrap_buffer_def split: sum.split)

lemma bootstrap_received_ok:
  assumes "machine_ok m" and "m_phase m = Bootstrapping url buffered" and "from_source m ev"
  shows "machine_ok (bootstrap_received c ev url buffered m)"
  using assms bootstrap_event_cases [of "m_service m" ev buffered c]
  by (auto simp: bootstrap_received_def machine_ok_def from_source_def give_up_ok [unfolded machine_ok_def]
      split: bootstrap_outcome.splits)

lemma finish_replay:
  "confirmed_slot (snd (finish_recovery (replay es (s, from_fetched_alt_state url f)))) =
     fold max (map event_slot es) (context_slot f)"
  "source_url (snd (finish_recovery (replay es (s, from_fetched_alt_state url f)))) = url"
  "recovering (snd (finish_recovery (replay es (s, from_fetched_alt_state url f)))) = False"
  "ready (fst (finish_recovery (replay es (s, from_fetched_alt_state url f))))"
  "snap_slot (current (fst (finish_recovery (replay es (s, from_fetched_alt_state url f))))) =
     fold max (map event_slot es) (context_slot f)"
  "active_yellowstone_url (fst (finish_recovery (replay es (s, from_fetched_alt_state url f)))) =
     Some url"
  by (simp_all add: finish_recovery_updater finish_recovery_store confirmed_slot_replay_max
      del: replay_simps)

lemma finish_replay_pair:
  assumes "finish_recovery (replay es (s, from_fetched_alt_state url f)) = (s', u')"
  shows "confirmed_slot u' = fold max (map event_slot es) (context_slot f) \<and>
    source_url u' = url \<and> \<not> recovering u' \<and> ready s' \<and>
    snap_slot (current s') = confirmed_slot u' \<and> active_yellowstone_url s' = Some url"
  using finish_replay [of es s url f] assms by simp

lemma bootstrap_fetched_ok:
  assumes "machine_ok m" and "m_phase m = Bootstrapping url buffered"
  shows "machine_ok (bootstrap_fetched res url buffered m)"
proof (cases res)
  case (Inl e)
  with assms show ?thesis by (simp add: bootstrap_fetched_def machine_ok_def)
next
  case (Inr f)
  obtain s' u' where finish:
    "finish_recovery (replay buffered (m_store m, from_fetched_alt_state url f)) = (s', u')"
    by fastforce
  have "bootstrap_fetched res url buffered m = m\<lparr>m_store := s', m_phase := Serving url u' None\<rparr>"
    by (simp add: bootstrap_fetched_def bootstrap_finish_def finish Inr)
  with finish_replay_pair [OF finish] assms show ?thesis
    by (simp add: machine_ok_def serving_ok_def refresh_ok_def)
qed

lemma apply_serving:
  assumes "\<not> recovering u" and "snap_slot (current s) = confirmed_slot u" and "ready s"
    and "active_yellowstone_url s = Some (source_url u)"
    and "apply_state_event ev (s, u) = (s', u')"
  shows "\<not> recovering u' \<and> snap_slot (current s') = confirmed_slot u' \<and> ready s' \<and>
    active_yellowstone_url s' = Some (source_url u') \<and> source_url u' = source_url u \<and>
    confirmed_slot u' = max (confirmed_slot u) (event_slot ev)"
proof -
  have u': "u' = su.feed (as_staged ev) u"
    using snd_apply_state_event [of ev "(s, u)"] assms(5) by simp
  have "snap_slot (current s') = confirmed_slot u' \<and> ready s' \<and>
      active_yellowstone_url s' = Some (source_url u)"
    using assms by (cases ev) (auto simp: confirm_def Let_def split: if_splits)
  then show ?thesis
    using assms(1) by (simp add: u' frames_step confirmed_slot_step)
qed

lemma refresh_ok_buffer:
  assumes "refresh_ok cap u refresh"
    and "confirmed_slot u' = max (confirmed_slot u) (event_slot ev)"
  shows "refresh_ok cap u' (buffer_refresh_event refresh ev cap)"
proof (cases "buffer_refresh_event refresh ev cap")
  case (Some r)
  then obtain q where "refresh = Some q" and "length (buffered_events q) < unat cap"
    and "r = q\<lparr>buffered_events := buffered_events q @ [ev]\<rparr>"
    by (auto simp: buffer_refresh_event_Some)
  with assms Some show ?thesis
    by (auto simp: refresh_ok_def max.commute)
qed (simp add: refresh_ok_def)

lemma serve_state_event_ok:
  assumes "phase_ok (Serving url u refresh) m"
    and "serve_state_event (m_service m) ev (m_store m, u) refresh = ServeContinue svc s' u' refresh'"
  shows "svc = m_service m \<and>
    phase_ok (Serving url u' refresh') (m\<lparr>m_store := s', m_phase := p\<rparr>) \<and>
    confirmed_slot u \<le> confirmed_slot u'"
proof -
  have applied: "apply_state_event ev (m_store m, u) = (s', u')"
    and rest: "svc = m_service m"
      "refresh' = buffer_refresh_event refresh ev (stream_capacity (m_service m))"
    using assms(2) by (auto simp: serve_state_event_def split: prod.splits)
  have "\<not> recovering u' \<and> snap_slot (current s') = confirmed_slot u' \<and> ready s' \<and>
      active_yellowstone_url s' = Some (source_url u') \<and> source_url u' = source_url u \<and>
      confirmed_slot u' = max (confirmed_slot u) (event_slot ev)"
    by (rule apply_serving [OF _ _ _ _ applied]) (use assms(1) in \<open>auto simp: serving_ok_def\<close>)
  with assms(1) rest show ?thesis
    by (auto simp: serving_ok_def refresh_ok_buffer)
qed

lemma serve_event_ok:
  assumes "service_ok (m_service m)" and "from_source m ev"
    and "phase_ok (Serving url u refresh) m"
  shows "case serve_event c ev (m_service m) (m_store m, u) refresh of
      ServeContinue svc s' u' refresh' \<Rightarrow>
        service_ok svc \<and> confirmed_slot u \<le> confirmed_slot u' \<and>
        phase_ok (Serving url u' refresh')
          (m\<lparr>m_service := svc, m_store := s', m_phase := Serving url u' refresh'\<rparr>)
    | ServeRestart svc \<Rightarrow> service_ok svc"
proof -
  have state: "case serve_state_event (m_service m) e (m_store m, u) refresh of
      ServeContinue svc s' u' refresh' \<Rightarrow>
        service_ok svc \<and> confirmed_slot u \<le> confirmed_slot u' \<and>
        phase_ok (Serving url u' refresh')
          (m\<lparr>m_service := svc, m_store := s', m_phase := Serving url u' refresh'\<rparr>)
    | ServeRestart svc \<Rightarrow> service_ok svc" for e
  proof (cases "serve_state_event (m_service m) e (m_store m, u) refresh")
    case (ServeContinue svc s' u' refresh')
    from serve_state_event_ok [OF assms(3) this] assms(1) show ?thesis
      by (simp add: ServeContinue serving_ok_def)
  qed (simp add: serve_state_event_def split: prod.splits)
  show ?thesis
    using assms state
    by (cases ev)
      (auto simp: Let_def from_source_def serving_ok_def split: sum.split)
qed

lemma serve_received_ok:
  assumes "machine_ok m" and "m_phase m = Serving url u refresh" and "from_source m ev"
  shows "machine_ok (serve_received c ev url u refresh m)"
proof -
  have "service_ok (m_service m)" and "phase_ok (Serving url u refresh) m"
    using assms(1,2) by (simp_all add: machine_ok_def)
  note cases = serve_event_ok [OF this(1) assms(3) this(2), of c]
  show ?thesis
  proof (cases "serve_event c ev (m_service m) (m_store m, u) refresh")
    case (ServeContinue svc s' u' refresh')
    with cases show ?thesis by (simp add: serve_received_def machine_ok_def)
  next
    case (ServeRestart svc)
    with cases show ?thesis by (simp add: serve_received_def loop_top_ok)
  qed
qed

lemma serve_refreshed_ok:
  assumes "machine_ok m" and "m_phase m = Serving url u (Some r)"
  shows "machine_ok (serve_refreshed res url u r m)"
proof (cases res)
  case (Inl e)
  with assms show ?thesis
    by (simp add: serve_refreshed_def install_refreshed_alt_state_def machine_ok_def serving_ok_def
        refresh_ok_def)
next
  case (Inr f)
  obtain s' u' where finish:
    "finish_recovery (replay (buffered_events r) (m_store m, from_fetched_alt_state url f)) = (s', u')"
    by fastforce
  have "serve_refreshed res url u r m = m\<lparr>m_store := s', m_phase := Serving url u' None\<rparr>"
    by (simp add: serve_refreshed_def install_refreshed_alt_state_def finish Inr)
  with finish_replay_pair [OF finish] assms show ?thesis
    by (simp add: machine_ok_def serving_ok_def refresh_ok_def)
qed

lemma phase_ok_reader:
  "phase_ok p m \<Longrightarrow>
   phase_ok p (m\<lparr>m_store := snd (snapshot_page now sl after limit (m_store m))\<rparr>)"
  by (cases p) (auto simp: serving_ok_def)

lemma phase_ok_stop: "phase_ok p (m\<lparr>m_stop := b\<rparr>) = phase_ok p m"
  "phase_ok p (m\<lparr>m_phase := q\<rparr>) = phase_ok p m"
  by (cases p; simp add: serving_ok_def)+

lemma step_ok: "step c l m m' \<Longrightarrow> machine_ok m \<Longrightarrow> machine_ok m'"
proof (induction rule: step.induct)
  case (serve_due m url u refresh)
  then show ?case
    by (auto simp: machine_ok_def serve_refresh_due_def refresh_ok_def refresh_start_def
        serving_ok_def)
next
  case (serve_closed m url u refresh)
  then show ?case by (simp add: machine_ok_def serving_ok_def)
qed (auto simp: machine_ok_def phase_ok_reader phase_ok_stop
    shutdown_ok [unfolded machine_ok_def] give_up_ok [unfolded machine_ok_def]
    wait_received_ok [unfolded machine_ok_def] bootstrap_received_ok [unfolded machine_ok_def]
    bootstrap_fetched_ok [unfolded machine_ok_def] serve_received_ok [unfolded machine_ok_def]
    serve_refreshed_ok [unfolded machine_ok_def])

lemma reachable_ok: "reachable c capacity urls m \<Longrightarrow> urls \<noteq> [] \<Longrightarrow> machine_ok m"
  by (induction rule: reachable.induct) (auto simp: initial_machine_ok step_ok)

end
