(* ===== verification/Lifecycle.thy ===== *)
theory Lifecycle
  imports Service
begin

text \<open>
  What holds of every reachable state of the updater service: when it is ready, what it then
  serves, how it fails over, and that it can always come back.
\<close>

section \<open>Readiness\<close>

lemma enter_store [simp]: "m_store (enter m) = m_store m" "m_stop (enter m) = m_stop m"
  by (simp_all add: enter_def Let_def)

lemma loop_top_frames [simp]:
  "m_store (loop_top m) = invalidate (m_store m)" "m_stop (loop_top m) = m_stop m"
  by (simp_all add: loop_top_def)

lemma shutdown_frames [simp]:
  "m_store (shutdown m) = invalidate (m_store m)" "m_phase (shutdown m) = Stopped"
  "m_stop (shutdown m) = m_stop m"
  by (simp_all add: shutdown_def)

lemma give_up_store [simp]: "m_store (give_up m) = invalidate (m_store m)"
  by (simp add: give_up_def)

lemma ready_phase:
  assumes "machine_ok m" and "ready (m_store m)"
  shows "(\<exists>url u refresh. m_phase m = Serving url u refresh \<and> serving_ok m url u) \<or>
    m_phase m = Failed SourcesStopped"
  using assms by (cases "m_phase m") (auto simp: machine_ok_def)

lemma ready_active:
  assumes "machine_ok m" and "ready (m_store m)"
  shows "active_source (m_service m) < length (yellowstone_urls (m_service m))"
    "active_source (m_service m) \<in> connected_sources (m_service m)"
    "active_yellowstone_url (m_store m) =
       Some (yellowstone_urls (m_service m) ! active_source (m_service m))"
  using assms by (cases "m_phase m"; auto simp: machine_ok_def serving_ok_def service_ok_def)+

section \<open>Progress of the served slot\<close>

lemma fold_max_mono: "(a :: 'a :: linorder) \<le> b \<Longrightarrow> fold max xs a \<le> fold max xs b"
  by (induction xs arbitrary: a b) (auto simp: max_def)

lemma serve_refreshed_slot:
  assumes ok: "machine_ok m" and "m_phase m = Serving url u (Some r)"
    and "fetch_result c (Some (refresh_minimum r)) res"
  shows "snap_slot (current (m_store m)) \<le> snap_slot (current (m_store (serve_refreshed res url u r m)))"
proof (cases res)
  case (Inl e)
  then show ?thesis by (simp add: serve_refreshed_def install_refreshed_alt_state_def)
next
  case (Inr f)
  obtain s' u' where finish:
    "finish_recovery (replay (buffered_events r) (m_store m, from_fetched_alt_state url f)) = (s', u')"
    by fastforce
  have "snap_slot (current (m_store m)) = fold max (map event_slot (buffered_events r)) (refresh_minimum r)"
    using assms(1,2) by (simp add: machine_ok_def serving_ok_def refresh_ok_def)
  also have "\<dots> \<le> fold max (map event_slot (buffered_events r)) (context_slot f)"
    using assms(3) Inr by (intro fold_max_mono fetch_result_minimum [of c]) simp
  also have "\<dots> = snap_slot (current s')"
    using finish_replay_pair [OF finish] by simp
  also have "s' = m_store (serve_refreshed res url u r m)"
    by (simp add: serve_refreshed_def install_refreshed_alt_state_def finish Inr)
  finally show ?thesis .
qed

lemma serve_received_slot:
  assumes ok: "machine_ok m" and phase: "m_phase m = Serving url u refresh"
    and "from_source m ev" and ready: "ready (m_store (serve_received c ev url u refresh m))"
  shows "snap_slot (current (m_store m)) \<le> snap_slot (current (m_store (serve_received c ev url u refresh m)))"
proof -
  have ok': "service_ok (m_service m)" "phase_ok (Serving url u refresh) m"
    using ok phase by (simp_all add: machine_ok_def)
  note cases = serve_event_ok [OF ok'(1) assms(3) ok'(2), of c]
  show ?thesis
  proof (cases "serve_event c ev (m_service m) (m_store m, u) refresh")
    case (ServeContinue svc s' u' refresh')
    with cases ok'(2) show ?thesis by (simp add: serve_received_def serving_ok_def)
  next
    case (ServeRestart svc)
    with ready show ?thesis by (simp add: serve_received_def)
  qed
qed

lemma step_slot:
  assumes "step c l m m'" and "machine_ok m" and "ready (m_store m)" and "ready (m_store m')"
  shows "snap_slot (current (m_store m)) \<le> snap_slot (current (m_store m'))"
  using assms
proof (induction rule: step.induct)
  case (serve_done m url u r res)
  then show ?case by (intro serve_refreshed_slot)
next
  case (serve_recv m url u refresh ev)
  then show ?case by (intro serve_received_slot)
qed (simp_all add: machine_ok_def)

section \<open>Failover\<close>

text \<open>The active source failed: it went away, or sent an update that cannot be decoded.\<close>

fun source_failed :: "crates \<Rightarrow> nat \<Rightarrow> event \<Rightarrow> bool" where
  "source_failed c active (Disconnected source) \<longleftrightarrow> source = active"
| "source_failed c active (AccountEvent source update) \<longleftrightarrow>
     source = active \<and> \<not> is_ok (decode_account_update c update)"
| "source_failed c active (Connected source) \<longleftrightarrow> False"
| "source_failed c active (ConfirmedEvent source slot) \<longleftrightarrow> False"

lemma serve_source_failed:
  assumes "source_failed c (active_source svc) ev"
  shows "\<exists>svc'. serve_event c ev svc su refresh = ServeRestart (select_next_yellowstone svc') \<and>
    stream_capacity svc' = stream_capacity svc \<and> yellowstone_urls svc' = yellowstone_urls svc \<and>
    active_source svc' = active_source svc \<and>
    connected_sources svc' =
      (if ev = Disconnected (active_source svc) then connected_sources svc - {active_source svc}
       else connected_sources svc)"
proof (cases ev)
  case (AccountEvent source update)
  with assms show ?thesis by (cases "decode_account_update c update") auto
qed (use assms in \<open>auto simp: Let_def\<close>)

lemma enter_phase:
  assumes "service_ok (m_service m)"
    and "active_source (m_service m) \<in> connected_sources (m_service m) \<or>
      connected_sources (m_service m) = {}"
  shows "m_phase (enter m) =
    (if connected_sources (m_service m) = {} then WaitingForSource
     else Bootstrapping (yellowstone_urls (m_service m) ! active_source (m_service m)) [])"
    "m_service (enter m) = m_service m"
  using assms by (auto simp: enter_def Let_def service_ok_def)

lemma loop_top_phase:
  assumes "service_ok (m_service m)"
  shows "m_phase (loop_top m) =
    (if connected_sources (m_service m) = {} then WaitingForSource
     else Bootstrapping (yellowstone_urls (m_service m) ! active_source (wait_entry (m_service m))) [])"
    "m_service (loop_top m) = wait_entry (m_service m)"
proof -
  have "active_source (wait_entry (m_service m)) \<in> connected_sources (wait_entry (m_service m)) \<or>
      connected_sources (wait_entry (m_service m)) = {}"
    using wait_entry_connected [OF assms] by auto
  then show "m_phase (loop_top m) =
    (if connected_sources (m_service m) = {} then WaitingForSource
     else Bootstrapping (yellowstone_urls (m_service m) ! active_source (wait_entry (m_service m))) [])"
    "m_service (loop_top m) = wait_entry (m_service m)"
    unfolding loop_top_def using assms by (subst enter_phase; simp)+
qed

text \<open>Reselecting does not move a selection that is connected.\<close>

lemma wait_entry_select:
  assumes "service_ok svc"
  shows "wait_entry (select_next_yellowstone svc) = select_next_yellowstone svc"
proof (cases "connected_sources svc = {}")
  case True
  then have "next_connected n (connected_sources svc) (length (yellowstone_urls svc)) = None" for n
    by (simp add: next_connected_def find_None_iff)
  then show ?thesis by (simp add: wait_entry_def select_next_yellowstone_def)
next
  case False
  then have "next_connected (active_source svc) (connected_sources svc)
      (length (yellowstone_urls svc)) \<noteq> None"
    using assms by (auto simp: service_ok_def next_connected_None)
  then show ?thesis
    by (auto simp: wait_entry_def select_next_yellowstone_def next_connected_Some)
qed

lemma loop_top_selected:
  fixes m :: machine
  assumes "service_ok svc"
  defines "m' \<equiv> loop_top (m\<lparr>m_service := select_next_yellowstone svc\<rparr>)"
  shows "m_service m' = select_next_yellowstone svc"
    and "case next_connected (active_source svc) (connected_sources svc) (length (yellowstone_urls svc)) of
       None \<Rightarrow> m_phase m' = WaitingForSource
     | Some source \<Rightarrow> active_source (m_service m') = source \<and>
         m_phase m' = Bootstrapping (yellowstone_urls svc ! source) []"
proof -
  show service: "m_service m' = select_next_yellowstone svc"
    using assms(1) by (simp add: m'_def loop_top_phase wait_entry_select)
  have phase: "m_phase m' = (if connected_sources svc = {} then WaitingForSource
      else Bootstrapping (yellowstone_urls svc ! active_source (select_next_yellowstone svc)) [])"
    using assms(1) by (simp add: m'_def loop_top_phase wait_entry_select)
  show "case next_connected (active_source svc) (connected_sources svc) (length (yellowstone_urls svc)) of
       None \<Rightarrow> m_phase m' = WaitingForSource
     | Some source \<Rightarrow> active_source (m_service m') = source \<and>
         m_phase m' = Bootstrapping (yellowstone_urls svc ! source) []"
  proof (cases "next_connected (active_source svc) (connected_sources svc) (length (yellowstone_urls svc))")
    case None
    moreover from this have "connected_sources svc \<inter> {..<length (yellowstone_urls svc)} = {}"
      using assms(1) by (simp add: service_ok_def next_connected_None)
    then have "connected_sources svc = {}"
      using assms(1) by (auto simp: service_ok_def)
    ultimately show ?thesis by (simp add: phase)
  next
    case (Some source)
    moreover from this have "connected_sources svc \<noteq> {}"
      using next_connected_Some(1) by blast
    ultimately show ?thesis by (simp add: phase service) (simp add: select_next_yellowstone_def)
  qed
qed

section \<open>Recovery\<close>

text \<open>A service that lists nothing, at a given slot.\<close>

lemma fetch_result_empty:
  assumes "\<And>m. minimum = Some m \<Longrightarrow> m \<le> slot"
  shows "fetch_result c minimum (Inr \<lparr>context_slot = slot, fetched_accounts = om_empty\<rparr>)"
proof -
  have "fetch_full_alt_state c
      (\<lambda>n req. Inr \<lparr>reply_result = Some \<lparr>ctx_slot = slot, ctx_value =
         \<lparr>pa_accounts = [], pa_pagination_key = None\<rparr>\<rparr>, reply_error = None\<rparr>) minimum (Suc 0) =
      Some (Inr \<lparr>context_slot = slot, fetched_accounts = om_empty\<rparr>)"
    using assms
    by (auto simp: fetch_full_alt_state_def rpc_def fetch_page_def Let_def fetch_start_def
        fetch_finish_def split: option.split)
  then show ?thesis unfolding fetch_result_def by blast
qed

abbreviation steps :: "crates \<Rightarrow> machine \<Rightarrow> machine \<Rightarrow> bool" where
  "steps c \<equiv> (\<lambda>m m'. \<exists>l. step c l m m')\<^sup>*\<^sup>*"

lemma steps_first: "step c l m m' \<Longrightarrow> steps c m' m'' \<Longrightarrow> steps c m m''"
  by (rule converse_rtranclp_into_rtranclp) blast+

lemma bootstrapping_recovers:
  assumes "m_phase m = Bootstrapping url buffered"
  shows "\<exists>m'. steps c m m' \<and> ready (m_store m')"
proof -
  let ?f = "\<lparr>context_slot = 0, fetched_accounts = om_empty :: (key, account) omap\<rparr>"
  have "step c None m (bootstrap_fetched (Inr ?f) url buffered m)"
    by (rule boot_fetched [OF assms]) (rule fetch_result_empty, simp)
  moreover obtain s' u' where finish:
    "finish_recovery (replay buffered (m_store m, from_fetched_alt_state url ?f)) = (s', u')"
    by fastforce
  have "ready (m_store (bootstrap_fetched (Inr ?f) url buffered m))"
    using finish_replay_pair [OF finish]
    by (simp add: bootstrap_fetched_def bootstrap_finish_def finish)
  ultimately show ?thesis by blast
qed

lemma waiting_recovers:
  assumes "machine_ok m" and "m_phase m = WaitingForSource"
  shows "\<exists>m'. steps c m m' \<and> ready (m_store m')"
proof -
  have source: "from_source m (Connected 0)"
    using assms by (auto simp: machine_ok_def from_source_def service_ok_def)
  let ?m = "wait_received (Connected 0) m"
  have "step c (Some (Connected 0)) m ?m"
    by (rule wait_recv [OF assms(2) source])
  moreover have "m_phase ?m = Bootstrapping (yellowstone_urls (m_service m) ! 0) []"
    using source by (simp add: wait_received_def enter_def Let_def from_source_def)
  from bootstrapping_recovers [OF this] obtain m' where "steps c ?m m'" "ready (m_store m')" by blast
  ultimately show ?thesis by (blast intro: steps_first)
qed

lemma loop_top_recovers:
  assumes "service_ok (m_service m)"
  shows "\<exists>m'. steps c (loop_top m) m' \<and> ready (m_store m')"
  using loop_top_phase(1) [OF assms] loop_top_ok [OF assms]
  by (cases "connected_sources (m_service m) = {}")
    (auto intro: waiting_recovers bootstrapping_recovers)

section \<open>The configuration never changes\<close>

lemma wait_event_frames [simp]:
  "yellowstone_urls (wait_event ev svc) = yellowstone_urls svc"
  "stream_capacity (wait_event ev svc) = stream_capacity svc"
  by (cases ev; simp)+

lemma enter_service [simp]: "m_service (enter m) = m_service m"
  by (simp add: enter_def Let_def)

lemma loop_top_service: "m_service (loop_top m) = wait_entry (m_service m)"
  by (simp add: loop_top_def)

lemma give_up_service:
  "yellowstone_urls (m_service (give_up m)) = yellowstone_urls (m_service m)"
  "stream_capacity (m_service (give_up m)) = stream_capacity (m_service m)"
  by (simp_all add: give_up_def loop_top_service shutdown_def)

lemma bootstrap_event_frames:
  "case bootstrap_event c ev svc buffered of
     BootstrapContinue svc' b \<Rightarrow> yellowstone_urls svc' = yellowstone_urls svc \<and>
       stream_capacity svc' = stream_capacity svc
   | BootstrapGiveUp svc' \<Rightarrow> yellowstone_urls svc' = yellowstone_urls svc \<and>
       stream_capacity svc' = stream_capacity svc
   | BootstrapFail e \<Rightarrow> True"
  by (cases ev) (auto simp: Let_def bootstrap_buffer_def split: sum.split)

lemma serve_event_frames:
  "case serve_event c ev svc su refresh of
     ServeContinue svc' s' u' r' \<Rightarrow> yellowstone_urls svc' = yellowstone_urls svc \<and>
       stream_capacity svc' = stream_capacity svc
   | ServeRestart svc' \<Rightarrow> yellowstone_urls svc' = yellowstone_urls svc \<and>
       stream_capacity svc' = stream_capacity svc"
  by (cases ev) (auto simp: Let_def serve_state_event_def split: sum.split prod.split)

lemma step_configuration:
  assumes "step c l m m'"
  shows "yellowstone_urls (m_service m') = yellowstone_urls (m_service m) \<and>
    stream_capacity (m_service m') = stream_capacity (m_service m)"
  using assms
proof (induction rule: step.induct)
  case (boot_recv m url buffered ev)
  then show ?case
    using bootstrap_event_frames [where c = c and ev = ev and svc = "m_service m" and buffered = buffered]
    by (auto simp: bootstrap_received_def give_up_service split: bootstrap_outcome.splits)
next
  case (serve_recv m url u refresh ev)
  then show ?case
    using serve_event_frames [where c = c and ev = ev and svc = "m_service m" and
        su = "(m_store m, u)" and refresh = refresh]
    by (auto simp: serve_received_def loop_top_service split: serve_outcome.splits)
qed (auto simp: wait_received_def shutdown_def give_up_service bootstrap_fetched_def
    serve_refreshed_def split: sum.split prod.split)

lemma reachable_configuration:
  "reachable c capacity urls m \<Longrightarrow>
   yellowstone_urls (m_service m) = urls \<and> stream_capacity (m_service m) = capacity"
proof (induction rule: reachable.induct)
  case start
  then show ?case by (simp add: initial_machine_def loop_top_service)
next
  case (move m m')
  with step_configuration show ?case by simp
qed

section \<open>A sample run\<close>

definition sample_waiting :: machine where
  "sample_waiting = initial_machine 10 [''one'', ''two'']"

definition sample_bootstrapping :: machine where
  "sample_bootstrapping = wait_received (Connected 1) sample_waiting"

definition sample_serving :: machine where
  "sample_serving =
     bootstrap_fetched (Inr \<lparr>context_slot = 5, fetched_accounts = om_empty\<rparr>) ''two''
       [ConfirmedSlot 6] (sample_bootstrapping\<lparr>m_phase := Bootstrapping ''two'' [ConfirmedSlot 6]\<rparr>)"

lemma sample_waiting_reachable: "reachable c 10 [''one'', ''two''] sample_waiting"
  unfolding sample_waiting_def by (rule reachable.start)

lemma sample_waiting_phase: "m_phase sample_waiting = WaitingForSource"
  "m_service sample_waiting = \<lparr>stream_capacity = 10, yellowstone_urls = [''one'', ''two''],
     connected_sources = {}, active_source = 0\<rparr>" "m_stop sample_waiting = False"
  by (simp_all add: sample_waiting_def initial_machine_def loop_top_def enter_def wait_entry_def
      select_next_yellowstone_def next_connected_def numeral_2_eq_2)

lemma sample_bootstrapping_reachable: "reachable c 10 [''one'', ''two''] sample_bootstrapping"
  unfolding sample_bootstrapping_def
  by (rule reachable.move [OF sample_waiting_reachable], rule step.wait_recv)
    (simp_all add: sample_waiting_phase from_source_def)

lemma sample_bootstrapping_phase: "m_phase sample_bootstrapping = Bootstrapping ''two'' []"
  "m_service sample_bootstrapping = \<lparr>stream_capacity = 10, yellowstone_urls = [''one'', ''two''],
     connected_sources = {1}, active_source = 1\<rparr>" "m_stop sample_bootstrapping = False"
  by (simp_all add: sample_bootstrapping_def wait_received_def enter_def sample_waiting_phase
      mark_connected_def Let_def)

lemma sample_serving_reachable: "reachable c 10 [''one'', ''two''] sample_serving"
proof -
  have "reachable c 10 [''one'', ''two'']
      (bootstrap_received c (ConfirmedEvent 1 6) ''two'' [] sample_bootstrapping)"
    by (rule reachable.move [OF sample_bootstrapping_reachable], rule step.boot_recv)
      (simp_all add: sample_bootstrapping_phase from_source_def)
  also have "bootstrap_received c (ConfirmedEvent 1 6) ''two'' [] sample_bootstrapping =
      sample_bootstrapping\<lparr>m_phase := Bootstrapping ''two'' [ConfirmedSlot 6]\<rparr>"
    by (simp add: bootstrap_received_def sample_bootstrapping_phase bootstrap_buffer_def)
  finally show ?thesis
    unfolding sample_serving_def
    by (rule reachable.move) (rule step.boot_fetched, simp, rule fetch_result_empty, simp)
qed

lemma sample_serving_phase: "\<exists>u. m_phase sample_serving = Serving ''two'' u None \<and> confirmed_slot u = 6"
  "m_service sample_serving = m_service sample_bootstrapping"
  "ready (m_store sample_serving)" "m_stop sample_serving = False"
proof -
  obtain s' u' where finish: "finish_recovery (replay [ConfirmedSlot 6]
      (m_store sample_bootstrapping, from_fetched_alt_state ''two''
        \<lparr>context_slot = 5, fetched_accounts = om_empty\<rparr>)) = (s', u')"
    by fastforce
  have eq: "sample_serving = sample_bootstrapping\<lparr>m_store := s', m_phase := Serving ''two'' u' None\<rparr>"
    by (simp add: sample_serving_def bootstrap_fetched_def bootstrap_finish_def finish
        del: replay_simps)
  show "\<exists>u. m_phase sample_serving = Serving ''two'' u None \<and> confirmed_slot u = 6"
    "m_service sample_serving = m_service sample_bootstrapping"
    "ready (m_store sample_serving)" "m_stop sample_serving = False"
    using finish_replay_pair [OF finish] by (simp_all add: eq sample_bootstrapping_phase)
qed

section \<open>The refresh buffer\<close>

lemma buffer_None: "fold (\<lambda>e r. buffer_refresh_event r e cap) es None = None"
  by (induction es) (simp_all add: buffer_refresh_event_def)

lemma buffer_fold:
  "fold (\<lambda>e r. buffer_refresh_event r e cap) es (Some r) =
     (if length (buffered_events r) + length es \<le> unat cap \<or> es = []
      then Some (r\<lparr>buffered_events := buffered_events r @ es\<rparr>) else None)"
proof (induction es arbitrary: r)
  case (Cons e es)
  show ?case
  proof (cases "length (buffered_events r) < unat cap")
    case True
    then have "buffer_refresh_event (Some r) e cap = Some (r\<lparr>buffered_events := buffered_events r @ [e]\<rparr>)"
      by (simp add: buffer_refresh_event_Some)
    with Cons.IH True show ?thesis by auto
  next
    case False
    then have "buffer_refresh_event (Some r) e cap = None"
      by (simp add: buffer_refresh_event_def refresh_buffer_def)
    with False show ?thesis by (simp add: buffer_None)
  qed
qed simp

lemma buffer_from_start:
  "fold (\<lambda>e r. buffer_refresh_event r e cap) es (serve_refresh_due u None) =
     (if length es \<le> unat cap
      then Some \<lparr>refresh_minimum = confirmed_slot u, buffered_events = es\<rparr> else None)"
  by (simp add: serve_refresh_due_def refresh_start_def buffer_fold)

section \<open>Properties\<close>

text \<open>
  C2. Whenever the store is ready, the selected source is a configured one that is connected, and
  the store shows its URL; and either the service is serving that source, its live updater has
  recovered and the current snapshot has the updater's confirmed slot, or the updater task has
  failed because every source task stopped, which leaves the store as it was while the process
  ends. While the service waits for a source, bootstraps or has stopped, and after it failed on a
  full bootstrap buffer, the store is not ready.
\<close>

theorem ready_only_while_serving:
  assumes "reachable c capacity urls m" and "urls \<noteq> []" and "ready (m_store m)"
  shows "active_source (m_service m) < length urls \<and>
    active_source (m_service m) \<in> connected_sources (m_service m) \<and>
    active_yellowstone_url (m_store m) = Some (urls ! active_source (m_service m)) \<and>
    ((\<exists>u refresh. m_phase m = Serving (urls ! active_source (m_service m)) u refresh \<and>
        \<not> recovering u \<and> snap_slot (current (m_store m)) = confirmed_slot u) \<or>
     m_phase m = Failed SourcesStopped)"
proof -
  note ok = reachable_ok [OF assms(1,2)]
  show ?thesis
    using ready_active [OF ok assms(3)] ready_phase [OF ok assms(3)] reachable_configuration [OF assms(1)]
    by (auto simp: serving_ok_def)
qed

lemma ready_only_while_serving_witness:
  "active_source (m_service sample_serving) = 1 \<and>
   active_source (m_service sample_serving) \<in> connected_sources (m_service sample_serving) \<and>
   active_yellowstone_url (m_store sample_serving) = Some ''two'' \<and>
   (\<exists>u refresh. m_phase sample_serving = Serving ''two'' u refresh \<and>
      \<not> recovering u \<and> snap_slot (current (m_store sample_serving)) = confirmed_slot u)"
  using ready_only_while_serving [OF sample_serving_reachable [of sample_crates]] sample_serving_phase
    sample_bootstrapping_phase by auto

text \<open>
  C1. The served slot never goes back while the service stays ready: not by an event, not by a
  page read, and not when a background refresh replaces the whole state, whose request demands
  the slot confirmed when it began and whose buffer holds every confirmation since.
\<close>

theorem served_slot_never_regresses:
  assumes "reachable c capacity urls m" and "urls \<noteq> []" and "step c l m m'"
    and "ready (m_store m)" and "ready (m_store m')"
  shows "snap_slot (current (m_store m)) \<le> snap_slot (current (m_store m'))"
  by (rule step_slot [OF assms(3) reachable_ok [OF assms(1,2)] assms(4,5)])

lemma served_slot_never_regresses_witness:
  "snap_slot (current (m_store sample_serving)) \<le>
   snap_slot (current (m_store (sample_serving\<lparr>m_stop := True\<rparr>)))"
  by (rule served_slot_never_regresses [OF sample_serving_reachable [of sample_crates] _ step.cancel])
    (simp_all add: sample_serving_phase)

text \<open>
  C11. Failover. When the active source disconnects or sends an undecodable update, the service
  is unready at once, keeps the snapshot it had, and in the same step begins a bootstrap from the
  next connected source in rotation, or waits when none is connected.
\<close>

theorem failover_selects_next:
  assumes "reachable c capacity urls m" and "urls \<noteq> []" and "m_phase m = Serving url u refresh"
    and "from_source m ev" and "source_failed c (active_source (m_service m)) ev"
  shows "let m' = serve_received c ev url u refresh m; svc = m_service m' in
    \<not> ready (m_store m') \<and> current (m_store m') = current (m_store m) \<and>
    connected_sources svc =
      (if ev = Disconnected (active_source (m_service m))
       then connected_sources (m_service m) - {active_source (m_service m)}
       else connected_sources (m_service m)) \<and>
    (case next_connected (active_source (m_service m)) (connected_sources svc) (length urls) of
       None \<Rightarrow> m_phase m' = WaitingForSource
     | Some source \<Rightarrow> active_source svc = source \<and> m_phase m' = Bootstrapping (urls ! source) [])"
proof -
  obtain svc where svc: "serve_event c ev (m_service m) (m_store m, u) refresh =
      ServeRestart (select_next_yellowstone svc)"
    and same: "yellowstone_urls svc = urls" "active_source svc = active_source (m_service m)"
    and conn: "connected_sources svc =
      (if ev = Disconnected (active_source (m_service m))
       then connected_sources (m_service m) - {active_source (m_service m)}
       else connected_sources (m_service m))"
    using serve_source_failed [OF assms(5)] reachable_configuration [OF assms(1)] by metis
  let ?m' = "serve_received c ev url u refresh m"
  have m': "?m' = loop_top (m\<lparr>m_service := select_next_yellowstone svc\<rparr>)"
    by (simp add: serve_received_def svc)
  have ok: "service_ok svc"
    using reachable_ok [OF assms(1,2)] same conn reachable_configuration [OF assms(1)]
    by (auto simp: machine_ok_def service_ok_def)
  have conn': "connected_sources (m_service ?m') = connected_sources svc"
    by (simp add: m' loop_top_selected [OF ok])
  have store: "\<not> ready (m_store ?m')" "current (m_store ?m') = current (m_store m)"
    by (simp_all add: m')
  note selected = loop_top_selected(2) [OF ok, of m, folded m', unfolded same]
  show ?thesis
    unfolding Let_def conn' by (intro conjI store conn selected)
qed

lemma failover_selects_next_witness:
  "\<exists>u. m_phase sample_serving = Serving ''two'' u None \<and>
     \<not> ready (m_store (serve_received sample_crates (Disconnected 1) ''two'' u None sample_serving)) \<and>
     m_phase (serve_received sample_crates (Disconnected 1) ''two'' u None sample_serving) =
       WaitingForSource"
proof -
  obtain u where u: "m_phase sample_serving = Serving ''two'' u None"
    using sample_serving_phase by blast
  have "from_source sample_serving (Disconnected 1)"
    and "source_failed sample_crates (active_source (m_service sample_serving)) (Disconnected 1)"
    by (simp_all add: from_source_def sample_serving_phase sample_bootstrapping_phase)
  from failover_selects_next [OF sample_serving_reachable _ u this] u show ?thesis
    by (auto simp: Let_def sample_serving_phase sample_bootstrapping_phase next_connected_def
        numeral_2_eq_2)
qed

text \<open>
  C27. The service can always come back: from every state it reaches before being cancelled, in
  any phase but a failure, some sequence of events and fetch results makes it ready again.
\<close>

theorem service_can_always_recover:
  assumes "reachable c capacity urls m" and "urls \<noteq> []" and "\<not> m_stop m"
    and "m_phase m \<noteq> Stopped" and "\<not> (\<exists>e. m_phase m = Failed e)"
  shows "\<exists>m'. steps c m m' \<and> ready (m_store m')"
proof -
  have ok: "machine_ok m" by (rule reachable_ok [OF assms(1,2)])
  show ?thesis
  proof (cases "m_phase m")
    case WaitingForSource
    with ok show ?thesis by (rule waiting_recovers)
  next
    case (Bootstrapping url buffered)
    then show ?thesis by (rule bootstrapping_recovers)
  next
    case RetryPause
    then have "step c None m (loop_top m)"
      using step.pause_over [of m c] assms(3) by (simp add: give_up_def)
    moreover obtain m' where "steps c (loop_top m) m'" "ready (m_store m')"
      using loop_top_recovers [of m c] ok by (auto simp: machine_ok_def)
    ultimately show ?thesis by (blast intro: steps_first)
  next
    case (Serving url u refresh)
    with ok show ?thesis by (auto simp: machine_ok_def serving_ok_def)
  qed (use assms(4,5) in auto)
qed

lemma service_can_always_recover_witness:
  "\<exists>m'. steps sample_crates sample_waiting m' \<and> ready (m_store m')"
  by (rule service_can_always_recover [OF sample_waiting_reachable])
    (simp_all add: sample_waiting_phase)

text \<open>
  C28. Nothing panics and nothing grows without bound: the task fails only when every source task
  has ended or the bootstrap buffer overflows (never by an index out of range), and neither buffer
  ever holds more than the configured capacity.
\<close>

theorem bounded_buffers_no_panic:
  assumes "reachable c capacity urls m" and "urls \<noteq> []"
  shows "case m_phase m of
      Failed e \<Rightarrow> e = SourcesStopped \<or> e = BootstrapBufferFull
    | Bootstrapping url buffered \<Rightarrow> length buffered \<le> unat capacity
    | Serving url u refresh \<Rightarrow>
        (case refresh of None \<Rightarrow> True | Some r \<Rightarrow> length (buffered_events r) \<le> unat capacity)
    | _ \<Rightarrow> True"
  using reachable_ok [OF assms] reachable_configuration [OF assms(1)]
  by (auto simp: machine_ok_def refresh_ok_def split: phase.split option.split)

lemma bounded_buffers_no_panic_witness:
  "case m_phase sample_serving of
      Failed e \<Rightarrow> e = SourcesStopped \<or> e = BootstrapBufferFull
    | Bootstrapping url buffered \<Rightarrow> length buffered \<le> unat (10 :: usize)
    | Serving url u refresh \<Rightarrow>
        (case refresh of None \<Rightarrow> True | Some r \<Rightarrow> length (buffered_events r) \<le> unat (10 :: usize))
    | _ \<Rightarrow> True"
  by (rule bounded_buffers_no_panic [OF sample_serving_reachable [of sample_crates]]) simp

text \<open>
  C10. A background refresh loses no event received after it began: as long as they fit the
  buffer, the state it installs is the fetched one with all of them applied by the staging
  contract, at a slot not below the live one when the fetch honoured the requested minimum. When
  they do not fit, the refresh is dropped and its result changes nothing.
\<close>

theorem refresh_loses_no_event:
  assumes "install_refreshed_alt_state (Inr f)
      (fold (\<lambda>e r. buffer_refresh_event r e capacity) es (serve_refresh_due u None)) url
      (replay es (s, u)) = (s'', u'', r'')"
  shows "if length es \<le> unat capacity
    then r'' = None \<and> confirmed_slot u'' = fold max (map event_slot es) (context_slot f) \<and>
      om_get (accounts u'') =
        latest (om_get (fetched_accounts f)) (spec_log (fetched_spec f es)) (confirmed_slot u'') \<and>
      (confirmed_slot u \<le> context_slot f \<longrightarrow>
         confirmed_slot (snd (replay es (s, u))) \<le> confirmed_slot u'')
    else (s'', u'') = replay es (s, u) \<and> r'' = None"
proof (cases "length es \<le> unat capacity")
  case False
  with assms show ?thesis
    by (auto simp: buffer_from_start install_refreshed_alt_state_def)
next
  case True
  define s' where "s' = fst (replay es (s, u))"
  have finish: "finish_recovery (replay es (s', from_fetched_alt_state url f)) = (s'', u'')"
    and "r'' = None"
    using assms True
    by (auto simp: buffer_from_start install_refreshed_alt_state_def s'_def split: prod.splits)
  moreover have slot: "confirmed_slot u'' = fold max (map event_slot es) (context_slot f)"
    using finish_replay_pair [OF finish] by simp
  moreover have "om_get (accounts u'') =
      latest (om_get (fetched_accounts f)) (spec_log (fetched_spec f es)) (confirmed_slot u'')"
    using finish_recovery_updater(1,3) [of "replay es (s', from_fetched_alt_state url f)"]
      replay_view [of es s' url f, OF order_refl]
    by (simp add: finish)
  ultimately show ?thesis
    using True by (simp add: confirmed_slot_replay_max fold_max_mono)
qed

lemma refresh_loses_no_event_witness:
  "\<exists>s u. case install_refreshed_alt_state (Inr sample_fetched)
      (fold (\<lambda>e r. buffer_refresh_event r e 4) [ConfirmedSlot 12] (serve_refresh_due u None)) ''one''
      (replay [ConfirmedSlot 12] (s, u)) of (s'', u'', r'') \<Rightarrow>
    r'' = None \<and> confirmed_slot u'' = 12"
proof -
  let ?u = "from_fetched_alt_state ''one'' sample_fetched"
  obtain s'' u'' r'' where install: "install_refreshed_alt_state (Inr sample_fetched)
      (fold (\<lambda>e r. buffer_refresh_event r e 4) [ConfirmedSlot 12] (serve_refresh_due ?u None)) ''one''
      (replay [ConfirmedSlot 12] (new_store, ?u)) = (s'', u'', r'')"
    by (rule prod_cases3)
  have "r'' = None \<and> confirmed_slot u'' = 12"
    using refresh_loses_no_event [OF install] by (simp add: sample_fetched_def)
  then show ?thesis
    by (intro exI [of _ new_store] exI [of _ ?u]) (simp only: install prod.case simp_thms)
qed

section \<open>What a refresh does not carry over\<close>

lemma view_recovering [simp]: "view s (u\<lparr>recovering := b\<rparr>) = view s u"
  by (simp add: view_def fun_eq_iff)

lemma finish_recovery_view:
  "confirmed_slot (snd su) \<le> s \<Longrightarrow> view s (snd (finish_recovery su)) = view s (snd su)"
  by (cases su) (simp add: finish_recovery_def Let_def view_apply_pending_through)

text \<open>
  C36. A limit of the background refresh: a write that is staged when the refresh begins, and whose
  slot is above the one the fetch returns, is in neither the fetched state nor the buffer. Once
  its slot is confirmed, the live updater would show the write, but the refreshed one shows what
  was fetched for the key.
\<close>

theorem refresh_drops_staged_write:
  assumes "updater_inv u" and "fst (queue k sl v a u)"
    and "confirmed_slot u < sl" and "context_slot f < sl"
  shows "let live = apply_state_event (AccountWrite k sl v a) (s, u);
      installed = install_refreshed_alt_state (Inr f) (serve_refresh_due (snd live) None) url live
    in om_get (accounts (snd (apply_state_event (ConfirmedSlot sl) live))) k = a \<and>
       om_get (accounts (snd (apply_state_event (ConfirmedSlot sl)
         (fst installed, fst (snd installed))))) k = om_get (fetched_accounts f) k"
proof -
  define live where "live = apply_state_event (AccountWrite k sl v a) (s, u)"
  define installed where "installed =
    install_refreshed_alt_state (Inr f) (serve_refresh_due (snd live) None) url live"
  have "om_get (accounts (snd (apply_state_event (ConfirmedSlot sl) live))) = view sl (snd live)"
    using assms(3) su.flush_new(2) [of "snd live" sl]
    by (simp add: snd_confirm su.feed_def live_def)
  then have "om_get (accounts (snd (apply_state_event (ConfirmedSlot sl) live))) k = a"
    using assms(1,2) by (simp add: live_def view_queue)
  moreover define su where "su = (fst live, from_fetched_alt_state url f)"
  obtain s' u' where finish: "finish_recovery su = (s', u')" by fastforce
  have "installed = (s', u', None)"
    by (simp add: installed_def serve_refresh_due_def refresh_start_def
        install_refreshed_alt_state_def finish [unfolded su_def])
  moreover have "confirmed_slot u' < sl" and "view sl u' = om_get (fetched_accounts f)"
    using finish_recovery_updater(1) [of su] finish_recovery_view [of su sl] assms(4)
    by (simp_all add: finish) (simp_all add: su_def view_from_fetched)
  then have "om_get (accounts (snd (apply_state_event (ConfirmedSlot sl) (s', u')))) k =
      om_get (fetched_accounts f) k"
    using su.flush_new(2) [of u' sl] by (simp add: snd_confirm)
  ultimately show ?thesis
    unfolding Let_def live_def [symmetric] installed_def [symmetric] by simp
qed

lemma refresh_drops_staged_write_witness:
  "let live = apply_state_event (AccountWrite (key_fill 1) 11 1 None)
         (new_store, from_fetched_alt_state ''one'' sample_fetched);
       installed = install_refreshed_alt_state (Inr sample_fetched)
         (serve_refresh_due (snd live) None) ''one'' live
    in om_get (accounts (snd (apply_state_event (ConfirmedSlot 11) live))) (key_fill 1) = None \<and>
       om_get (accounts (snd (apply_state_event (ConfirmedSlot 11)
         (fst installed, fst (snd installed))))) (key_fill 1) =
         om_get (fetched_accounts sample_fetched) (key_fill 1)"
  by (rule refresh_drops_staged_write [OF updater_inv_from_fetched])
    (simp_all add: queue_accepted sample_fetched_def)

end
