(* ===== verification/Config.thy ===== *)
theory Config
  imports Prelude
begin

text \<open>
  \<^verbatim>\<open>src/config.rs\<close>: the configuration of the service, the resolution of values given
  directly or through the environment, and the validation \<^verbatim>\<open>main\<close> makes before anything
  starts. Reading TOML is outside.
\<close>

section \<open>Data\<close>

text \<open>\<^verbatim>\<open>std::net::SocketAddr\<close>: an address, a port and, for IPv6, flow label and scope.\<close>

datatype socket_addr = V4 "32 word" "16 word" | V6 "128 word" "16 word" "32 word" "32 word"

record bootstrap_rpc =
  rpc_url :: "string option"
  rpc_url_env :: "string option"

record grpc_source =
  grpc_url :: "string option"
  grpc_url_env :: "string option"
  grpc_token :: "string option"
  grpc_token_env :: "string option"

record webhook_config =
  hook_url :: "string option"
  hook_url_env :: "string option"

record alerts_config =
  slack :: "webhook_config option"
  discord :: "webhook_config option"

record stdout_config =
  stdout_enabled :: bool
  stdout_level :: string
  enable_ansi :: bool

record file_config =
  file_enabled :: bool
  file_level :: string
  max_days :: usize
  log_dir :: string

record logging_config =
  log_stdout :: stdout_config
  log_file :: file_config

record config =
  http_addr :: socket_addr
  snapshot_grpc_addr :: socket_addr
  config_rpc :: bootstrap_rpc
  grpc_sources :: "grpc_source list"
  yellowstone_idle_timeout_secs :: u64
  full_refresh_interval_secs :: u64
  config_stream_capacity :: usize
  max_snapshot_page_size :: usize
  config_logging :: logging_config
  config_alerts :: alerts_config

section \<open>Defaults of omitted fields\<close>

definition default_idle_timeout :: u64 where
  "default_idle_timeout = 15"

definition default_refresh_interval :: u64 where
  "default_refresh_interval = 3600"

definition default_capacity :: usize where
  "default_capacity = 4096"

definition default_page_size :: usize where
  "default_page_size = 100000"

definition default_stdout :: stdout_config where
  "default_stdout = \<lparr>stdout_enabled = True, stdout_level = ''info'', enable_ansi = True\<rparr>"

definition default_file :: file_config where
  "default_file =
     \<lparr>file_enabled = False, file_level = ''info'', max_days = 30, log_dir = ''logs''\<rparr>"

definition default_logging :: logging_config where
  "default_logging = \<lparr>log_stdout = default_stdout, log_file = default_file\<rparr>"

definition default_alerts :: alerts_config where
  "default_alerts = \<lparr>slack = None, discord = None\<rparr>"

section \<open>Resolution of values\<close>

text \<open>
  The process environment as \<^verbatim>\<open>std::env::var\<close> shows it: \<open>None\<close> for a variable that is
  not set or not Unicode.
\<close>

type_synonym environment = "string \<Rightarrow> string option"

definition secret :: "environment \<Rightarrow> string \<Rightarrow> string result" where
  "secret env name =
     and_then (ok_or (EnvironmentMissing name) (env name)) (\<lambda>text.
       ensure (text \<noteq> []) (EnvironmentEmpty name) (Inr text))"

fun resolve_required ::
  "environment \<Rightarrow> string \<Rightarrow> string option \<Rightarrow> string option \<Rightarrow> string result" where
  "resolve_required env label (Some _) (Some _) = Inl (DirectAndEnvironment label)"
| "resolve_required env label (Some text) None =
     ensure (text \<noteq> []) (ValueEmpty label) (Inr text)"
| "resolve_required env label None (Some name) = secret env name"
| "resolve_required env label None None = Inl (ValueRequired label)"

fun resolve_optional ::
  "environment \<Rightarrow> string \<Rightarrow> string option \<Rightarrow> string option \<Rightarrow> string option result" where
  "resolve_optional env label (Some _) (Some _) = Inl (DirectAndEnvironment label)"
| "resolve_optional env label (Some text) None =
     ensure (text \<noteq> []) (ValueEmpty label) (Inr (Some text))"
| "resolve_optional env label None (Some name) =
     and_then (secret env name) (\<lambda>text. Inr (Some text))"
| "resolve_optional env label None None = Inr None"

definition resolve_rpc_url :: "environment \<Rightarrow> bootstrap_rpc \<Rightarrow> string result" where
  "resolve_rpc_url env r =
     resolve_required env ''bootstrap RPC URL'' (rpc_url r) (rpc_url_env r)"

definition resolve_source_url :: "environment \<Rightarrow> grpc_source \<Rightarrow> string result" where
  "resolve_source_url env s =
     resolve_required env ''gRPC source URL'' (grpc_url s) (grpc_url_env s)"

definition resolve_token :: "environment \<Rightarrow> grpc_source \<Rightarrow> string option result" where
  "resolve_token env s =
     resolve_optional env ''gRPC source token'' (grpc_token s) (grpc_token_env s)"

definition resolve_webhook :: "environment \<Rightarrow> string \<Rightarrow> webhook_config \<Rightarrow> string result" where
  "resolve_webhook env name h = resolve_required env name (hook_url h) (hook_url_env h)"

text \<open>An absent webhook is skipped, as \<^verbatim>\<open>if let\<close> and \<^verbatim>\<open>transpose\<close> do.\<close>

definition resolve_hook ::
  "environment \<Rightarrow> string \<Rightarrow> webhook_config option \<Rightarrow> string option result" where
  "resolve_hook env name h =
     (case h of None \<Rightarrow> Inr None
      | Some w \<Rightarrow> and_then (resolve_webhook env name w) (\<lambda>url. Inr (Some url)))"

section \<open>Validation\<close>

fun validate_sources :: "environment \<Rightarrow> string set \<Rightarrow> grpc_source list \<Rightarrow> unit result" where
  "validate_sources env urls [] = Inr ()"
| "validate_sources env urls (s # ss) =
     and_then (resolve_source_url env s) (\<lambda>url.
     ensure (url \<notin> urls) SourceUrlsNotUnique
    (and_then (resolve_token env s) (\<lambda>_.
       validate_sources env (insert url urls) ss)))"

definition validate :: "environment \<Rightarrow> config \<Rightarrow> unit result" where
  "validate env cfg =
     ensure (http_addr cfg \<noteq> snapshot_grpc_addr cfg) AddressesNotDifferent
    (ensure (grpc_sources cfg \<noteq> []) NoGrpcSource
    (ensure (config_stream_capacity cfg > 0) (NotPositive ''stream_capacity'')
    (ensure (max_snapshot_page_size cfg > 0) (NotPositive ''max_snapshot_page_size'')
    (ensure (yellowstone_idle_timeout_secs cfg > 0) (NotPositive ''yellowstone_idle_timeout_secs'')
    (ensure (full_refresh_interval_secs cfg > 0) (NotPositive ''full_refresh_interval_secs'')
    (ensure (max_days (log_file (config_logging cfg)) > 0) (NotPositive ''max_days'')
    (and_then (resolve_rpc_url env (config_rpc cfg)) (\<lambda>_.
     and_then (validate_sources env {} (grpc_sources cfg)) (\<lambda>_.
     and_then (resolve_hook env ''Slack webhook URL'' (slack (config_alerts cfg))) (\<lambda>_.
     and_then (resolve_hook env ''Discord webhook URL'' (discord (config_alerts cfg))) (\<lambda>_.
       Inr ())))))))))))"

section \<open>What resolution and validation guarantee\<close>

text \<open>A required value is given in exactly one of the two ways, and is never empty.\<close>

lemma secret_ok: "secret env name = Inr text \<longleftrightarrow> env name = Some text \<and> text \<noteq> []"
  by (cases "env name") (auto simp: secret_def ensure_eq_Inr)

lemma resolve_required_ok:
  "resolve_required env label direct var = Inr text \<longleftrightarrow>
     text \<noteq> [] \<and>
     (direct = Some text \<and> var = None \<or> direct = None \<and> (\<exists>name. var = Some name \<and> env name = Some text))"
  by (cases "(env, label, direct, var)" rule: resolve_required.cases)
    (auto simp: secret_ok ensure_eq_Inr)

lemma resolve_optional_required:
  "resolve_optional env label direct var =
     (if direct = None \<and> var = None then Inr None
      else and_then (resolve_required env label direct var) (\<lambda>text. Inr (Some text)))"
  by (cases "(env, label, direct, var)" rule: resolve_required.cases)
    (auto simp: ensure_def)

lemma collect_results_eq_Inr:
  "collect_results f xs = Inr ys \<longleftrightarrow> list_all2 (\<lambda>x y. f x = Inr y) xs ys"
proof (induction xs arbitrary: ys)
  case (Cons x xs)
  then show ?case by (cases ys) (auto simp: and_then_eq_Inr)
qed auto

text \<open>The loop over the sources computes their URLs, new and pairwise different.\<close>

lemma validate_sources_ok:
  "validate_sources env seen ss = Inr () \<longleftrightarrow>
     (\<exists>urls. collect_results (resolve_source_url env) ss = Inr urls \<and> distinct urls \<and>
       set urls \<inter> seen = {}) \<and>
     (\<forall>s \<in> set ss. is_ok (resolve_token env s))"
proof (induction ss arbitrary: seen)
  case (Cons s ss)
  show ?case
  proof (cases "resolve_source_url env s")
    case (Inr url)
    then show ?thesis
      by (cases "resolve_token env s"; cases "collect_results (resolve_source_url env) ss")
        (auto simp: Cons.IH ensure_eq_Inr)
  qed simp
qed simp

lemma source_urls_not_empty:
  "collect_results (resolve_source_url env) ss = Inr urls \<Longrightarrow> [] \<notin> set urls"
  by (auto simp: collect_results_eq_Inr resolve_source_url_def resolve_required_ok
      in_set_conv_nth list_all2_conv_all_nth)

lemma resolve_hook_ok:
  "is_ok (resolve_hook env name h) \<longleftrightarrow>
     (\<forall>w. h = Some w \<longrightarrow> is_ok (resolve_webhook env name w))"
proof (cases h)
  case (Some w)
  then show ?thesis by (cases "resolve_webhook env name w") (simp_all add: resolve_hook_def)
qed (simp add: resolve_hook_def)

text \<open>Validation accepts exactly the configurations that meet each of its conditions.\<close>

lemma validate_ok:
  "validate env cfg = Inr () \<longleftrightarrow>
     http_addr cfg \<noteq> snapshot_grpc_addr cfg \<and> grpc_sources cfg \<noteq> [] \<and>
     config_stream_capacity cfg > 0 \<and> max_snapshot_page_size cfg > 0 \<and>
     yellowstone_idle_timeout_secs cfg > 0 \<and> full_refresh_interval_secs cfg > 0 \<and>
     max_days (log_file (config_logging cfg)) > 0 \<and>
     is_ok (resolve_rpc_url env (config_rpc cfg)) \<and>
     (\<exists>urls. collect_results (resolve_source_url env) (grpc_sources cfg) = Inr urls \<and> distinct urls) \<and>
     (\<forall>s \<in> set (grpc_sources cfg). is_ok (resolve_token env s)) \<and>
     is_ok (resolve_hook env ''Slack webhook URL'' (slack (config_alerts cfg))) \<and>
     is_ok (resolve_hook env ''Discord webhook URL'' (discord (config_alerts cfg)))"
  by (cases "resolve_rpc_url env (config_rpc cfg)";
      cases "resolve_hook env ''Slack webhook URL'' (slack (config_alerts cfg))";
      cases "resolve_hook env ''Discord webhook URL'' (discord (config_alerts cfg))")
    (auto simp: validate_def ensure_eq_Inr and_then_eq_Inr validate_sources_ok)

end
