(* ===== verification/Yellowstone.thy ===== *)
theory Yellowstone
  imports Config Updater
begin

text \<open>
  \<^verbatim>\<open>src/yellowstone.rs\<close>: the task that keeps a subscription to one Yellowstone source and
  forwards what it yields to the updater. A stream is the list of items it yields before the task
  is cancelled; connecting is a parameter.
\<close>

section \<open>The subscription\<close>

text \<open>
  The fields of \<^verbatim>\<open>SubscribeRequest\<close> the code sets; \<open>'level\<close> is the generated
  \<^verbatim>\<open>CommitmentLevel\<close>.
\<close>

record account_filter =
  filter_owner :: "string list"

record slot_filter =
  filter_by_commitment :: "bool option"
  interslot_updates :: "bool option"

record 'level subscription =
  sub_accounts :: "string \<rightharpoonup> account_filter"
  sub_slots :: "string \<rightharpoonup> slot_filter"
  sub_commitment :: "'level option"

definition subscribe_request :: "crates \<Rightarrow> 'level \<Rightarrow> 'level subscription" where
  "subscribe_request c confirmed =
     \<lparr>sub_accounts = [''alt-owner'' \<mapsto> \<lparr>filter_owner = [program_id c]\<rparr>],
      sub_slots = [''confirmed'' \<mapsto> \<lparr>filter_by_commitment = Some True, interslot_updates = Some False\<rparr>],
      sub_commitment = Some confirmed\<rparr>"

section \<open>Stream items\<close>

text \<open>
  What \<^verbatim>\<open>stream.next()\<close> yields, with or without a timeout. \<open>Ping\<close> carries whether the answer
  could be queued (\<^verbatim>\<open>send_ping\<close>, a \<^verbatim>\<open>try_send\<close>), \<open>SlotUpdate\<close> whether the status is
  \<^verbatim>\<open>SlotConfirmed\<close>. \<open>StreamFailed\<close> is an idle timeout, a closed stream or an error status.
\<close>

datatype stream_item =
    Ping bool
  | AccountUpdate account_update
  | SlotUpdate u64 bool
  | OtherUpdate
  | StreamFailed error

section \<open>One session\<close>

text \<open>
  The channel to the updater: \<open>room\<close> is the number of events it takes before its receiver is
  dropped, which makes every later send fail. \<open>sent\<close> lists the events it took.
\<close>

definition send_event :: "nat \<Rightarrow> event \<Rightarrow> event list \<Rightarrow> event list result" where
  "send_event room ev sent = ensure (length sent < room) EventsClosed (Inr (sent @ [ev]))"

text \<open>One turn of the loop: an error, an event to forward, or nothing.\<close>

fun session_item :: "nat \<Rightarrow> stream_item \<Rightarrow> event option result" where
  "session_item source_id (Ping sent) = ensure sent PingNotSent (Inr None)"
| "session_item source_id (AccountUpdate update) = Inr (Some (AccountEvent source_id update))"
| "session_item source_id (SlotUpdate slot confirmed) =
     Inr (if confirmed then Some (ConfirmedEvent source_id slot) else None)"
| "session_item source_id OtherUpdate = Inr None"
| "session_item source_id (StreamFailed e) = Inl e"

text \<open>
  The loop ends with an error (\<open>Some\<close>), or it is still waiting for an item when the task is
  cancelled (\<open>None\<close>). It returns what the channel took meanwhile.
\<close>

fun session_items ::
  "nat \<Rightarrow> nat \<Rightarrow> stream_item list \<Rightarrow> event list \<Rightarrow> error option \<times> event list" where
  "session_items room source_id [] sent = (None, sent)"
| "session_items room source_id (i # is) sent =
     (case session_item source_id i of
        Inl e \<Rightarrow> (Some e, sent)
      | Inr None \<Rightarrow> session_items room source_id is sent
      | Inr (Some ev) \<Rightarrow>
          (case send_event room ev sent of
             Inl e \<Rightarrow> (Some e, sent)
           | Inr sent' \<Rightarrow> session_items room source_id is sent'))"

text \<open>
  What the source does in one attempt: whether it accepts a connection with a URL and a token and
  a subscription over it, and what its stream then yields.
\<close>

record attempt =
  att_connect :: "string \<Rightarrow> string option \<Rightarrow> unit result"
  att_items :: "stream_item list"

definition source_session ::
  "environment \<Rightarrow> nat \<Rightarrow> nat \<Rightarrow> grpc_source \<Rightarrow> string \<Rightarrow> attempt \<Rightarrow> event list \<Rightarrow>
   error option \<times> event list" where
  "source_session env room source_id source url att sent =
     (case and_then (resolve_token env source) (\<lambda>token.
           and_then (att_connect att url token) (\<lambda>_.
             send_event room (Connected source_id) sent)) of
        Inl e \<Rightarrow> (Some e, sent)
      | Inr sent' \<Rightarrow> session_items room source_id (att_items att) sent')"

section \<open>The task\<close>

text \<open>
  The loop of \<^verbatim>\<open>run\<close> over the attempts that begin before it is cancelled; the pause between
  two attempts has no effect of its own.
\<close>

fun run_attempts ::
  "environment \<Rightarrow> nat \<Rightarrow> nat \<Rightarrow> grpc_source \<Rightarrow> string \<Rightarrow> attempt list \<Rightarrow> event list \<Rightarrow> event list"
where
  "run_attempts env room source_id source url [] sent = sent"
| "run_attempts env room source_id source url (att # atts) sent =
     (case source_session env room source_id source url att sent of
        (None, sent') \<Rightarrow> sent'
      | (Some e, sent') \<Rightarrow>
          (case send_event room (Disconnected source_id) sent' of
             Inl _ \<Rightarrow> sent'
           | Inr sent'' \<Rightarrow> run_attempts env room source_id source url atts sent''))"

definition run_source ::
  "environment \<Rightarrow> nat \<Rightarrow> nat \<Rightarrow> grpc_source \<Rightarrow> attempt list \<Rightarrow> event list result" where
  "run_source env room source_id source atts =
     and_then (map_err (\<lambda>_. UnwrapPanic) (resolve_source_url env source)) (\<lambda>url.
       Inr (run_attempts env room source_id source url atts []))"

section \<open>What the task sends\<close>

text \<open>The events of the items before the first one that ends the session.\<close>

fun item_ok :: "stream_item \<Rightarrow> bool" where
  "item_ok (Ping sent) = sent"
| "item_ok (StreamFailed e) = False"
| "item_ok _ = True"

fun forwarded :: "nat \<Rightarrow> stream_item list \<Rightarrow> event list" where
  "forwarded i [] = []"
| "forwarded i (AccountUpdate update # is) = AccountEvent i update # forwarded i is"
| "forwarded i (SlotUpdate slot True # is) = ConfirmedEvent i slot # forwarded i is"
| "forwarded i (_ # is) = forwarded i is"

definition accepted :: "environment \<Rightarrow> grpc_source \<Rightarrow> string \<Rightarrow> attempt \<Rightarrow> bool" where
  "accepted env source url att \<longleftrightarrow>
     is_ok (and_then (resolve_token env source) (att_connect att url))"

definition attempt_events :: "environment \<Rightarrow> nat \<Rightarrow> grpc_source \<Rightarrow> string \<Rightarrow> attempt \<Rightarrow> event list" where
  "attempt_events env i source url att =
     (if accepted env source url att
      then Connected i # forwarded i (takeWhile item_ok (att_items att)) else []) @
     (if accepted env source url att \<and> list_all item_ok (att_items att) then []
      else [Disconnected i])"

text \<open>Cancellation finds at most the last attempt still going on.\<close>

fun all_events :: "environment \<Rightarrow> nat \<Rightarrow> grpc_source \<Rightarrow> string \<Rightarrow> attempt list \<Rightarrow> event list" where
  "all_events env i source url [] = []"
| "all_events env i source url (att # atts) =
     attempt_events env i source url att @
     (if accepted env source url att \<and> list_all item_ok (att_items att) then []
      else all_events env i source url atts)"

lemma send_event_simps:
  "length sent < room \<Longrightarrow> send_event room ev sent = Inr (sent @ [ev])"
  "\<not> length sent < room \<Longrightarrow> send_event room ev sent = Inl EventsClosed"
  by (simp_all add: send_event_def ensure_def)

text \<open>A full channel ends everything; otherwise sends append, so all is a prefix of what was due.\<close>

lemma session_items_eq:
  assumes "length sent \<le> room"
  shows "let es = sent @ forwarded i (takeWhile item_ok items);
             (out, sent') = session_items room i items sent in
      sent' = take room es \<and>
      (length es \<le> room \<longrightarrow> (out = None \<longleftrightarrow> list_all item_ok items)) \<and>
      (length es > room \<longrightarrow> out \<noteq> None)"
  using assms
proof (induction items arbitrary: sent)
  case (Cons x items)
  show ?case
  proof (cases x)
    case (AccountUpdate update)
    then show ?thesis
      using Cons.IH [of "sent @ [AccountEvent i update]"] Cons.prems
      by (cases "length sent < room") (auto simp: send_event_simps Let_def)
  next
    case (SlotUpdate slot confirmed)
    then show ?thesis
      using Cons.IH [of "sent @ [ConfirmedEvent i slot]"] Cons.IH [of sent] Cons.prems
      by (cases "confirmed"; cases "length sent < room") (auto simp: send_event_simps Let_def)
  next
    case (Ping s)
    then show ?thesis using Cons.IH [of sent] Cons.prems by (cases s) (auto simp: ensure_def Let_def)
  next
    case OtherUpdate
    then show ?thesis using Cons.IH [of sent] Cons.prems by (auto simp: Let_def)
  next
    case (StreamFailed e)
    then show ?thesis using Cons.prems by (auto simp: Let_def)
  qed
qed (simp add: Let_def)

lemma source_session_eq:
  assumes "length sent \<le> room"
  shows "let es = sent @ (if accepted env source url att
             then Connected i # forwarded i (takeWhile item_ok (att_items att)) else []);
             (out, sent') = source_session env room i source url att sent in
      sent' = take room es \<and>
      (length es \<le> room \<longrightarrow> (out = None \<longleftrightarrow> accepted env source url att \<and> list_all item_ok (att_items att))) \<and>
      (length es > room \<longrightarrow> out \<noteq> None)"
proof (cases "and_then (resolve_token env source) (att_connect att url)")
  case (Inl e)
  then have "and_then (resolve_token env source) (\<lambda>token. and_then (att_connect att url token)
      (\<lambda>_. send_event room (Connected i) sent)) = Inl e"
    by (cases "resolve_token env source") simp_all
  moreover have "\<not> accepted env source url att" by (simp add: accepted_def Inl)
  ultimately show ?thesis using assms by (simp add: source_session_def Let_def)
next
  case (Inr u)
  then have eq: "and_then (resolve_token env source) (\<lambda>token. and_then (att_connect att url token)
      (\<lambda>_. send_event room (Connected i) sent)) = send_event room (Connected i) sent"
    by (cases "resolve_token env source") simp_all
  have acc: "accepted env source url att" by (simp add: accepted_def Inr)
  show ?thesis
  proof (cases "length sent < room")
    case True
    then show ?thesis
      using session_items_eq [of "sent @ [Connected i]" room i "att_items att"] acc
      unfolding source_session_def eq by (simp add: send_event_simps Let_def)
  next
    case False
    then show ?thesis
      using assms acc unfolding source_session_def eq by (simp add: send_event_simps Let_def)
  qed
qed

lemma run_attempts_eq:
  "length sent \<le> room \<Longrightarrow>
     run_attempts env room i source url atts sent =
       take room (sent @ all_events env i source url atts)"
proof (induction atts arbitrary: sent)
  case (Cons att atts)
  let ?acc = "accepted env source url att"
  let ?body = "if ?acc then Connected i # forwarded i (takeWhile item_ok (att_items att)) else []"
  let ?ok = "?acc \<and> list_all item_ok (att_items att)"
  obtain out sent' where run: "source_session env room i source url att sent = (out, sent')"
    by fastforce
  have sent': "sent' = take room (sent @ ?body)"
    and out: "length (sent @ ?body) \<le> room \<Longrightarrow> out = None \<longleftrightarrow> ?ok"
    and full: "length (sent @ ?body) > room \<Longrightarrow> out \<noteq> None"
    using source_session_eq [OF Cons.prems, of env source url att i] by (simp_all add: run Let_def)
  show ?case
  proof (cases out)
    case None
    then have fits: "length (sent @ ?body) \<le> room" using full by (meson not_le)
    with None out have ?ok by simp
    with fits None sent' show ?thesis by (simp add: run attempt_events_def)
  next
    case (Some e)
    show ?thesis
    proof (cases "length (sent @ ?body) < room")
      case True
      with Some out have "\<not> ?ok" by simp
      with True Some sent' Cons.IH [of "sent' @ [Disconnected i]"] show ?thesis
        by (auto simp: run attempt_events_def send_event_simps take_Cons')
    next
      case False
      then have "length sent' = room" using sent' by simp
      with False Some sent' show ?thesis
        by (auto simp: run attempt_events_def send_event_simps)
    qed
  qed
qed simp

section \<open>The order of events\<close>

text \<open>
  An orderly source: nothing but \<open>Disconnected\<close> outside a session, and each session begins with
  \<open>Connected\<close> and ends with \<open>Disconnected\<close>.
\<close>

fun orderly :: "nat \<Rightarrow> bool \<Rightarrow> event list \<Rightarrow> bool" where
  "orderly i in_session [] = True"
| "orderly i in_session (Connected j # es) = (j = i \<and> \<not> in_session \<and> orderly i True es)"
| "orderly i in_session (Disconnected j # es) = (j = i \<and> orderly i False es)"
| "orderly i in_session (AccountEvent j update # es) = (j = i \<and> in_session \<and> orderly i in_session es)"
| "orderly i in_session (ConfirmedEvent j slot # es) = (j = i \<and> in_session \<and> orderly i in_session es)"

lemma orderly_take: "orderly i b es \<Longrightarrow> orderly i b (take n es)"
  by (induction i b es arbitrary: n rule: orderly.induct) (auto simp: take_Cons split: nat.split)

lemma orderly_forwarded: "orderly i True (forwarded i is @ es) \<longleftrightarrow> orderly i True es"
  by (induction i "is" rule: forwarded.induct) simp_all

lemma orderly_all_events: "orderly i False (all_events env i source url atts)"
proof (induction atts)
  case (Cons att atts)
  then show ?case
    using orderly_forwarded [of i _ "[]"] by (auto simp: attempt_events_def orderly_forwarded)
qed simp

section \<open>Properties\<close>

text \<open>
  C24. A source task never panics over its validated URL, and sends exactly this: for each attempt
  the source accepts, \<open>Connected\<close>, the account updates and confirmed slots of its stream in order
  up to the first failure (idle timeout, closed stream, unanswerable ping), then \<open>Disconnected\<close>;
  for a refused attempt only \<open>Disconnected\<close>; cut off where the receiver goes away. So updates
  are only ever sent inside a session.
\<close>

theorem source_events_orderly:
  assumes "resolve_source_url env source = Inr url"
  shows "run_source env room i source atts = Inr (take room (all_events env i source url atts)) \<and>
    orderly i False (take room (all_events env i source url atts))"
  using run_attempts_eq [of "[]" room env i source url atts]
  by (simp add: run_source_def assms orderly_take orderly_all_events)

definition sample_source :: grpc_source where
  "sample_source = \<lparr>grpc_url = Some ''one'', grpc_url_env = None, grpc_token = None,
     grpc_token_env = Some ''TOKEN''\<rparr>"

definition sample_env :: environment where
  "sample_env = [''TOKEN'' \<mapsto> ''secret'']"

definition sample_attempts :: "attempt list" where
  "sample_attempts =
     [\<lparr>att_connect = \<lambda>url token. Inl SourceTimedOut, att_items = []\<rparr>,
      \<lparr>att_connect = \<lambda>url token. if token = Some ''secret'' then Inr () else Inl SourceTimedOut,
       att_items = [Ping True, SlotUpdate 4 True, SlotUpdate 5 False, StreamFailed StreamClosed,
                    SlotUpdate 6 True]\<rparr>]"

lemma source_events_orderly_witness:
  "run_source sample_env 9 2 sample_source sample_attempts =
     Inr [Disconnected 2, Connected 2, ConfirmedEvent 2 4, Disconnected 2] \<and>
   orderly 2 False [Disconnected 2, Connected 2, ConfirmedEvent 2 4, Disconnected 2]"
  using source_events_orderly [of sample_env sample_source "''one''" 9 2 sample_attempts]
  by (simp add: sample_env_def sample_source_def sample_attempts_def resolve_source_url_def
      resolve_token_def secret_def ensure_def attempt_events_def accepted_def is_ok_def)

end
