(* ===== verification/Source_Traces.thy ===== *)
theory Source_Traces
  imports Lifecycle Yellowstone
begin

text \<open>
  The service together with its source tasks: a \<open>trace\<close> is a run of the updater's state machine
  with the list of events it received, and \<open>from_tasks\<close> says that each source's share of the list
  is what its task has sent. The service's set of connected sources is then the set of sources
  with an open session.
\<close>

section \<open>Traces\<close>

definition received :: "event option \<Rightarrow> event list" where
  "received l = (case l of None \<Rightarrow> [] | Some ev \<Rightarrow> [ev])"

inductive trace ::
  "crates \<Rightarrow> usize \<Rightarrow> string list \<Rightarrow> event list \<Rightarrow> machine \<Rightarrow> bool" for c capacity urls where
  trace_start: "trace c capacity urls [] (initial_machine capacity urls)"
| trace_step: "trace c capacity urls es m \<Longrightarrow> step c l m m' \<Longrightarrow>
    trace c capacity urls (es @ received l) m'"

lemma trace_reachable: "trace c capacity urls es m \<Longrightarrow> reachable c capacity urls m"
  by (induction rule: trace.induct) (auto intro: reachable.intros)

lemma trace_quiet: "trace c capacity urls es m \<Longrightarrow> step c None m m' \<Longrightarrow> trace c capacity urls es m'"
  using trace_step [of c capacity urls es m None m'] by (simp add: received_def)

lemma trace_heard:
  "trace c capacity urls es m \<Longrightarrow> step c (Some ev) m m' \<Longrightarrow> trace c capacity urls (es @ [ev]) m'"
  using trace_step [of c capacity urls es m "Some ev" m'] by (simp add: received_def)

text \<open>The share of one source comes from the task \<^verbatim>\<open>main\<close> spawned for it.\<close>

definition share :: "nat \<Rightarrow> event list \<Rightarrow> event list" where
  "share i es = filter (\<lambda>ev. event_source ev = i) es"

definition from_tasks :: "nat \<Rightarrow> event list \<Rightarrow> bool" where
  "from_tasks n es \<longleftrightarrow>
     (\<forall>i < n. \<exists>env room source atts rest. run_source env room i source atts = Inr (share i es @ rest))"

section \<open>The set of connected sources\<close>

fun track :: "event \<Rightarrow> nat set \<Rightarrow> nat set" where
  "track (Connected i) connected = insert i connected"
| "track (Disconnected i) connected = connected - {i}"
| "track (AccountEvent i update) connected = connected"
| "track (ConfirmedEvent i slot) connected = connected"

lemma connected_wait_event:
  "connected_sources (wait_event ev svc) = track ev (connected_sources svc)"
  by (cases ev) simp_all

lemma connected_enter [simp]:
  "connected_sources (m_service (enter m)) = connected_sources (m_service m)"
  "connected_sources (m_service (loop_top m)) = connected_sources (m_service m)"
  "connected_sources (m_service (give_up m)) = connected_sources (m_service m)"
  "connected_sources (m_service (shutdown m)) = connected_sources (m_service m)"
  by (simp_all add: loop_top_service give_up_def shutdown_def)

lemma connected_bootstrap_event:
  "case bootstrap_event c ev svc buffered of
     BootstrapContinue svc' b \<Rightarrow> connected_sources svc' = track ev (connected_sources svc)
   | BootstrapGiveUp svc' \<Rightarrow> connected_sources svc' = track ev (connected_sources svc)
   | BootstrapFail e \<Rightarrow> track ev (connected_sources svc) = connected_sources svc"
  by (cases ev) (auto simp: Let_def bootstrap_buffer_def split: sum.split)

lemma connected_serve_event:
  "case serve_event c ev svc su refresh of
     ServeContinue svc' s' u' r' \<Rightarrow> connected_sources svc' = track ev (connected_sources svc)
   | ServeRestart svc' \<Rightarrow> connected_sources svc' = track ev (connected_sources svc)"
  by (cases ev) (auto simp: Let_def serve_state_event_def split: sum.split prod.split)

lemma step_tracks:
  assumes "step c l m m'"
  shows "connected_sources (m_service m') = fold track (received l) (connected_sources (m_service m))"
  using assms
proof (induction rule: step.induct)
  case (wait_recv m ev)
  show ?case by (simp add: received_def wait_received_def connected_wait_event)
next
  case (boot_recv m url buffered ev)
  show ?case
    using connected_bootstrap_event [where c = c and ev = ev and svc = "m_service m" and buffered = buffered]
    by (auto simp: received_def bootstrap_received_def split: bootstrap_outcome.splits)
next
  case (serve_recv m url u refresh ev)
  show ?case
    using connected_serve_event [where c = c and ev = ev and svc = "m_service m" and su = "(m_store m, u)"
        and refresh = refresh]
    by (auto simp: received_def serve_received_def split: serve_outcome.splits)
qed (auto simp: received_def bootstrap_fetched_def serve_refreshed_def split: sum.split prod.split)

lemma trace_tracks: "trace c capacity urls es m \<Longrightarrow> connected_sources (m_service m) = fold track es {}"
proof (induction rule: trace.induct)
  case trace_start
  show ?case by (simp add: initial_machine_def)
next
  case (trace_step es m l m')
  with step_tracks show ?case by simp
qed

text \<open>A source is in the set when its last \<open>Connected\<close> was followed by no \<open>Disconnected\<close>.\<close>

lemma track_connected:
  "i \<in> fold track es {} \<longleftrightarrow>
     (\<exists>es1 es2. es = es1 @ Connected i # es2 \<and> Disconnected i \<notin> set es2)"
proof (induction es rule: rev_induct)
  case (snoc ev es)
  show ?case
  proof (cases "ev = Connected i")
    case True
    then show ?thesis by (auto intro: exI [of _ es] exI [of _ "[]"])
  next
    case False
    have "(\<exists>es1 es2. es @ [ev] = es1 @ Connected i # es2 \<and> Disconnected i \<notin> set es2) \<longleftrightarrow>
        ev \<noteq> Disconnected i \<and> (\<exists>es1 es2. es = es1 @ Connected i # es2 \<and> Disconnected i \<notin> set es2)"
      (is "?l \<longleftrightarrow> ?r")
    proof
      assume ?l
      then obtain es1 es2 where split: "es @ [ev] = es1 @ Connected i # es2" "Disconnected i \<notin> set es2"
        by blast
      with False obtain es3 where "es2 = es3 @ [ev]"
        by (cases es2 rule: rev_cases) auto
      with split show ?r by auto
    next
      assume ?r
      then show ?l by (metis Cons_eq_appendI append_assoc empty_iff empty_set in_set_conv_decomp
            insert_iff list.simps(15) set_append Un_iff)
    qed
    with False snoc show ?thesis by (cases ev) auto
  qed
qed simp

section \<open>Sessions in a share\<close>

lemma share_simps [simp]:
  "share i [] = []"
  "share i (ev # es) = (if event_source ev = i then ev # share i es else share i es)"
  "share i (es @ es') = share i es @ share i es'"
  by (simp_all add: share_def)

lemma orderly_append: "orderly i b (es @ es') \<Longrightarrow> orderly i b es"
  using orderly_take [of i b "es @ es'" "length es"] by simp

text \<open>Inside a session a source sends nothing but updates.\<close>

lemma orderly_within:
  "orderly i b es \<Longrightarrow> b \<Longrightarrow> Disconnected i \<notin> set es \<Longrightarrow> Connected i \<notin> set es"
  by (induction i b es rule: orderly.induct) auto

lemma orderly_after_connected: "orderly i b (es @ Connected i # es') \<Longrightarrow> orderly i True es'"
  by (induction i b es rule: orderly.induct) auto

lemma from_tasks_orderly:
  assumes "from_tasks n es" and "i < n"
  shows "orderly i False (share i es)"
proof -
  obtain env room source atts rest where run: "run_source env room i source atts = Inr (share i es @ rest)"
    using assms unfolding from_tasks_def by blast
  then obtain url where "resolve_source_url env source = Inr url"
    by (cases "resolve_source_url env source") (simp_all add: run_source_def)
  with run have "share i es @ rest = take room (all_events env i source url atts)"
    using run_attempts_eq [of "[]" room env i source url atts] by (simp add: run_source_def)
  then have "orderly i False (share i es @ rest)" by (simp add: orderly_take orderly_all_events)
  then show ?thesis by (rule orderly_append)
qed

section \<open>A sample trace\<close>

lemma sample_serving_trace:
  "trace c 10 [''one'', ''two''] [Connected 1, ConfirmedEvent 1 6] sample_serving"
proof -
  have "trace c 10 [''one'', ''two''] ([] @ [Connected 1]) sample_bootstrapping"
    unfolding sample_bootstrapping_def
    by (rule trace_heard [OF trace_start [of c 10 "[''one'', ''two'']", folded sample_waiting_def]],
        rule step.wait_recv)
      (simp_all add: sample_waiting_phase from_source_def)
  then have "trace c 10 [''one'', ''two''] (([] @ [Connected 1]) @ [ConfirmedEvent 1 6])
      (bootstrap_received c (ConfirmedEvent 1 6) ''two'' [] sample_bootstrapping)"
    by (rule trace_heard) (rule step.boot_recv; simp add: sample_bootstrapping_phase from_source_def)
  also have "bootstrap_received c (ConfirmedEvent 1 6) ''two'' [] sample_bootstrapping =
      sample_bootstrapping\<lparr>m_phase := Bootstrapping ''two'' [ConfirmedSlot 6]\<rparr>"
    by (simp add: bootstrap_received_def sample_bootstrapping_phase bootstrap_buffer_def)
  finally have "trace c 10 [''one'', ''two''] [Connected 1, ConfirmedEvent 1 6]
      (sample_bootstrapping\<lparr>m_phase := Bootstrapping ''two'' [ConfirmedSlot 6]\<rparr>)" by simp
  then show ?thesis
    unfolding sample_serving_def
    by (rule trace_quiet) (rule step.boot_fetched, simp, rule fetch_result_empty, simp)
qed

lemma sample_from_tasks: "from_tasks 2 [Connected 1, ConfirmedEvent 1 6]"
proof -
  let ?att = "\<lparr>att_connect = \<lambda>url token. Inr (), att_items = [SlotUpdate 6 True]\<rparr>"
  have "run_source sample_env 9 0 sample_source [] = Inr (share 0 [Connected 1, ConfirmedEvent 1 6] @ [])"
    by (simp add: run_source_def resolve_source_url_def sample_source_def ensure_def)
  moreover have "run_source sample_env 9 1 sample_source [?att] =
      Inr (share 1 [Connected 1, ConfirmedEvent 1 6] @ [])"
    by (simp add: run_source_def resolve_source_url_def sample_source_def ensure_def source_session_def
        resolve_token_def secret_def sample_env_def send_event_def)
  ultimately have runs: "\<exists>env room source atts rest. run_source env room i source atts =
      Inr (share i [Connected 1, ConfirmedEvent 1 6] @ rest)" if "i = 0 \<or> i = 1" for i
    using that by blast
  show ?thesis
    unfolding from_tasks_def
  proof (intro allI impI)
    fix i :: nat
    assume "i < 2"
    then have "i = 0 \<or> i = 1" by (simp add: less_2_cases_iff)
    then show "\<exists>env room source atts rest. run_source env room i source atts =
        Inr (share i [Connected 1, ConfirmedEvent 1 6] @ rest)"
      by (rule runs)
  qed
qed

section \<open>Properties\<close>

text \<open>
  C6. Readiness means an open session: in any run of the service against its source tasks, while
  the store is ready it names a source that has connected and not disconnected since, as far as
  the service has heard; and every event of that source received since belongs to that one
  session, with no reconnection in between.
\<close>

theorem ready_source_session_open:
  assumes "trace c capacity urls es m" and "from_tasks (length urls) es" and "urls \<noteq> []"
    and "ready (m_store m)"
  shows "\<exists>i < length urls. active_yellowstone_url (m_store m) = Some (urls ! i) \<and>
    (\<exists>es1 es2. es = es1 @ Connected i # es2 \<and>
      (\<forall>ev \<in> set es2. event_source ev = i \<longrightarrow> ev \<noteq> Connected i \<and> ev \<noteq> Disconnected i))"
proof -
  note reach = trace_reachable [OF assms(1)]
  have ok: "service_ok (m_service m)" using reachable_ok [OF reach assms(3)] by (simp add: machine_ok_def)
  let ?i = "active_source (m_service m)"
  have active: "?i \<in> connected_sources (m_service m)"
    "active_yellowstone_url (m_store m) = Some (urls ! ?i)"
    using ready_active [OF reachable_ok [OF reach assms(3)] assms(4)] reachable_configuration [OF reach]
    by simp_all
  have less: "?i < length urls" using ok reachable_configuration [OF reach] by (simp add: service_ok_def)
  from active(1) trace_tracks [OF assms(1)] obtain es1 es2
    where es: "es = es1 @ Connected ?i # es2" and open_since: "Disconnected ?i \<notin> set es2"
    using track_connected by auto
  have "orderly ?i True (share ?i es2)"
    using orderly_after_connected [of ?i False "share ?i es1" "share ?i es2"]
      from_tasks_orderly [OF assms(2) less] es by simp
  then have "Connected ?i \<notin> set (share ?i es2)"
    using orderly_within open_since by (fastforce simp: share_def)
  then have "\<forall>ev \<in> set es2. event_source ev = ?i \<longrightarrow> ev \<noteq> Connected ?i \<and> ev \<noteq> Disconnected ?i"
    using open_since by (auto simp: share_def)
  with active(2) less es show ?thesis by blast
qed

lemma ready_source_session_open_witness:
  "\<exists>i es1 es2. active_yellowstone_url (m_store sample_serving) = Some ([''one'', ''two''] ! i) \<and>
     [Connected 1, ConfirmedEvent 1 6] = es1 @ Connected i # es2"
proof -
  have "from_tasks (length [''one'', ''two'']) [Connected 1, ConfirmedEvent 1 6]"
    using sample_from_tasks by (simp add: numeral_2_eq_2)
  then show ?thesis
    using ready_source_session_open [OF sample_serving_trace [of sample_crates]] sample_serving_phase(3)
    by blast
qed

end
