(* ===== verification/Alerts.thy ===== *)
theory Alerts
  imports Config
begin

text \<open>
  \<^verbatim>\<open>src/logging.rs\<close>: the choice of log outputs, and the alerts: a bounded queue that \<^verbatim>\<open>alert\<close> fills without waiting
  and one thread that empties it, posting to every webhook but at most once a minute. HTTP
  requests are recorded, not performed; their failure is only logged.
\<close>

section \<open>Log outputs\<close>

text \<open>
  The layers given to the registry. Parsing a filter, opening the rolling file and registering
  are the libraries': \<open>filter_ok\<close>, \<open>appender_ok\<close> and \<open>registered\<close> say whether they succeed.
\<close>

datatype log_layer = CompactStdout bool string | DailyJsonFile string string usize string

definition stdout_layer :: "(string \<Rightarrow> bool) \<Rightarrow> stdout_config \<Rightarrow> log_layer list result" where
  "stdout_layer filter_ok cfg =
     (if stdout_enabled cfg
      then ensure (filter_ok (stdout_level cfg)) (Dependency ''log filter'')
             (Inr [CompactStdout (enable_ansi cfg) (stdout_level cfg)])
      else Inr [])"

definition file_layer ::
  "(string \<Rightarrow> bool) \<Rightarrow> (string \<Rightarrow> bool) \<Rightarrow> file_config \<Rightarrow> log_layer list result" where
  "file_layer filter_ok appender_ok cfg =
     (if file_enabled cfg
      then ensure (appender_ok (log_dir cfg)) (Dependency ''log file'')
          (ensure (filter_ok (file_level cfg)) (Dependency ''log filter'')
             (Inr [DailyJsonFile ''alt-cache'' (log_dir cfg) (max_days cfg) (file_level cfg)]))
      else Inr [])"

definition init_logging ::
  "(string \<Rightarrow> bool) \<Rightarrow> (string \<Rightarrow> bool) \<Rightarrow> bool \<Rightarrow> logging_config \<Rightarrow> log_layer list result" where
  "init_logging filter_ok appender_ok registered cfg =
     and_then (stdout_layer filter_ok (log_stdout cfg)) (\<lambda>out.
     and_then (file_layer filter_ok appender_ok (log_file cfg)) (\<lambda>file.
       ensure registered (Dependency ''subscriber'') (Inr (out @ file))))"

text \<open>Only the enabled outputs can make it fail.\<close>

lemma init_logging_ok:
  "(\<exists>layers. init_logging filter_ok appender_ok registered cfg = Inr layers) \<longleftrightarrow>
     registered \<and> (stdout_enabled (log_stdout cfg) \<longrightarrow> filter_ok (stdout_level (log_stdout cfg))) \<and>
     (file_enabled (log_file cfg) \<longrightarrow>
        filter_ok (file_level (log_file cfg)) \<and> appender_ok (log_dir (log_file cfg)))"
  by (auto simp: init_logging_def stdout_layer_def file_layer_def ensure_def)

section \<open>Targets\<close>

datatype alert_target = SlackTarget string | DiscordTarget string

fun target_name :: "alert_target \<Rightarrow> string" where
  "target_name (SlackTarget _) = ''slack''"
| "target_name (DiscordTarget _) = ''discord''"

fun target_url :: "alert_target \<Rightarrow> string" where
  "target_url (SlackTarget url) = url"
| "target_url (DiscordTarget url) = url"

text \<open>A JSON object with one text member.\<close>

fun payload :: "alert_target \<Rightarrow> string \<Rightarrow> string \<times> string" where
  "payload (SlackTarget _) text = (''text'', text)"
| "payload (DiscordTarget _) text = (''content'', text)"

definition alert_targets :: "string option \<Rightarrow> string option \<Rightarrow> alert_target list" where
  "alert_targets slack_url discord_url =
     (case slack_url of Some url \<Rightarrow> [SlackTarget url] | None \<Rightarrow> []) @
     (case discord_url of Some url \<Rightarrow> [DiscordTarget url] | None \<Rightarrow> [])"

section \<open>The queue and its thread\<close>

text \<open>
  \<open>al_sender\<close> is whether there is a queue and a thread at all, \<open>al_last\<close> the thread's variable
  \<^verbatim>\<open>last\<close>, \<open>al_posts\<close> the requests made so far, in order.
\<close>

record post =
  post_at :: instant
  post_url :: string
  post_json :: "string \<times> string"

record alerts =
  al_targets :: "alert_target list"
  al_sender :: bool
  al_queue :: "string list"
  al_last :: "instant option"
  al_posts :: "post list"

definition queue_capacity :: nat where
  "queue_capacity = 32"

definition rate_limit :: nat where
  "rate_limit = seconds 60"

text \<open>
  The static \<^verbatim>\<open>ALERTS\<close> is set once; \<open>None\<close> is before that. \<open>spawned\<close> is the outcome of spawning
  the thread, which is asked for only when there is a target.
\<close>

definition init_alerts ::
  "string option \<Rightarrow> string option \<Rightarrow> unit result \<Rightarrow> alerts option \<Rightarrow> alerts option result" where
  "init_alerts slack_url discord_url spawned static =
     (let targets = alert_targets slack_url discord_url in
      and_then (if targets = [] then Inr () else spawned) (\<lambda>_.
      ensure (static = None) AlertsInitialized
        (Inr (Some \<lparr>al_targets = targets, al_sender = (targets \<noteq> []), al_queue = [],
                    al_last = None, al_posts = []\<rparr>))))"

definition alert :: "string \<Rightarrow> alerts \<Rightarrow> alerts" where
  "alert text st =
     (if \<not> al_sender st then st
      else if length (al_queue st) < queue_capacity then st\<lparr>al_queue := al_queue st @ [text]\<rparr>
      else st)"

definition announce :: "alert_target list \<Rightarrow> instant \<Rightarrow> string \<Rightarrow> post list" where
  "announce targets now text =
     map (\<lambda>t. \<lparr>post_at = now, post_url = target_url t, post_json = payload t text\<rparr>) targets"

text \<open>One turn of the thread's loop, when the queue holds a text.\<close>

definition deliver :: "instant \<Rightarrow> alerts \<Rightarrow> alerts" where
  "deliver now st =
     (case al_queue st of
        [] \<Rightarrow> st
      | text # rest \<Rightarrow>
          if (case al_last st of None \<Rightarrow> False | Some at \<Rightarrow> elapsed now at < rate_limit)
          then st\<lparr>al_queue := rest\<rparr>
          else st\<lparr>al_queue := rest, al_last := Some now,
                  al_posts := al_posts st @ announce (al_targets st) now text\<rparr>)"

datatype alert_op = Raise string | Deliver instant

fun alert_step :: "alert_op \<Rightarrow> alerts \<Rightarrow> alerts" where
  "alert_step (Raise text) st = alert text st"
| "alert_step (Deliver now) st = deliver now st"

section \<open>The invariant\<close>

text \<open>
  \<open>ds\<close> lists the deliveries, each to all targets; the thread's \<open>last\<close> is the latest of them, and
  they are a minute apart.
\<close>

definition delivered :: "alerts \<Rightarrow> (instant \<times> string) list \<Rightarrow> bool" where
  "delivered st ds \<longleftrightarrow>
     al_posts st = concat (map (\<lambda>(now, text). announce (al_targets st) now text) ds) \<and>
     al_last st = (if ds = [] then None else Some (fst (last ds))) \<and>
     sorted_wrt (\<lambda>a b. fst a + rate_limit \<le> fst b) ds \<and>
     length (al_queue st) \<le> queue_capacity \<and>
     (al_sender st \<longleftrightarrow> al_targets st \<noteq> []) \<and> (\<not> al_sender st \<longrightarrow> al_queue st = [])"

lemma delivered_last:
  "delivered st ds \<Longrightarrow> d \<in> set ds \<Longrightarrow> \<exists>at. al_last st = Some at \<and> fst d \<le> at"
proof -
  assume inv: "delivered st ds" and d: "d \<in> set ds"
  then obtain es e where ds: "ds = es @ [e]" by (metis empty_iff empty_set rev_exhaust)
  with inv d have "d = e \<or> fst d + rate_limit \<le> fst e"
    by (auto simp: delivered_def sorted_wrt_append)
  with inv ds show ?thesis by (auto simp: delivered_def)
qed

lemma delivered_alert: "delivered st ds \<Longrightarrow> delivered (alert text st) ds"
  by (auto simp: delivered_def alert_def)

text \<open>A turn delivers exactly when all earlier deliveries are a minute old.\<close>

lemma delivered_deliver:
  assumes inv: "delivered st ds" and queue: "al_queue st = text # rest"
  shows "(\<forall>d \<in> set ds. fst d + rate_limit \<le> now) \<Longrightarrow>
      al_posts (deliver now st) = al_posts st @ announce (al_targets st) now text \<and>
      delivered (deliver now st) (ds @ [(now, text)])"
    and "\<not> (\<forall>d \<in> set ds. fst d + rate_limit \<le> now) \<Longrightarrow>
      deliver now st = st\<lparr>al_queue := rest\<rparr> \<and> delivered (deliver now st) ds"
proof -
  have old: "(case al_last st of None \<Rightarrow> False | Some at \<Rightarrow> elapsed now at < rate_limit) \<longleftrightarrow>
      \<not> (\<forall>d \<in> set ds. fst d + rate_limit \<le> now)"
  proof (cases "ds = []")
    case True
    then show ?thesis using inv by (simp add: delivered_def)
  next
    case False
    then have at: "al_last st = Some (fst (last ds))" using inv by (simp add: delivered_def)
    have "fst d \<le> fst (last ds)" if "d \<in> set ds" for d
      using delivered_last [OF inv that] at by simp
    then have "(\<forall>d \<in> set ds. fst d + rate_limit \<le> now) \<longleftrightarrow> fst (last ds) + rate_limit \<le> now"
      using False by (meson add_le_mono1 last_in_set le_trans)
    moreover have "elapsed now (fst (last ds)) < rate_limit \<longleftrightarrow> \<not> fst (last ds) + rate_limit \<le> now"
      by (auto simp: elapsed_def rate_limit_def seconds_def)
    ultimately show ?thesis by (simp add: at)
  qed
  show "al_posts (deliver now st) = al_posts st @ announce (al_targets st) now text \<and>
      delivered (deliver now st) (ds @ [(now, text)])"
    if "\<forall>d \<in> set ds. fst d + rate_limit \<le> now"
    using inv queue old that unfolding deliver_def delivered_def by (auto simp: sorted_wrt_append)
  show "deliver now st = st\<lparr>al_queue := rest\<rparr> \<and> delivered (deliver now st) ds"
    if "\<not> (\<forall>d \<in> set ds. fst d + rate_limit \<le> now)"
    using inv queue old that unfolding deliver_def delivered_def by auto
qed

lemma delivered_step:
  assumes "delivered st ds"
  shows "\<exists>ds'. delivered (alert_step op st) ds'"
proof (cases op)
  case (Raise msg)
  with assms show ?thesis by (auto intro: delivered_alert)
next
  case (Deliver now)
  show ?thesis
  proof (cases "al_queue st")
    case Nil
    with assms Deliver show ?thesis by (auto simp: deliver_def)
  next
    case (Cons msg rest)
    from delivered_deliver [OF assms this, of now] Deliver show ?thesis by auto
  qed
qed

lemma delivered_run: "delivered st ds \<Longrightarrow> \<exists>ds'. delivered (fold alert_step ops st) ds'"
proof (induction ops arbitrary: st ds)
  case (Cons op ops)
  then show ?case using delivered_step [OF Cons.prems, of op] by auto
qed auto

lemma alert_step_targets: "al_targets (fold alert_step ops st) = al_targets st"
proof (induction ops arbitrary: st)
  case (Cons op ops)
  have "al_targets (alert_step op st) = al_targets st"
    by (cases op) (auto simp: alert_def deliver_def split: list.split)
  with Cons show ?case by simp
qed simp

lemma init_alerts_ok:
  "init_alerts s d spawned static = Inr (Some st) \<longleftrightarrow>
     static = None \<and> (alert_targets s d \<noteq> [] \<longrightarrow> spawned = Inr ()) \<and>
     st = \<lparr>al_targets = alert_targets s d, al_sender = (alert_targets s d \<noteq> []), al_queue = [],
           al_last = None, al_posts = []\<rparr>"
  by (auto simp: init_alerts_def Let_def ensure_def and_then_eq_Inr)

section \<open>Properties\<close>

text \<open>
  C30. Alerts are rate limited and bounded: whatever is raised and however the thread is scheduled,
  the webhooks were called in deliveries, each to every configured webhook in its own format,
  any two of them at least a minute apart; never more than 32 alerts wait; and the next
  waiting alert is delivered exactly when every delivery so far is at least a minute old, and
  discarded otherwise.
\<close>

theorem alerts_rate_limited:
  assumes "init_alerts s d spawned None = Inr (Some st0)" and "st = fold alert_step ops st0"
  shows "\<exists>ds. al_posts st = concat (map (\<lambda>(now, text). announce (alert_targets s d) now text) ds) \<and>
    sorted_wrt (\<lambda>a b. fst a + seconds 60 \<le> fst b) ds \<and> length (al_queue st) \<le> 32 \<and>
    (\<forall>text rest now. al_queue st = text # rest \<longrightarrow>
       al_queue (deliver now st) = rest \<and>
       al_posts (deliver now st) = al_posts st @
         (if \<forall>x \<in> set ds. fst x + seconds 60 \<le> now
          then announce (alert_targets s d) now text else []))"
proof -
  have "delivered st0 []" using assms(1) by (simp add: init_alerts_ok delivered_def)
  from delivered_run [OF this] assms(2) obtain ds where inv: "delivered st ds" by blast
  have targets: "al_targets st = alert_targets s d"
    using assms by (simp add: alert_step_targets init_alerts_ok)
  have "al_queue (deliver now st) = rest \<and>
      al_posts (deliver now st) = al_posts st @
        (if \<forall>x \<in> set ds. fst x + seconds 60 \<le> now
         then announce (alert_targets s d) now msg else [])"
    if "al_queue st = msg # rest" for msg rest now
    using delivered_deliver [OF inv that, of now] that targets
    by (auto simp: rate_limit_def deliver_def)
  with inv show ?thesis
    unfolding delivered_def queue_capacity_def rate_limit_def targets by (intro exI [of _ ds]) blast
qed

definition sample_alerts :: alerts where
  "sample_alerts = \<lparr>al_targets = [SlackTarget ''url''], al_sender = True, al_queue = [],
     al_last = None, al_posts = []\<rparr>"

definition sample_alert_ops :: "alert_op list" where
  "sample_alert_ops =
     [Raise ''a'', Raise ''b'', Deliver 5, Deliver (seconds 30), Raise ''c'', Deliver (seconds 70), Raise ''d'']"

lemma alerts_rate_limited_witness:
  "\<exists>ds. al_posts (fold alert_step sample_alert_ops sample_alerts) =
      concat (map (\<lambda>(now, text). announce [SlackTarget ''url''] now text) ds) \<and>
    sorted_wrt (\<lambda>a b. fst a + seconds 60 \<le> fst b) ds \<and>
    al_posts (fold alert_step sample_alert_ops sample_alerts) =
     [\<lparr>post_at = 5, post_url = ''url'', post_json = (''text'', ''a'')\<rparr>,
      \<lparr>post_at = seconds 70, post_url = ''url'', post_json = (''text'', ''c'')\<rparr>]"
proof -
  have init: "init_alerts (Some ''url'') None (Inr ()) None = Inr (Some sample_alerts)"
    by (simp add: init_alerts_ok sample_alerts_def alert_targets_def)
  have "al_posts (fold alert_step sample_alert_ops sample_alerts) =
     [\<lparr>post_at = 5, post_url = ''url'', post_json = (''text'', ''a'')\<rparr>,
      \<lparr>post_at = seconds 70, post_url = ''url'', post_json = (''text'', ''c'')\<rparr>]"
    by (simp add: sample_alert_ops_def sample_alerts_def alert_def deliver_def announce_def
        queue_capacity_def elapsed_def rate_limit_def seconds_def)
  moreover from alerts_rate_limited [OF init refl, of sample_alert_ops]
  have "\<exists>ds. al_posts (fold alert_step sample_alert_ops sample_alerts) =
      concat (map (\<lambda>(now, text). announce [SlackTarget ''url''] now text) ds) \<and>
    sorted_wrt (\<lambda>a b. fst a + seconds 60 \<le> fst b) ds"
    by (auto simp: alert_targets_def)
  ultimately show ?thesis by blast
qed

end
