(* ===== verification/Snapshot_Stream.thy ===== *)
theory Snapshot_Stream
  imports Paging
begin

text \<open>
  \<^verbatim>\<open>src/api/grpc.rs\<close>: the binary snapshot stream. The messages are those of
  \<^verbatim>\<open>proto/alt_snapshot.proto\<close>; \<open>encoded_len\<close>, the size \<^verbatim>\<open>prost\<close> gives a chunk on the
  wire, is a parameter, and nothing below depends on which function it is. A receiver that goes
  away ends the stream early: it has read a prefix of the chunks.
\<close>

section \<open>Messages\<close>

record alt_account =
  alt_pubkey :: "byte list"
  alt_data :: "byte list"

record snapshot_chunk =
  chunk_confirmed_slot :: u64
  chunk_total_accounts :: u64
  chunk_accounts :: "alt_account list"

definition target_chunk_bytes :: nat where
  "target_chunk_bytes = 2 * 1024 * 1024"

section \<open>The stream\<close>

definition empty_chunk :: "read_snapshot_result \<Rightarrow> snapshot_chunk" where
  "empty_chunk snapshot =
     \<lparr>chunk_confirmed_slot = read_slot snapshot,
      chunk_total_accounts = of_nat (om_len (read_accounts snapshot)),
      chunk_accounts = []\<rparr>"

definition add_account :: "key \<times> account \<Rightarrow> snapshot_chunk \<Rightarrow> snapshot_chunk" where
  "add_account e chunk =
     chunk\<lparr>chunk_accounts := chunk_accounts chunk @
       [\<lparr>alt_pubkey = key_bytes (fst e), alt_data = data (account_value (snd e))\<rparr>]\<rparr>"

text \<open>The loop over the accounts, with the chunk being filled; it ends with the chunk left over.\<close>

fun send_chunks ::
  "(snapshot_chunk \<Rightarrow> nat) \<Rightarrow> read_snapshot_result \<Rightarrow> (key \<times> account) list \<Rightarrow> snapshot_chunk \<Rightarrow>
   snapshot_chunk list" where
  "send_chunks encoded_len snapshot [] chunk =
     (if chunk_accounts chunk \<noteq> [] \<or> om_len (read_accounts snapshot) = 0 then [chunk] else [])"
| "send_chunks encoded_len snapshot (e # es) chunk =
     (let chunk' = add_account e chunk in
      if target_chunk_bytes \<le> encoded_len chunk'
      then chunk' # send_chunks encoded_len snapshot es (empty_chunk snapshot)
      else send_chunks encoded_len snapshot es chunk')"

definition stream_snapshot ::
  "(snapshot_chunk \<Rightarrow> nat) \<Rightarrow> store \<Rightarrow> snapshot_chunk list result" where
  "stream_snapshot encoded_len s =
     and_then (read_snapshot s) (\<lambda>snapshot.
       Inr (send_chunks encoded_len snapshot (om_items (read_accounts snapshot))
              (empty_chunk snapshot)))"

section \<open>What the chunks carry\<close>

definition wire_account :: "key \<times> account \<Rightarrow> alt_account" where
  "wire_account e =
     \<lparr>alt_pubkey = key_bytes (fst e), alt_data = data (account_value (snd e))\<rparr>"

text \<open>A chunk of the snapshot: its slot and total are the snapshot's.\<close>

definition chunk_of :: "read_snapshot_result \<Rightarrow> snapshot_chunk \<Rightarrow> bool" where
  "chunk_of snapshot ch \<longleftrightarrow>
     chunk_confirmed_slot ch = read_slot snapshot \<and>
     chunk_total_accounts ch = of_nat (om_len (read_accounts snapshot))"

lemma chunk_of_simps [simp]:
  "chunk_of snapshot (empty_chunk snapshot)"
  "chunk_of snapshot (add_account e ch) = chunk_of snapshot ch"
  "chunk_accounts (empty_chunk snapshot) = []"
  "chunk_accounts (add_account e ch) = chunk_accounts ch @ [wire_account e]"
  by (simp_all add: chunk_of_def empty_chunk_def add_account_def wire_account_def)

lemma send_chunks_of:
  "chunk_of snapshot ch \<Longrightarrow> \<forall>x \<in> set (send_chunks len snapshot es ch). chunk_of snapshot x"
  by (induction len snapshot es ch rule: send_chunks.induct) (auto simp: Let_def)

lemma send_chunks_accounts:
  "concat (map chunk_accounts (send_chunks len snapshot es ch)) = chunk_accounts ch @ map wire_account es"
  by (induction len snapshot es ch rule: send_chunks.induct) (auto simp: Let_def)

lemma send_chunks_not_empty:
  "chunk_accounts ch \<noteq> [] \<or> es \<noteq> [] \<or> om_len (read_accounts snapshot) = 0 \<Longrightarrow>
   send_chunks len snapshot es ch \<noteq> []"
  by (induction len snapshot es ch rule: send_chunks.induct) (auto simp: Let_def)

text \<open>A chunk was below the target before its last account went in.\<close>

definition below_target :: "(snapshot_chunk \<Rightarrow> nat) \<Rightarrow> snapshot_chunk \<Rightarrow> bool" where
  "below_target encoded_len ch \<longleftrightarrow>
     length (chunk_accounts ch) \<le> 1 \<or>
     encoded_len (ch\<lparr>chunk_accounts := butlast (chunk_accounts ch)\<rparr>) < target_chunk_bytes"

lemma add_account_below:
  assumes "chunk_accounts ch = [] \<or> encoded_len ch < target_chunk_bytes"
  shows "below_target encoded_len (add_account e ch)"
  using assms by (auto simp: below_target_def add_account_def)

lemma send_chunks_below:
  assumes "chunk_accounts ch = [] \<or> encoded_len ch < target_chunk_bytes"
    and "below_target encoded_len ch"
  shows "\<forall>x \<in> set (send_chunks encoded_len snapshot es ch). below_target encoded_len x"
  using assms
proof (induction encoded_len snapshot es ch rule: send_chunks.induct)
  case (2 encoded_len snapshot e es ch)
  have "below_target encoded_len (add_account e ch)"
    using 2(3) by (rule add_account_below)
  moreover have "below_target encoded_len (empty_chunk snapshot)"
    by (simp add: below_target_def)
  ultimately show ?case using 2(1,2) by (auto simp: Let_def)
qed simp

end
