(* ===== verification/Download.thy ===== *)
theory Download
  imports Snapshot_Stream
begin

text \<open>
  The client's half of the snapshot stream, \<^verbatim>\<open>SnapshotDownload\<close> in \<^verbatim>\<open>src/client.rs\<close>: chunks
  are checked against the first one and decoded into the table map, whose size must match the
  announced total at the end. The \<^verbatim>\<open>DashMap\<close> is an \<open>omap\<close>: its iteration order is never
  observed.
\<close>

section \<open>State\<close>

text \<open>\<^verbatim>\<open>solana_message::AddressLookupTableAccount\<close>.\<close>

record lookup_table =
  table_key :: key
  table_addresses :: "key list"

type_synonym tables = "(key, lookup_table) omap"

record snapshot_download =
  dl_slot :: "u64 option"
  dl_total_accounts :: "u64 option"
  dl_tables :: "tables option"
  dl_chunks :: u64
  dl_payload_bytes :: u64

record completed_snapshot =
  done_slot :: u64
  done_tables :: tables
  done_chunks :: u64
  done_payload_bytes :: u64

definition new_download :: snapshot_download where
  "new_download =
     \<lparr>dl_slot = None, dl_total_accounts = None, dl_tables = None, dl_chunks = 0,
      dl_payload_bytes = 0\<rparr>"

section \<open>Operations\<close>

text \<open>\<^verbatim>\<open>Option::get_or_insert\<close>, its value.\<close>

definition get_or :: "'a \<Rightarrow> 'a option \<Rightarrow> 'a" where
  "get_or d x = (case x of None \<Rightarrow> d | Some y \<Rightarrow> y)"

definition decode_entry ::
  "crates \<Rightarrow> alt_account \<Rightarrow> tables \<times> u64 \<Rightarrow> (tables \<times> u64) result" where
  "decode_entry c acc st =
     (let (tables, payload) = st in
      and_then (ok_or InvalidAddress (key_of_bytes (alt_pubkey acc))) (\<lambda>key.
      and_then (ok_or InvalidAltData (alt_deserialize c (alt_data acc))) (\<lambda>addresses.
        Inr (om_insert key \<lparr>table_key = key, table_addresses = addresses\<rparr> tables,
             payload + of_nat (length (alt_pubkey acc) + length (alt_data acc))))))"

fun decode_entries ::
  "crates \<Rightarrow> alt_account list \<Rightarrow> tables \<times> u64 \<Rightarrow> (tables \<times> u64) result" where
  "decode_entries c [] st = Inr st"
| "decode_entries c (acc # accs) st = and_then (decode_entry c acc st) (decode_entries c accs)"

text \<open>
  On an error the download is dropped, so only the state after a success matters.
  \<^verbatim>\<open>usize::try_from(u64)\<close> cannot fail on the 64-bit target.
\<close>

definition push :: "crates \<Rightarrow> snapshot_chunk \<Rightarrow> snapshot_download \<Rightarrow> snapshot_download result" where
  "push c chunk d =
     (let first_slot = get_or (chunk_confirmed_slot chunk) (dl_slot d);
          expected = get_or (chunk_total_accounts chunk) (dl_total_accounts d)
      in ensure (chunk_confirmed_slot chunk = first_slot)
           (SnapshotSlotChanged first_slot (chunk_confirmed_slot chunk))
        (ensure (chunk_total_accounts chunk = expected)
           (SnapshotCountChanged expected (chunk_total_accounts chunk))
          (and_then (decode_entries c (chunk_accounts chunk)
                       (get_or om_empty (dl_tables d), dl_payload_bytes d))
            (\<lambda>(tables, payload).
              Inr \<lparr>dl_slot = Some first_slot, dl_total_accounts = Some expected,
                   dl_tables = Some tables, dl_chunks = dl_chunks d + 1,
                   dl_payload_bytes = payload\<rparr>))))"

fun push_all ::
  "crates \<Rightarrow> snapshot_chunk list \<Rightarrow> snapshot_download \<Rightarrow> snapshot_download result" where
  "push_all c [] d = Inr d"
| "push_all c (ch # chs) d = and_then (push c ch d) (push_all c chs)"

text \<open>The two \<^verbatim>\<open>unwrap\<close> calls would panic on \<open>None\<close>; \<open>push\<close> sets all three fields together.\<close>

definition finish :: "snapshot_download \<Rightarrow> completed_snapshot result" where
  "finish d =
     and_then (ok_or SnapshotStreamEmpty (dl_slot d)) (\<lambda>slot.
     and_then (ok_or UnwrapPanic (dl_total_accounts d)) (\<lambda>total.
     and_then (ok_or UnwrapPanic (dl_tables d)) (\<lambda>tables.
       ensure (of_nat (om_len tables) = total) (SnapshotIncomplete (om_len tables) total)
         (Inr \<lparr>done_slot = slot, done_tables = tables, done_chunks = dl_chunks d,
               done_payload_bytes = dl_payload_bytes d\<rparr>))))"

text \<open>\<^verbatim>\<open>fetch_snapshot\<close> on the chunks a stream delivered before it ended.\<close>

definition fetch_snapshot :: "crates \<Rightarrow> snapshot_chunk list \<Rightarrow> (u64 \<times> tables) result" where
  "fetch_snapshot c chunks =
     and_then (push_all c chunks new_download) (\<lambda>d.
     and_then (finish d) (\<lambda>snapshot. Inr (done_slot snapshot, done_tables snapshot)))"

text \<open>
  \<^verbatim>\<open>fetch_snapshot_from_any\<close>: \<open>attempts\<close> are the results of the URLs in order, of which
  those after the first success are not asked for.
\<close>

fun first_success :: "'a result list \<Rightarrow> error option \<Rightarrow> 'a result" where
  "first_success [] last_error =
     and_then (ok_or AllSourcesFailed last_error) (\<lambda>e. Inl e)"
| "first_success (Inr x # rs) last_error = Inr x"
| "first_success (Inl e # rs) last_error = first_success rs (Some e)"

definition fetch_snapshot_from_any :: "(u64 \<times> tables) result list \<Rightarrow> (u64 \<times> tables) result" where
  "fetch_snapshot_from_any attempts = first_success attempts None"

lemma first_success_Inr:
  "first_success rs last_error = Inr x \<longleftrightarrow>
     (\<exists>es rest. rs = map Inl es @ Inr x # rest)"
proof (induction rs last_error rule: first_success.induct)
  case (1 last_error)
  then show ?case by (cases last_error) auto
next
  case (2 y rs last_error)
  show ?case
  proof
    assume "first_success (Inr y # rs) last_error = Inr x"
    then show "\<exists>es rest. Inr y # rs = map Inl es @ Inr x # rest"
      by (intro exI [of _ "[]"] exI [of _ rs]) simp
  next
    assume "\<exists>es rest. Inr y # rs = map Inl es @ Inr x # rest"
    then obtain es rest where "Inr y # rs = map Inl es @ Inr x # rest" by blast
    then show "first_success (Inr y # rs) last_error = Inr x" by (cases es) simp_all
  qed
next
  case (3 e rs last_error)
  show ?case
  proof
    assume "first_success (Inl e # rs) last_error = Inr x"
    with 3 obtain es rest where "rs = map Inl es @ Inr x # rest" by auto
    then show "\<exists>es rest. Inl e # rs = map Inl es @ Inr x # rest"
      by (intro exI [of _ "e # es"]) simp
  next
    assume "\<exists>es rest. Inl e # rs = map Inl es @ Inr x # rest"
    then obtain es rest where "Inl e # rs = map Inl es @ Inr x # rest" by blast
    with 3 show "first_success (Inl e # rs) last_error = Inr x" by (cases es) auto
  qed
qed

section \<open>Decoding the service's chunks\<close>

definition table_of :: "crates \<Rightarrow> key \<Rightarrow> account \<Rightarrow> lookup_table" where
  "table_of c k a =
     \<lparr>table_key = k, table_addresses = the (alt_deserialize c (data (account_value a)))\<rparr>"

definition decodable :: "crates \<Rightarrow> account \<Rightarrow> bool" where
  "decodable c a \<longleftrightarrow> alt_deserialize c (data (account_value a)) \<noteq> None"

lemma decode_entries_append:
  "decode_entries c (xs @ ys) st = and_then (decode_entries c xs st) (decode_entries c ys)"
proof (induction xs arbitrary: st)
  case (Cons x xs)
  then show ?case by (cases "decode_entry c x st") simp_all
qed simp

lemma decode_entries_wire:
  "\<forall>e \<in> set es. decodable c (snd e) \<Longrightarrow>
   \<exists>p'. decode_entries c (map wire_account es) (t, p) =
     Inr (fold (\<lambda>(k, a). om_insert k (table_of c k a)) es t, p')"
proof (induction es arbitrary: t p)
  case (Cons e es)
  then obtain addresses where "alt_deserialize c (data (account_value (snd e))) = Some addresses"
    by (auto simp: decodable_def)
  with Cons show ?case
    by (cases e) (simp add: decode_entry_def wire_account_def table_of_def)
qed simp

lemma om_len_fold_insert:
  "om_len (fold (\<lambda>(k, v). om_insert k (f k v)) es t) \<le> om_len t + length es"
proof (induction es arbitrary: t)
  case (Cons e es)
  obtain k v where e: "e = (k, v)" by (cases e)
  have "finite (dom (om_get t))" by (simp add: om.dom_look)
  then have "om_len (om_insert k (f k v) t) \<le> Suc (om_len t)"
    by (simp add: om_len_card card_insert_if)
  with Cons.IH [of "om_insert k (f k v) t"] show ?case by (simp add: e)
qed simp

text \<open>A download that has read nothing behaves like one that only knows the slot and total.\<close>

definition started :: "read_snapshot_result \<Rightarrow> tables \<Rightarrow> u64 \<Rightarrow> u64 \<Rightarrow> snapshot_download" where
  "started snapshot t n p =
     \<lparr>dl_slot = Some (read_slot snapshot),
      dl_total_accounts = Some (of_nat (om_len (read_accounts snapshot))),
      dl_tables = Some t, dl_chunks = n, dl_payload_bytes = p\<rparr>"

lemma push_new: "chunk_of snapshot ch \<Longrightarrow> push c ch new_download = push c ch (started snapshot om_empty 0 0)"
  by (simp add: push_def new_download_def started_def get_or_def chunk_of_def Let_def)

lemma push_started:
  assumes "chunk_of snapshot ch"
    and "decode_entries c (chunk_accounts ch) (t, p) = Inr (t', p')"
  shows "push c ch (started snapshot t n p) = Inr (started snapshot t' (n + 1) p')"
  using assms by (simp add: push_def started_def get_or_def chunk_of_def Let_def)

lemma push_all_started:
  assumes "\<forall>ch \<in> set chs. chunk_of snapshot ch"
    and "decode_entries c (concat (map chunk_accounts chs)) (t, p) = Inr (t', p')"
  shows "\<exists>n'. push_all c chs (started snapshot t n p) = Inr (started snapshot t' n' p')"
  using assms
proof (induction chs arbitrary: t p n)
  case (Cons ch chs)
  then obtain t1 p1 where first: "decode_entries c (chunk_accounts ch) (t, p) = Inr (t1, p1)"
    and rest: "decode_entries c (concat (map chunk_accounts chs)) (t1, p1) = Inr (t', p')"
    by (auto simp: decode_entries_append and_then_eq_Inr)
  have "push c ch (started snapshot t n p) = Inr (started snapshot t1 (n + 1) p1)"
    using Cons.prems(1) first by (intro push_started) simp_all
  with Cons.IH [OF _ rest, of "n + 1"] Cons.prems(1) show ?case by simp
qed auto

lemma push_all_new:
  assumes "\<forall>ch \<in> set chs. chunk_of snapshot ch" and "chs \<noteq> []"
    and "concat (map chunk_accounts chs) = map wire_account es"
    and "\<forall>e \<in> set es. decodable c (snd e)"
  shows "\<exists>n p. push_all c chs new_download =
    Inr (started snapshot (fold (\<lambda>(k, a). om_insert k (table_of c k a)) es om_empty) n p)"
proof -
  obtain p where "decode_entries c (concat (map chunk_accounts chs)) (om_empty, 0) =
      Inr (fold (\<lambda>(k, a). om_insert k (table_of c k a)) es om_empty, p)"
    unfolding assms(3) using decode_entries_wire [OF assms(4), of om_empty 0] by blast
  from push_all_started [OF assms(1) this, of 0] obtain n where
    "push_all c chs (started snapshot om_empty 0 0) =
      Inr (started snapshot (fold (\<lambda>(k, a). om_insert k (table_of c k a)) es om_empty) n p)"
    by blast
  moreover have "push_all c chs new_download = push_all c chs (started snapshot om_empty 0 0)"
    using assms(1,2) push_new by (cases chs) auto
  ultimately show ?thesis by auto
qed

lemma finish_started:
  "finish (started snapshot t n p) =
     (if (of_nat (om_len t) :: u64) = of_nat (om_len (read_accounts snapshot))
      then Inr \<lparr>done_slot = read_slot snapshot, done_tables = t, done_chunks = n,
                done_payload_bytes = p\<rparr>
      else Inl (SnapshotIncomplete (om_len t) (of_nat (om_len (read_accounts snapshot)))))"
  by (simp add: finish_def started_def)

lemma om_get_fold_map:
  "(\<And>k. om_get t k = map_option (f k) (om_get t' k)) \<Longrightarrow>
   om_get (fold (\<lambda>(k, a). om_insert k (f k a)) xs t) k =
     map_option (f k) (om_get (fold (\<lambda>(k, a). om_insert k a) xs t') k)"
proof (induction xs arbitrary: t t')
  case (Cons e xs)
  obtain k' a where e: "e = (k', a)" by (cases e)
  show ?case
    using Cons.IH [of "om_insert k' (f k' a) t" "om_insert k' a t'"] Cons.prems by (simp add: e)
qed simp

lemma om_get_fold_items:
  "om_get (fold (\<lambda>(k, a). om_insert k (f k a)) (om_items m) om_empty) k = map_option (f k) (om_get m k)"
  using om_get_fold_map [of om_empty f om_empty "om_items m" k] om_of_list_items [of m]
  by (simp add: om_of_list_def)

lemma om_len_fold_items:
  "om_len (fold (\<lambda>(k, a). om_insert k (f k a)) (om_items m) om_empty) = om_len m"
proof -
  have "dom (om_get (fold (\<lambda>(k, a). om_insert k (f k a)) (om_items m) om_empty)) = dom (om_get m)"
    by (auto simp: dom_def om_get_fold_items)
  then show ?thesis by (simp add: om_len_card)
qed

lemma read_stream:
  assumes "read_snapshot s = Inr snapshot" and "stream_snapshot encoded_len s = Inr chunks"
  shows "\<forall>ch \<in> set chunks. chunk_of snapshot ch" and "chunks \<noteq> []"
    and "concat (map chunk_accounts chunks) = map wire_account (om_items (read_accounts snapshot))"
proof -
  have chunks: "chunks =
      send_chunks encoded_len snapshot (om_items (read_accounts snapshot)) (empty_chunk snapshot)"
    using assms by (simp add: stream_snapshot_def)
  show "\<forall>ch \<in> set chunks. chunk_of snapshot ch" and "chunks \<noteq> []"
    and "concat (map chunk_accounts chunks) = map wire_account (om_items (read_accounts snapshot))"
    unfolding chunks
    by (rule send_chunks_of, simp, rule send_chunks_not_empty, auto simp: om_len_def
        send_chunks_accounts)
qed

definition decodable_map :: "crates \<Rightarrow> (key, account) omap \<Rightarrow> bool" where
  "decodable_map c m \<longleftrightarrow> list_all (\<lambda>e. decodable c (snd e)) (om_items m)"

lemma decodable_map_get:
  "decodable_map c m \<longleftrightarrow> (\<forall>k a. om_get m k = Some a \<longrightarrow> decodable c a)"
  by (auto simp: decodable_map_def list_all_iff om.items_look [symmetric])

lemma decodable_items: "decodable_map c m \<Longrightarrow> \<forall>e \<in> set (om_items m). decodable c (snd e)"
  by (simp add: decodable_map_def list_all_iff)

lemma chunks_not_empty:
  "0 < om_len (read_accounts snapshot) \<Longrightarrow>
   \<forall>ch \<in> set (send_chunks len snapshot es chunk). chunk_accounts ch \<noteq> []"
  by (induction len snapshot es chunk rule: send_chunks.induct) (auto simp: Let_def)

section \<open>Properties\<close>

text \<open>
  C20. What the service streams is what the client builds: downloading all the chunks of a ready
  store gives the stored slot and, for every stored account and no other key, the lookup table
  with that key and the account's addresses, however the accounts are cut into chunks.
\<close>

theorem snapshot_stream_roundtrip:
  assumes "read_snapshot s = Inr snapshot" and "stream_snapshot encoded_len s = Inr chunks"
    and "decodable_map c (read_accounts snapshot)"
  shows "\<exists>t. fetch_snapshot c chunks = Inr (read_slot snapshot, t) \<and>
    (\<forall>k. om_get t k = map_option (table_of c k) (om_get (read_accounts snapshot) k))"
proof -
  note stream = read_stream [OF assms(1,2)]
  obtain n p where "push_all c chunks new_download = Inr (started snapshot
      (fold (\<lambda>(k, a). om_insert k (table_of c k a)) (om_items (read_accounts snapshot)) om_empty) n p)"
    using push_all_new [OF stream(1,2,3) decodable_items [OF assms(3)]] by blast
  then show ?thesis
    by (simp add: fetch_snapshot_def finish_started om_len_fold_items om_get_fold_items)
qed

lemma snapshot_stream_roundtrip_witness:
  "\<exists>chunks t. stream_snapshot (\<lambda>ch. length (chunk_accounts ch) * target_chunk_bytes)
       (publish ''one'' 13 (sample_map [2, 1]) new_store) = Inr chunks \<and>
     fetch_snapshot sample_crates chunks = Inr (13, t) \<and>
     om_get t (key_fill 2) = Some \<lparr>table_key = key_fill 2, table_addresses = [key_fill 2]\<rparr>"
proof -
  let ?s = "publish ''one'' 13 (sample_map [2, 1]) new_store"
  let ?snap = "\<lparr>read_slot = 13, read_accounts = sample_map [2, 1]\<rparr>"
  have snap: "read_snapshot ?s = Inr ?snap"
    by (simp add: read_snapshot_def current_publish new_store_def)
  then obtain chunks where chunks:
    "stream_snapshot (\<lambda>ch. length (chunk_accounts ch) * target_chunk_bytes) ?s = Inr chunks"
    by (simp add: stream_snapshot_def)
  have get: "om_get (sample_map [2, 1]) = [key_fill 1 \<mapsto> sample_account 1, key_fill 2 \<mapsto> sample_account 2]"
    by (auto simp: om_get_def om_items_sample_map)
  have "decodable_map sample_crates (read_accounts ?snap)"
    by (simp add: decodable_map_def om_items_sample_map decodable_def)
  from snapshot_stream_roundtrip [OF snap chunks this] chunks show ?thesis
    by (auto simp: get table_of_def)
qed

text \<open>
  C26. A stream cut short is never taken for a snapshot: a client that received any proper prefix
  of the chunks reports an error, since the announced total is missing accounts.
\<close>

theorem truncated_stream_rejected:
  assumes "read_snapshot s = Inr snapshot" and "stream_snapshot encoded_len s = Inr chunks"
    and "decodable_map c (read_accounts snapshot)"
    and "om_len (read_accounts snapshot) < 2 ^ 64" and "n < length chunks"
  shows "\<not> is_ok (fetch_snapshot c (take n chunks))"
proof (cases n)
  case 0
  then show ?thesis by (simp add: fetch_snapshot_def finish_def new_download_def)
next
  case (Suc m)
  note stream = read_stream [OF assms(1,2)]
  let ?items = "om_items (read_accounts snapshot)"
  have chunks: "chunks = send_chunks encoded_len snapshot ?items (empty_chunk snapshot)"
    using assms(1,2) by (simp add: stream_snapshot_def)
  have "0 < om_len (read_accounts snapshot)"
    using Suc assms(5) by (cases ?items) (simp_all add: chunks om_len_def)
  then have nonempty: "\<forall>ch \<in> set chunks. chunk_accounts ch \<noteq> []"
    unfolding chunks by (rule chunks_not_empty)
  let ?es = "take (length (concat (map chunk_accounts (take n chunks)))) ?items"
  have split: "map wire_account ?items =
      concat (map chunk_accounts (take n chunks)) @ concat (map chunk_accounts (drop n chunks))"
    using stream(3) by (metis append_take_drop_id concat_append map_append)
  have "concat (map chunk_accounts (drop n chunks)) \<noteq> []"
    using nonempty assms(5) nth_mem [OF assms(5)] by (simp flip: Cons_nth_drop_Suc)
  then have short: "length ?es < om_len (read_accounts snapshot)"
    using arg_cong [OF split, of length] by (simp add: om_len_def)
  have "concat (map chunk_accounts (take n chunks)) = map wire_account ?es"
    using split by (metis append_eq_conv_conj take_map)
  moreover have "\<forall>e \<in> set ?es. decodable c (snd e)"
    using decodable_items [OF assms(3)] by (auto dest: in_set_takeD)
  moreover have "\<forall>ch \<in> set (take n chunks). chunk_of snapshot ch" and "take n chunks \<noteq> []"
    using stream(1,2) Suc by (auto dest: in_set_takeD)
  ultimately obtain k p where "push_all c (take n chunks) new_download = Inr (started snapshot
      (fold (\<lambda>(k, a). om_insert k (table_of c k a)) ?es om_empty) k p)"
    using push_all_new by blast
  moreover have "om_len (om_empty :: tables) = 0" by (simp add: om_len_def)
  then have "om_len (fold (\<lambda>(k, a). om_insert k (table_of c k a)) ?es om_empty) <
      om_len (read_accounts snapshot)"
    using om_len_fold_insert [of "table_of c" ?es om_empty] short by linarith
  ultimately show ?thesis
    using assms(4) by (simp add: fetch_snapshot_def finish_started word_unat_eq_iff unat_of_nat)
qed

lemma truncated_stream_rejected_witness:
  "\<exists>chunks. stream_snapshot (\<lambda>ch. length (chunk_accounts ch) * target_chunk_bytes)
       (publish ''one'' 13 (sample_map [2, 1]) new_store) = Inr chunks \<and>
     \<not> is_ok (fetch_snapshot sample_crates (take 1 chunks))"
proof -
  let ?s = "publish ''one'' 13 (sample_map [2, 1]) new_store"
  let ?snap = "\<lparr>read_slot = 13, read_accounts = sample_map [2, 1]\<rparr>"
  have snap: "read_snapshot ?s = Inr ?snap"
    by (simp add: read_snapshot_def current_publish new_store_def)
  obtain chunks where chunks:
    "stream_snapshot (\<lambda>ch. length (chunk_accounts ch) * target_chunk_bytes) ?s = Inr chunks"
    and len: "1 < length chunks"
    by (simp add: stream_snapshot_def snap om_items_sample_map Let_def add_account_def
        empty_chunk_def target_chunk_bytes_def)
  have "decodable_map sample_crates (read_accounts ?snap)"
    by (simp add: decodable_map_def om_items_sample_map decodable_def)
  from truncated_stream_rejected [OF snap chunks this _ len] chunks show ?thesis
    by (auto simp: om_len_def om_items_sample_map)
qed

end
