(* ===== verification/Client_Session.thy ===== *)
theory Client_Session
  imports Download Yellowstone
begin

text \<open>
  \<^verbatim>\<open>src/client.rs\<close>, the library's session with a Yellowstone source: updates are staged by
  slot as they arrive, applied to the shared table map when their slot is confirmed, and any
  error ends the session. Operations return their error next to the state they leave behind,
  because the table map is shared with readers and keeps what was applied before the error.
\<close>

section \<open>Buffered events\<close>

datatype buffered_event = BufferedAccount account_update | BufferedConfirmedSlot u64

section \<open>Session\<close>

record session =
  ses_source_index :: nat
  ses_bootstrap_slot :: u64
  ses_confirmed_slot :: u64
  ses_tables :: tables
  ses_pending :: "(u64, account_update list) omap"

text \<open>An account that no longer is a table of the program is removed; one that does not
  deserialize is an error.\<close>

definition apply_update :: "crates \<Rightarrow> tables \<Rightarrow> account_update \<Rightarrow> tables result" where
  "apply_update c t update =
     and_then (ok_or AccountBodyMissing (upd_account update)) (\<lambda>acc.
     and_then (ok_or InvalidAddress (key_of_bytes (pubkey acc))) (\<lambda>key.
       if lamports acc = 0 \<or> owner acc \<noteq> key_bytes (alt_program_id c) then Inr (om_remove key t)
       else and_then (ok_or InvalidAltData (alt_deserialize c (data acc))) (\<lambda>addresses.
         Inr (om_insert key \<lparr>table_key = key, table_addresses = addresses\<rparr> t))))"

fun apply_updates ::
  "crates \<Rightarrow> account_update list \<Rightarrow> tables \<Rightarrow> unit result \<times> tables" where
  "apply_updates c [] t = (Inr (), t)"
| "apply_updates c (u # us) t =
     (case apply_update c t u of
        Inl e \<Rightarrow> (Inl e, t)
      | Inr t' \<Rightarrow> apply_updates c us t')"

fun client_apply_slots :: "crates \<Rightarrow> u64 list \<Rightarrow> session \<Rightarrow> unit result \<times> session" where
  "client_apply_slots c [] ses = (Inr (), ses)"
| "client_apply_slots c (slot # slots) ses =
     (case om_get (ses_pending ses) slot of
        None \<Rightarrow> (Inl UnwrapPanic, ses)
      | Some us \<Rightarrow>
          let (res, t) = apply_updates c us (ses_tables ses);
              ses' = ses\<lparr>ses_pending := om_remove slot (ses_pending ses), ses_tables := t\<rparr>
          in (case res of Inl e \<Rightarrow> (Inl e, ses') | Inr _ \<Rightarrow> client_apply_slots c slots ses'))"

definition client_apply_pending_through ::
  "crates \<Rightarrow> u64 \<Rightarrow> session \<Rightarrow> unit result \<times> session" where
  "client_apply_pending_through c slot ses =
     client_apply_slots c (om_keys_through slot (ses_pending ses)) ses"

definition queue_update :: "account_update \<Rightarrow> bool \<Rightarrow> session \<Rightarrow> unit result \<times> session" where
  "queue_update update during_bootstrap ses =
     (if upd_slot update < ses_bootstrap_slot ses then (Inr (), ses)
      else if \<not> (during_bootstrap \<or> upd_slot update > ses_confirmed_slot ses)
      then (Inl UpdateAfterConfirmation, ses)
      else (Inr (), ses\<lparr>ses_pending := push_pending (upd_slot update) update (ses_pending ses)\<rparr>))"

definition client_confirm :: "crates \<Rightarrow> u64 \<Rightarrow> session \<Rightarrow> bool result \<times> session" where
  "client_confirm c slot ses =
     (if slot \<le> ses_confirmed_slot ses then (Inr False, ses)
      else
        case client_apply_pending_through c slot ses of
          (Inl e, ses') \<Rightarrow> (Inl e, ses')
        | (Inr _, ses') \<Rightarrow> (Inr True, ses'\<lparr>ses_confirmed_slot := slot\<rparr>))"

section \<open>Bootstrapping a session\<close>

definition update_buffer_capacity :: nat where
  "update_buffer_capacity = 16384"

definition buffer_event ::
  "buffered_event \<Rightarrow> buffered_event list \<Rightarrow> buffered_event list result" where
  "buffer_event ev buffered =
     ensure (length buffered < update_buffer_capacity) ClientBufferFull (Inr (buffered @ [ev]))"

fun bootstrap_item ::
  "stream_item \<Rightarrow> buffered_event list \<Rightarrow> buffered_event list result" where
  "bootstrap_item (Ping sent) buffered = ensure sent PingNotSent (Inr buffered)"
| "bootstrap_item (AccountUpdate update) buffered = buffer_event (BufferedAccount update) buffered"
| "bootstrap_item (SlotUpdate slot confirmed) buffered =
     (if confirmed then buffer_event (BufferedConfirmedSlot slot) buffered else Inr buffered)"
| "bootstrap_item OtherUpdate buffered = Inr buffered"
| "bootstrap_item (StreamFailed e) buffered = Inl e"

fun bootstrap_items ::
  "stream_item list \<Rightarrow> buffered_event list \<Rightarrow> buffered_event list result" where
  "bootstrap_items [] buffered = Inr buffered"
| "bootstrap_items (i # is) buffered = and_then (bootstrap_item i buffered) (bootstrap_items is)"

definition new_session :: "nat \<Rightarrow> u64 \<times> tables \<Rightarrow> session" where
  "new_session source_index snapshot =
     \<lparr>ses_source_index = source_index, ses_bootstrap_slot = fst snapshot,
      ses_confirmed_slot = fst snapshot, ses_tables = snd snapshot, ses_pending = om_empty\<rparr>"

text \<open>The replay drops the session on an error, so only its result matters.\<close>

fun replay_event :: "crates \<Rightarrow> buffered_event \<Rightarrow> session \<Rightarrow> session result" where
  "replay_event c (BufferedAccount update) ses =
     (let (res, ses') = queue_update update True ses in and_then res (\<lambda>_. Inr ses'))"
| "replay_event c (BufferedConfirmedSlot slot) ses =
     (let (res, ses') = client_confirm c slot ses in and_then res (\<lambda>_. Inr ses'))"

fun replay_events :: "crates \<Rightarrow> buffered_event list \<Rightarrow> session \<Rightarrow> session result" where
  "replay_events c [] ses = Inr ses"
| "replay_events c (e # es) ses = and_then (replay_event c e ses) (replay_events c es)"

text \<open>
  \<open>items\<close> is what the stream delivered before the snapshot request finished with
  \<open>snapshot\<close>.
\<close>

definition establish_session_from_source ::
  "crates \<Rightarrow> nat \<Rightarrow> stream_item list \<Rightarrow> (u64 \<times> tables) result \<Rightarrow> session result" where
  "establish_session_from_source c source_index items snapshot =
     and_then (bootstrap_items items []) (\<lambda>buffered.
     and_then snapshot (\<lambda>snap.
     and_then (replay_events c buffered (new_session source_index snap)) (\<lambda>ses.
       let (res, ses') = client_apply_pending_through c (ses_confirmed_slot ses) ses
       in and_then res (\<lambda>_. Inr ses'))))"

text \<open>Sources are tried from \<open>start\<close> on, in cyclic order; \<open>attempt\<close> is what each yields.\<close>

definition establish_session ::
  "nat \<Rightarrow> nat \<Rightarrow> (nat \<Rightarrow> session result) \<Rightarrow> session result" where
  "establish_session count start attempt =
     first_success (map (\<lambda>offset. attempt ((start + offset) mod count)) [0..<count]) None"

section \<open>Following a source\<close>

text \<open>
  The shared part of the cache. Its table map is the session's: \<^verbatim>\<open>connect\<close> and
  \<^verbatim>\<open>run\<close> store the same \<^verbatim>\<open>Arc\<close> in both places.
\<close>

record client =
  cl_session :: session
  cl_ready :: bool
  cl_confirmed_slot :: u64

fun follow_item :: "crates \<Rightarrow> stream_item \<Rightarrow> client \<Rightarrow> unit result \<times> client" where
  "follow_item c (Ping sent) cl = (ensure sent PingNotSent (Inr ()), cl)"
| "follow_item c (AccountUpdate update) cl =
     (let (res, ses) = queue_update update False (cl_session cl)
      in (res, cl\<lparr>cl_session := ses\<rparr>))"
| "follow_item c (SlotUpdate slot confirmed) cl =
     (if confirmed then
        let (res, ses) = client_confirm c slot (cl_session cl); cl' = cl\<lparr>cl_session := ses\<rparr>
        in (case res of
              Inl e \<Rightarrow> (Inl e, cl')
            | Inr advanced \<Rightarrow> (Inr (), if advanced then cl'\<lparr>cl_confirmed_slot := slot\<rparr> else cl'))
      else (Inr (), cl))"
| "follow_item c OtherUpdate cl = (Inr (), cl)"
| "follow_item c (StreamFailed e) cl = (Inl e, cl)"

fun follow :: "crates \<Rightarrow> stream_item list \<Rightarrow> client \<Rightarrow> unit result \<times> client" where
  "follow c [] cl = (Inr (), cl)"
| "follow c (i # is) cl =
     (case follow_item c i cl of
        (Inl e, cl') \<Rightarrow> (Inl e, cl')
      | (Inr _, cl') \<Rightarrow> follow c is cl')"

definition is_ready :: "client \<Rightarrow> bool" where
  "is_ready cl = cl_ready cl"

definition get_table :: "key \<Rightarrow> client \<Rightarrow> lookup_table option result" where
  "get_table key cl =
     ensure (is_ready cl) CacheNotReady (Inr (om_get (ses_tables (cl_session cl)) key))"

section \<open>Connecting and recovering\<close>

record yellowstone_source =
  ys_url :: string
  ys_token :: "string option"

definition new_source :: "string \<Rightarrow> yellowstone_source" where
  "new_source url = \<lparr>ys_url = url, ys_token = None\<rparr>"

definition with_token :: "string \<Rightarrow> yellowstone_source \<Rightarrow> yellowstone_source" where
  "with_token token source = source\<lparr>ys_token := Some token\<rparr>"

record alt_config =
  snapshot_grpc :: "string list"
  yellowstone_grpc :: "yellowstone_source list"

definition check_config :: "alt_config \<Rightarrow> unit result" where
  "check_config cfg =
     ensure (snapshot_grpc cfg \<noteq> []) NoSnapshotUrl
    (ensure (yellowstone_grpc cfg \<noteq> []) NoYellowstoneSource
    (ensure ([] \<notin> set (snapshot_grpc cfg) \<and> distinct (snapshot_grpc cfg)) SnapshotUrlsNotUnique
    (ensure ([] \<notin> ys_url ` set (yellowstone_grpc cfg) \<and> distinct (map ys_url (yellowstone_grpc cfg)))
       SourceUrlsNotUnique
    (Inr ()))))"

definition connect :: "alt_config \<Rightarrow> (nat \<Rightarrow> session result) \<Rightarrow> client result" where
  "connect cfg attempt =
     and_then (check_config cfg) (\<lambda>_.
     and_then (establish_session (length (yellowstone_grpc cfg)) 0 attempt) (\<lambda>ses.
       Inr \<lparr>cl_session = ses, cl_ready = True, cl_confirmed_slot = ses_confirmed_slot ses\<rparr>))"

text \<open>The background task \<^verbatim>\<open>run\<close>: following, or retrying from a source after a failure.\<close>

datatype client_phase = Following | Recovering nat | ClientStopped

definition feed_lost :: "nat \<Rightarrow> client \<Rightarrow> client \<times> client_phase" where
  "feed_lost count cl =
     (cl\<lparr>cl_ready := False\<rparr>, Recovering ((ses_source_index (cl_session cl) + 1) mod count))"

definition recovered :: "session result \<Rightarrow> nat \<Rightarrow> client \<Rightarrow> client \<times> client_phase" where
  "recovered res source_index cl =
     (case res of
        Inl e \<Rightarrow> (cl, Recovering source_index)
      | Inr ses \<Rightarrow>
          (cl\<lparr>cl_session := ses, cl_confirmed_slot := ses_confirmed_slot ses, cl_ready := True\<rparr>,
           Following))"

end
