(* ===== verification/Mirroring.thy ===== *)
theory Mirroring
  imports Client_Session
begin

text \<open>
  The client keeps what the service keeps: a simulation between the session of
  \<^verbatim>\<open>src/client.rs\<close> and the state updater of \<^verbatim>\<open>src/state_updater.rs\<close> fed with the same
  updates and confirmations. The two stage differently (by arrival and by write version) and
  decode at different times, so the simulation asks for an orderly stream: every update decodes,
  and comes in version order and before its slot is confirmed.
\<close>

section \<open>Related updates and maps\<close>

text \<open>An update the client can apply: it has a body, 32-byte keys, and is no broken table.\<close>

definition update_ok :: "crates \<Rightarrow> account_update \<Rightarrow> bool" where
  "update_ok c upd =
     (case upd_account upd of
        None \<Rightarrow> False
      | Some acc \<Rightarrow>
          length (pubkey acc) = 32 \<and> length (owner acc) = 32 \<and>
          (lamports acc = 0 \<or> owner acc \<noteq> key_bytes (alt_program_id c) \<or>
           alt_deserialize c (data acc) \<noteq> None))"

definition update_rel :: "crates \<Rightarrow> account_update \<Rightarrow> mutation \<Rightarrow> bool" where
  "update_rel c upd m \<longleftrightarrow>
     update_ok c upd \<and>
     decode_account_update c upd =
       Inr (AccountWrite (mut_key m) (upd_slot upd) (write_version (the (upd_account upd))) (mut_account m))"

definition tables_rel :: "crates \<Rightarrow> tables \<Rightarrow> (key, account) omap \<Rightarrow> bool" where
  "tables_rel c t accs \<longleftrightarrow> (\<forall>k. om_get t k = map_option (table_of c k) (om_get accs k))"

definition pending_rel ::
  "crates \<Rightarrow> (u64, account_update list) omap \<Rightarrow> (u64, mutation list) omap \<Rightarrow> bool" where
  "pending_rel c p q \<longleftrightarrow>
     list_all2 (\<lambda>x y. fst x = fst y \<and> list_all2 (update_rel c) (snd x) (snd y))
       (om_items p) (om_items q)"

definition mirrors :: "crates \<Rightarrow> session \<Rightarrow> state_updater \<Rightarrow> bool" where
  "mirrors c ses u \<longleftrightarrow>
     ses_bootstrap_slot ses = bootstrap_slot u \<and> ses_confirmed_slot ses = confirmed_slot u \<and>
     tables_rel c (ses_tables ses) (accounts u) \<and> pending_rel c (ses_pending ses) (pending u)"

lemma update_ok_decode:
  assumes "update_ok c upd"
  obtains k v a where
    "decode_account_update c upd = Inr (AccountWrite k (upd_slot upd) v a)"
    "update_rel c upd \<lparr>mut_key = k, mut_account = a\<rparr>"
    "\<And>t. apply_update c t upd =
       Inr (case a of None \<Rightarrow> om_remove k t | Some acc \<Rightarrow> om_insert k (table_of c k acc) t)"
proof -
  from assms obtain acc where body: "upd_account upd = Some acc"
    and len: "length (pubkey acc) = 32" "length (owner acc) = 32"
    and table: "lamports acc = 0 \<or> owner acc \<noteq> key_bytes (alt_program_id c) \<or>
      alt_deserialize c (data acc) \<noteq> None"
    by (auto simp: update_ok_def split: option.splits)
  obtain key own where key: "pubkey acc = key_bytes key" and own: "owner acc = key_bytes own"
    using len key_of_bytes_eq_Some by (metis key_of_bytes_eq_None not_None_eq)
  let ?a = "update_value c acc own"
  have decode: "decode_account_update c upd =
      Inr (AccountWrite key (upd_slot upd) (write_version acc) ?a)"
    by (auto simp: decode_ok body key own)
  have "apply_update c t upd =
      Inr (case ?a of None \<Rightarrow> om_remove key t | Some x \<Rightarrow> om_insert key (table_of c key x) t)" for t
    using table
    by (auto simp: apply_update_def body key own update_value_eq [OF own] valid_account_def
        table_of_def)
  moreover have "update_rel c upd \<lparr>mut_key = key, mut_account = ?a\<rparr>"
    using assms decode by (simp add: update_rel_def body)
  ultimately show thesis using decode that by blast
qed

lemma apply_update_rel:
  assumes "update_rel c upd m" and "tables_rel c t accs"
  shows "\<exists>t'. apply_update c t upd = Inr t' \<and> tables_rel c t' (apply_mutation m accs)"
proof -
  from assms(1) have ok: "update_ok c upd" by (simp add: update_rel_def)
  obtain k v a where d: "decode_account_update c upd = Inr (AccountWrite k (upd_slot upd) v a)"
    and "apply_update c t upd =
       Inr (case a of None \<Rightarrow> om_remove k t | Some acc \<Rightarrow> om_insert k (table_of c k acc) t)"
    using update_ok_decode [OF ok] by metis
  moreover have "k = mut_key m" and "a = mut_account m"
    using d assms(1) by (simp_all add: update_rel_def)
  ultimately show ?thesis
    using assms(2) by (auto simp: tables_rel_def apply_mutation_def split: option.split)
qed

lemma apply_updates_rel:
  "list_all2 (update_rel c) us ms \<Longrightarrow> tables_rel c t accs \<Longrightarrow>
   \<exists>t'. apply_updates c us t = (Inr (), t') \<and> tables_rel c t' (fold apply_mutation ms accs)"
proof (induction us ms arbitrary: t accs rule: list_all2_induct)
  case (Cons u us m ms)
  from apply_update_rel [OF Cons(1,4)] obtain t' where
    "apply_update c t u = Inr t'" and "tables_rel c t' (apply_mutation m accs)" by blast
  with Cons(3) [OF this(2)] show ?case by auto
qed simp

section \<open>Related pending writes\<close>

lemma entries_rel_keys:
  "list_all2 (\<lambda>x y. fst x = fst y \<and> R (snd x) (snd y)) xs ys \<Longrightarrow> map fst xs = map fst ys"
  by (induction xs ys rule: list_all2_induct) simp_all

lemma entries_rel_filter:
  "list_all2 (\<lambda>x y. fst x = fst y \<and> R (snd x) (snd y)) xs ys \<Longrightarrow>
   list_all2 (\<lambda>x y. fst x = fst y \<and> R (snd x) (snd y))
     (filter (\<lambda>e. fst e \<noteq> k) xs) (filter (\<lambda>e. fst e \<noteq> k) ys)"
  by (induction xs ys rule: list_all2_induct) auto

lemma pending_rel_keys: "pending_rel c p q \<Longrightarrow> om_keys p = om_keys q"
  unfolding pending_rel_def om_keys_def by (rule entries_rel_keys)

lemma map_of_rel:
  "list_all2 (\<lambda>x y. fst x = fst y \<and> R (snd x) (snd y)) xs ys \<Longrightarrow>
   rel_option R (map_of xs k) (map_of ys k)"
  by (induction xs ys rule: list_all2_induct) auto

lemma pending_rel_get:
  "pending_rel c p q \<Longrightarrow> rel_option (list_all2 (update_rel c)) (om_get p s) (om_get q s)"
  unfolding pending_rel_def om_get_def by (rule map_of_rel)

lemma pending_rel_remove: "pending_rel c p q \<Longrightarrow> pending_rel c (om_remove s p) (om_remove s q)"
  unfolding pending_rel_def om_remove.rep_eq entry_remove_def by (rule entries_rel_filter)

lemma entry_insert_rel:
  "list_all2 (\<lambda>x y. fst x = fst y \<and> R (snd x) (snd y)) xs ys \<Longrightarrow> R a b \<Longrightarrow>
   list_all2 (\<lambda>x y. fst x = fst y \<and> R (snd x) (snd y)) (entry_insert k a xs) (entry_insert k b ys)"
proof (induction xs ys rule: list_all2_induct)
  case (Cons x xs y ys)
  then show ?case by (cases x; cases y) auto
qed simp

lemma pending_rel_push:
  assumes "pending_rel c p q" and "update_rel c upd m"
  shows "pending_rel c (push_pending s upd p) (push_pending s m q)"
proof -
  have "list_all2 (update_rel c)
      ((case om_get p s of None \<Rightarrow> [] | Some us \<Rightarrow> us) @ [upd])
      ((case om_get q s of None \<Rightarrow> [] | Some ms \<Rightarrow> ms) @ [m])"
    using pending_rel_get [OF assms(1), of s] assms(2)
    by (cases "om_get p s"; cases "om_get q s") (auto intro: list_all2_appendI)
  then show ?thesis
    using assms(1) unfolding pending_rel_def push_pending_def om_insert.rep_eq
    by (intro entry_insert_rel)
qed

section \<open>Related steps\<close>

lemma apply_slots_mirrors:
  assumes "mirrors c ses u" and "distinct slots" and "set slots \<subseteq> dom (om_get (ses_pending ses))"
  shows "\<exists>ses'. client_apply_slots c slots ses = (Inr (), ses') \<and>
    mirrors c ses' (fold apply_slot slots u) \<and> ses_source_index ses' = ses_source_index ses"
  using assms
proof (induction slots arbitrary: ses u)
  case (Cons s slots)
  from Cons.prems(3) obtain us where us: "om_get (ses_pending ses) s = Some us" by auto
  with pending_rel_get [of c "ses_pending ses" "pending u" s] Cons.prems(1) obtain ms where
    ms: "om_get (pending u) s = Some ms" "list_all2 (update_rel c) us ms"
    by (auto simp: mirrors_def option_rel_Some1)
  obtain t where t: "apply_updates c us (ses_tables ses) = (Inr (), t)"
    "tables_rel c t (fold apply_mutation ms (accounts u))"
    using apply_updates_rel [OF ms(2)] Cons.prems(1) by (auto simp: mirrors_def)
  let ?ses = "ses\<lparr>ses_pending := om_remove s (ses_pending ses), ses_tables := t\<rparr>"
  have rel: "mirrors c ?ses (apply_slot s u)"
    using Cons.prems(1) t(2) by (simp add: mirrors_def apply_slot_def ms pending_rel_remove)
  have "distinct slots" and "set slots \<subseteq> dom (om_get (ses_pending ?ses))"
    using Cons.prems(2,3) by auto
  from Cons.IH [OF rel this] show ?case by (simp add: us t(1))
qed simp

lemma apply_pending_mirrors:
  assumes "mirrors c ses u"
  shows "\<exists>ses'. client_apply_pending_through c s ses = (Inr (), ses') \<and>
    mirrors c ses' (apply_pending_through s u) \<and> ses_source_index ses' = ses_source_index ses"
proof -
  have "om_keys (ses_pending ses) = om_keys (pending u)"
    using assms pending_rel_keys by (auto simp: mirrors_def)
  moreover have "distinct (om_keys_through s (ses_pending ses))"
    and "set (om_keys_through s (ses_pending ses)) \<subseteq> dom (om_get (ses_pending ses))"
    by (auto simp: om_keys_through_def om_keys_props)
  ultimately show ?thesis
    using apply_slots_mirrors [OF assms]
    unfolding client_apply_pending_through_def apply_pending_through_def om_keys_through_def
    by metis
qed

lemma confirm_mirrors:
  assumes "mirrors c ses u"
  shows "\<exists>ses'. client_confirm c s ses = (Inr (confirmed_slot u < s), ses') \<and>
    mirrors c ses' (confirm_updater s u) \<and> ses_source_index ses' = ses_source_index ses"
proof (cases "s \<le> confirmed_slot u")
  case True
  with assms show ?thesis
    by (auto simp: client_confirm_def confirm_updater_def mirrors_def not_less)
next
  case False
  obtain ses' where "client_apply_pending_through c s ses = (Inr (), ses')"
    and "mirrors c ses' (apply_pending_through s u)" and "ses_source_index ses' = ses_source_index ses"
    using apply_pending_mirrors [OF assms] by blast
  with False assms show ?thesis
    by (auto simp: client_confirm_def confirm_updater_def mirrors_def)
qed

lemma queue_mirrors:
  assumes "mirrors c ses u" and "update_rel c upd \<lparr>mut_key = k, mut_account = a\<rparr>"
    and "fst (queue k (upd_slot upd) v a u)"
    and "during_bootstrap \<or> confirmed_slot u < upd_slot upd"
  shows "\<exists>ses'. queue_update upd during_bootstrap ses = (Inr (), ses') \<and>
    mirrors c ses' (snd (queue k (upd_slot upd) v a u)) \<and>
    ses_source_index ses' = ses_source_index ses"
proof -
  have "bootstrap_slot u \<le> upd_slot upd"
    using assms(3) by (simp add: queue_accepted)
  then show ?thesis
    using assms queue_effect [OF assms(3)]
    by (auto simp: queue_update_def mirrors_def pending_rel_push not_less)
qed

section \<open>Related runs\<close>

text \<open>The state updater fed with what the client receives.\<close>

fun mirror :: "crates \<Rightarrow> buffered_event \<Rightarrow> state_updater \<Rightarrow> state_updater" where
  "mirror c (BufferedAccount upd) u =
     (case decode_account_update c upd of
        Inr (AccountWrite k sl v a) \<Rightarrow> snd (queue k sl v a u)
      | Inr (ConfirmedSlot sl) \<Rightarrow> u
      | Inl e \<Rightarrow> u)"
| "mirror c (BufferedConfirmedSlot slot) u = confirm_updater slot u"

text \<open>
  An orderly stream: every update the client can apply is below the bootstrap slot or newer than
  the key's earlier ones and, unless the session is still bootstrapping, ahead of the confirmed
  slot.
\<close>

fun orderly_event :: "crates \<Rightarrow> bool \<Rightarrow> buffered_event \<Rightarrow> state_updater \<Rightarrow> bool" where
  "orderly_event c during_bootstrap (BufferedAccount upd) u \<longleftrightarrow>
     update_ok c upd \<and>
     (upd_slot upd < bootstrap_slot u \<or>
      (case decode_account_update c upd of
         Inr (AccountWrite k sl v a) \<Rightarrow>
           fst (queue k sl v a u) \<and> (during_bootstrap \<or> confirmed_slot u < sl)
       | Inr (ConfirmedSlot sl) \<Rightarrow> False
       | Inl e \<Rightarrow> False))"
| "orderly_event c during_bootstrap (BufferedConfirmedSlot slot) u \<longleftrightarrow> True"

fun orderly_feed :: "crates \<Rightarrow> bool \<Rightarrow> buffered_event list \<Rightarrow> state_updater \<Rightarrow> bool" where
  "orderly_feed c during_bootstrap [] u \<longleftrightarrow> True"
| "orderly_feed c during_bootstrap (e # es) u \<longleftrightarrow>
     orderly_event c during_bootstrap e u \<and> orderly_feed c during_bootstrap es (mirror c e u)"

lemma account_event_mirrors:
  assumes "mirrors c ses u" and "orderly_event c during_bootstrap (BufferedAccount upd) u"
  shows "\<exists>ses'. queue_update upd during_bootstrap ses = (Inr (), ses') \<and>
    mirrors c ses' (mirror c (BufferedAccount upd) u) \<and>
    ses_source_index ses' = ses_source_index ses"
proof -
  from assms(2) have "update_ok c upd" by simp
  then obtain k v a where decode: "decode_account_update c upd = Inr (AccountWrite k (upd_slot upd) v a)"
    and rel: "update_rel c upd \<lparr>mut_key = k, mut_account = a\<rparr>"
    by (rule update_ok_decode)
  show ?thesis
  proof (cases "upd_slot upd < bootstrap_slot u")
    case True
    then have "\<not> fst (queue k (upd_slot upd) v a u)" by (simp add: queue_accepted not_le)
    with True assms(1) show ?thesis
      by (auto simp: queue_update_def decode mirrors_def)
  next
    case False
    with assms(2) decode have "fst (queue k (upd_slot upd) v a u)"
      and "during_bootstrap \<or> confirmed_slot u < upd_slot upd" by auto
    from queue_mirrors [OF assms(1) rel this] show ?thesis by (simp add: decode)
  qed
qed

lemma replay_event_mirrors:
  assumes "mirrors c ses u" and "orderly_event c True e u"
  shows "\<exists>ses'. replay_event c e ses = Inr ses' \<and> mirrors c ses' (mirror c e u) \<and>
    ses_source_index ses' = ses_source_index ses"
proof (cases e)
  case (BufferedAccount upd)
  with account_event_mirrors [of c ses u True upd] assms show ?thesis by auto
next
  case (BufferedConfirmedSlot slot)
  with confirm_mirrors [OF assms(1), of slot] show ?thesis by auto
qed

lemma replay_events_mirrors:
  "mirrors c ses u \<Longrightarrow> orderly_feed c True es u \<Longrightarrow>
   \<exists>ses'. replay_events c es ses = Inr ses' \<and> mirrors c ses' (fold (mirror c) es u) \<and>
     ses_source_index ses' = ses_source_index ses"
proof (induction es arbitrary: ses u)
  case (Cons e es)
  from Cons.prems(2) have "orderly_event c True e u" by simp
  from replay_event_mirrors [OF Cons.prems(1) this] obtain ses' where
    "replay_event c e ses = Inr ses'" and "mirrors c ses' (mirror c e u)"
    and "ses_source_index ses' = ses_source_index ses" by blast
  with Cons.IH [of ses' "mirror c e u"] Cons.prems(2) show ?case by auto
qed simp

text \<open>The events of a healthy feed, without pings and other messages.\<close>

fun item_events :: "stream_item \<Rightarrow> buffered_event list" where
  "item_events (AccountUpdate upd) = [BufferedAccount upd]"
| "item_events (SlotUpdate slot confirmed) = (if confirmed then [BufferedConfirmedSlot slot] else [])"
| "item_events _ = []"

fun healthy :: "stream_item \<Rightarrow> bool" where
  "healthy (Ping sent) = sent"
| "healthy (StreamFailed e) = False"
| "healthy _ = True"

definition events_of :: "stream_item list \<Rightarrow> buffered_event list" where
  "events_of is = concat (map item_events is)"

lemma bootstrap_items_ok:
  "list_all healthy is \<Longrightarrow> length buffered + length (events_of is) \<le> update_buffer_capacity \<Longrightarrow>
   bootstrap_items is buffered = Inr (buffered @ events_of is)"
proof (induction "is" arbitrary: buffered)
  case (Cons i "is")
  then show ?case
    by (cases i) (auto simp: events_of_def buffer_event_def)
qed (simp add: events_of_def)

lemma follow_item_mirrors:
  assumes "mirrors c (cl_session cl) u" and "cl_confirmed_slot cl = confirmed_slot u"
    and "healthy i" and "orderly_feed c False (item_events i) u"
  shows "\<exists>cl'. follow_item c i cl = (Inr (), cl') \<and>
    mirrors c (cl_session cl') (fold (mirror c) (item_events i) u) \<and>
    cl_confirmed_slot cl' = confirmed_slot (fold (mirror c) (item_events i) u) \<and>
    cl_ready cl' = cl_ready cl"
proof (cases i)
  case (AccountUpdate upd)
  with account_event_mirrors [of c "cl_session cl" u False upd] assms obtain ses' where
    ses': "queue_update upd False (cl_session cl) = (Inr (), ses')"
    "mirrors c ses' (mirror c (BufferedAccount upd) u)" by auto
  have "confirmed_slot (mirror c (BufferedAccount upd) u) = confirmed_slot u"
    by (auto split: sum.split state_event.split)
  with AccountUpdate ses' assms(2) show ?thesis by (simp del: mirror.simps)
next
  case (SlotUpdate slot confirmed)
  show ?thesis
  proof (cases confirmed)
    case True
    from confirm_mirrors [OF assms(1), of slot] obtain ses' where
      "client_confirm c slot (cl_session cl) = (Inr (confirmed_slot u < slot), ses')"
      "mirrors c ses' (confirm_updater slot u)" by blast
    moreover have "confirmed_slot (confirm_updater slot u) =
        (if confirmed_slot u < slot then slot else confirmed_slot u)"
      by (auto simp: confirm_updater_def not_le)
    ultimately show ?thesis
      using SlotUpdate True assms(2) by (simp add: Let_def)
  qed (use SlotUpdate assms in simp)
qed (use assms in simp_all)

lemma follow_mirrors:
  "mirrors c (cl_session cl) u \<Longrightarrow> cl_confirmed_slot cl = confirmed_slot u \<Longrightarrow>
   list_all healthy is \<Longrightarrow> orderly_feed c False (events_of is) u \<Longrightarrow>
   \<exists>cl'. follow c is cl = (Inr (), cl') \<and>
     mirrors c (cl_session cl') (fold (mirror c) (events_of is) u) \<and>
     cl_confirmed_slot cl' = confirmed_slot (fold (mirror c) (events_of is) u) \<and>
     cl_ready cl' = cl_ready cl"
proof (induction "is" arbitrary: cl u)
  case (Cons i "is")
  have split: "orderly_feed c b (xs @ ys) u \<longleftrightarrow> orderly_feed c b xs u \<and> orderly_feed c b ys (fold (mirror c) xs u)"
    for b xs ys u
    by (induction xs arbitrary: u) simp_all
  have ord: "orderly_feed c False (item_events i) u"
    "orderly_feed c False (events_of is) (fold (mirror c) (item_events i) u)"
    using Cons.prems(4) by (simp_all add: events_of_def split)
  from follow_item_mirrors [OF Cons.prems(1,2) _ ord(1)] Cons.prems(3) obtain cl' where
    cl': "follow_item c i cl = (Inr (), cl')"
    "mirrors c (cl_session cl') (fold (mirror c) (item_events i) u)"
    "cl_confirmed_slot cl' = confirmed_slot (fold (mirror c) (item_events i) u)"
    "cl_ready cl' = cl_ready cl" by auto
  have "list_all healthy is" using Cons.prems(3) by simp
  from Cons.IH [OF cl'(2,3) this ord(2)] cl' show ?case by (simp add: events_of_def)
qed (simp add: events_of_def)

text \<open>The service's own replay of the decoded events is this run.\<close>

definition decoded :: "crates \<Rightarrow> buffered_event \<Rightarrow> state_event list" where
  "decoded c e =
     (case e of
        BufferedAccount upd \<Rightarrow>
          (case decode_account_update c upd of Inl _ \<Rightarrow> [] | Inr ev \<Rightarrow> [ev])
      | BufferedConfirmedSlot slot \<Rightarrow> [ConfirmedSlot slot])"

lemma decode_is_write: "decode_account_update c upd \<noteq> Inr (ConfirmedSlot sl)"
  by (auto simp: decode_ok)

lemma mirror_decoded: "snd (replay (decoded c e) su) = mirror c e (snd su)"
proof (cases su)
  case (Pair s u)
  show ?thesis
    by (cases e) (auto simp: Pair decoded_def snd_confirm decode_is_write
        split: sum.split state_event.split)
qed

lemma mirror_replay:
  "snd (replay (concat (map (decoded c) es)) su) = fold (mirror c) es (snd su)"
  by (induction es arbitrary: su) (simp_all add: replay_append mirror_decoded)

section \<open>Properties\<close>

text \<open>
  C15. A session the client establishes holds the state the service would: when the stream is
  healthy, fits the buffer and is orderly, establishing a session on a snapshot succeeds, and its
  tables, slots and staged updates mirror a state updater that started from the same snapshot,
  was fed with the same events and finished its recovery.
\<close>

theorem established_session_mirrors_service:
  assumes "tables_rel c t (fetched_accounts f)" and "list_all healthy is"
    and "length (events_of is) \<le> update_buffer_capacity"
    and "orderly_feed c True (events_of is) (from_fetched_alt_state url f)"
  shows "\<exists>ses. establish_session_from_source c source_index is (Inr (context_slot f, t)) = Inr ses \<and>
    ses_source_index ses = source_index \<and>
    mirrors c ses (snd (finish_recovery
      (replay (concat (map (decoded c) (events_of is))) (st, from_fetched_alt_state url f))))"
proof -
  let ?u = "fold (mirror c) (events_of is) (from_fetched_alt_state url f)"
  have "mirrors c (new_session source_index (context_slot f, t)) (from_fetched_alt_state url f)"
    using assms(1) by (simp add: mirrors_def new_session_def pending_rel_def)
  from replay_events_mirrors [OF this assms(4)] obtain ses where ses:
    "replay_events c (events_of is) (new_session source_index (context_slot f, t)) = Inr ses"
    "mirrors c ses ?u" "ses_source_index ses = source_index"
    by (auto simp: new_session_def)
  from apply_pending_mirrors [OF ses(2), of "ses_confirmed_slot ses"] obtain ses' where ses':
    "client_apply_pending_through c (ses_confirmed_slot ses) ses = (Inr (), ses')"
    "mirrors c ses' (apply_pending_through (ses_confirmed_slot ses) ?u)"
    "ses_source_index ses' = source_index"
    using ses(3) by auto
  have slot: "ses_confirmed_slot ses = confirmed_slot ?u"
    using ses(2) by (simp add: mirrors_def)
  have "snd (finish_recovery
      (replay (concat (map (decoded c) (events_of is))) (st, from_fetched_alt_state url f))) =
      (apply_pending_through (confirmed_slot ?u) ?u)\<lparr>recovering := False\<rparr>"
    using mirror_replay [of c "events_of is" "(st, from_fetched_alt_state url f)"]
    by (cases "replay (concat (map (decoded c) (events_of is))) (st, from_fetched_alt_state url f)")
      (simp add: finish_recovery_def Let_def)
  with ses' ses(1) slot show ?thesis
    using bootstrap_items_ok [OF assms(2), of "[]"] assms(3)
    by (simp add: establish_session_from_source_def mirrors_def)
qed

lemma sample_update_ok [simp]:
  "update_ok sample_crates (sample_update b slot)" "upd_slot (sample_update b slot) = slot"
  by (simp_all add: update_ok_def sample_update_def)

lemma established_session_mirrors_service_witness:
  "\<exists>ses. establish_session_from_source sample_crates 1
       [Ping True, AccountUpdate (sample_update 8 11), SlotUpdate 11 True]
       (Inr (10, om_insert (key_fill 1) (table_of sample_crates (key_fill 1) (sample_account 1)) om_empty)) =
     Inr ses \<and> ses_source_index ses = 1 \<and>
   mirrors sample_crates ses (snd (finish_recovery
      (replay [AccountWrite (key_fill 8) 11 5 (Some (sample_account 8)), ConfirmedSlot 11]
        (new_store, from_fetched_alt_state ''one'' sample_fetched))))"
proof -
  let ?t = "om_insert (key_fill 1) (table_of sample_crates (key_fill 1) (sample_account 1)) om_empty"
  let ?items = "[Ping True, AccountUpdate (sample_update 8 11), SlotUpdate 11 True]"
  have f: "context_slot sample_fetched = 10" "fetched_accounts sample_fetched = sample_map [1]"
    by (simp_all add: sample_fetched_def)
  have "om_get (sample_map [1]) = [key_fill 1 \<mapsto> sample_account 1]"
    by (auto simp: om_get_def om_items_sample_map)
  then have rel: "tables_rel sample_crates ?t (fetched_accounts sample_fetched)"
    by (simp add: tables_rel_def f)
  have events: "events_of ?items = [BufferedAccount (sample_update 8 11), BufferedConfirmedSlot 11]"
    by (simp add: events_of_def)
  have "orderly_feed sample_crates True (events_of ?items) (from_fetched_alt_state ''one'' sample_fetched)"
    by (simp add: events queue_accepted f)
  moreover have "list_all healthy ?items" and "length (events_of ?items) \<le> update_buffer_capacity"
    by (simp_all add: events update_buffer_capacity_def)
  ultimately show ?thesis
    using established_session_mirrors_service [OF rel, of ?items "''one''" 1 new_store]
    by (simp add: events f decoded_def del: replay_simps)
qed

text \<open>
  C14. While it follows an orderly, healthy feed, the client answers as the service would: every
  lookup returns the table of the account that a state updater fed with the same events holds for
  the key at the same confirmed slot, and nothing for a key it does not hold.
\<close>

theorem following_client_answers_as_service:
  assumes "mirrors c (cl_session cl) u" and "cl_confirmed_slot cl = confirmed_slot u"
    and "cl_ready cl" and "list_all healthy is" and "orderly_feed c False (events_of is) u"
  shows "\<exists>cl'. follow c is cl = (Inr (), cl') \<and>
    (let u' = snd (replay (concat (map (decoded c) (events_of is))) (st, u)) in
       cl_confirmed_slot cl' = confirmed_slot u' \<and>
       (\<forall>k. get_table k cl' = Inr (map_option (table_of c k) (om_get (accounts u') k))))"
  using follow_mirrors [OF assms(1,2,4,5)] assms(3)
  by (auto simp: mirror_replay Let_def get_table_def is_ready_def mirrors_def tables_rel_def)

lemma following_client_answers_as_service_witness:
  "\<exists>cl'. follow sample_crates [AccountUpdate (sample_update 8 11), SlotUpdate 11 True]
       \<lparr>cl_session = new_session 0 (10, om_empty), cl_ready = True, cl_confirmed_slot = 10\<rparr> =
     (Inr (), cl') \<and> cl_confirmed_slot cl' = 11"
proof -
  let ?f = "\<lparr>context_slot = 10, fetched_accounts = om_empty :: (key, account) omap\<rparr>"
  let ?u = "from_fetched_alt_state ''one'' ?f"
  let ?cl = "\<lparr>cl_session = new_session 0 (10, om_empty), cl_ready = True, cl_confirmed_slot = 10\<rparr>"
  let ?items = "[AccountUpdate (sample_update 8 11), SlotUpdate 11 True]"
  have "mirrors sample_crates (cl_session ?cl) ?u"
    by (simp add: mirrors_def new_session_def tables_rel_def pending_rel_def)
  moreover have "orderly_feed sample_crates False (events_of ?items) ?u"
    by (simp add: events_of_def queue_accepted)
  ultimately obtain cl' where "follow sample_crates ?items ?cl = (Inr (), cl')"
    and "cl_confirmed_slot cl' =
      confirmed_slot (snd (replay (concat (map (decoded sample_crates) (events_of ?items))) (new_store, ?u)))"
    using following_client_answers_as_service [of sample_crates ?cl ?u ?items new_store]
    by (auto simp: Let_def)
  then show ?thesis
    by (auto simp: confirmed_slot_replay_max events_of_def decoded_def simp del: replay_simps follow.simps)
qed

end
