(* ===== verification/Json_Rpc.thy ===== *)
theory Json_Rpc
  imports Paging Fetcher
begin

text \<open>
  \<^verbatim>\<open>src/api/json_rpc.rs\<close>: the three JSON-RPC methods over the store. Requests come in after
  \<^verbatim>\<open>serde\<close> has read them; the text of a pagination cursor, which clients store and send back,
  is modelled down to its characters.
\<close>

section \<open>Numbers and cursors as text\<close>

text \<open>\<^verbatim>\<open>format!("{slot}")\<close> and \<^verbatim>\<open>str::parse::<u64>()\<close>, which also takes a leading \<open>+\<close>.\<close>

definition digit :: "nat \<Rightarrow> char" where
  "digit n = char_of (48 + n)"

fun decimal :: "nat \<Rightarrow> string" where
  "decimal n = (if n < 10 then [digit n] else decimal (n div 10) @ [digit (n mod 10)])"

declare decimal.simps [simp del]

definition digit_value :: "char \<Rightarrow> nat option" where
  "digit_value ch =
     (let n = of_char ch in if 48 \<le> n \<and> n \<le> 57 then Some (n - 48) else None)"

fun parse_digits :: "nat \<Rightarrow> string \<Rightarrow> nat option" where
  "parse_digits acc [] = Some acc"
| "parse_digits acc (ch # s) =
     (case digit_value ch of
        None \<Rightarrow> None
      | Some d \<Rightarrow> if acc * 10 + d < 2 ^ 64 then parse_digits (acc * 10 + d) s else None)"

definition parse_u64 :: "string \<Rightarrow> u64 result" where
  "parse_u64 s =
     (let ds = (case s of ch # rest \<Rightarrow> if ch = CHR ''+'' then rest else s | [] \<Rightarrow> [])
      in if ds = [] then Inl InvalidSlotNumber
         else ok_or InvalidSlotNumber (map_option of_nat (parse_digits 0 ds)))"

text \<open>\<^verbatim>\<open>str::split_once\<close>: the text before and after the first occurrence.\<close>

fun split_once :: "char \<Rightarrow> string \<Rightarrow> (string \<times> string) option" where
  "split_once sep [] = None"
| "split_once sep (ch # s) =
     (if ch = sep then Some ([], s)
      else map_option (\<lambda>(before, after). (ch # before, after)) (split_once sep s))"

definition parse_cursor :: "crates \<Rightarrow> string \<Rightarrow> (u64 \<times> key) result" where
  "parse_cursor c cursor =
     and_then (ok_or CursorSeparatorMissing (split_once CHR '':'' cursor)) (\<lambda>(slot, key).
     and_then (parse_u64 slot) (\<lambda>s.
     and_then (parse_key c key) (\<lambda>k. Inr (s, k))))"

definition format_cursor :: "crates \<Rightarrow> u64 \<Rightarrow> key \<Rightarrow> string" where
  "format_cursor c slot key = decimal (unat slot) @ '':'' @ bs58_encode c (key_bytes key)"

section \<open>Requests, responses and errors\<close>

text \<open>A filter is an arbitrary JSON value, kept as its text; the code only counts them.\<close>

record program_accounts_config =
  cfg_commitment :: "string option"
  cfg_min_context_slot :: "u64 option"
  cfg_with_context :: "bool option"
  cfg_encoding :: "ui_account_encoding option"
  cfg_data_slice :: "ui_data_slice option"
  cfg_filters :: "string list option"
  cfg_sort_results :: "bool option"
  cfg_limit :: "usize option"
  cfg_pagination_key :: "string option"
  cfg_changed_since_slot :: "u64 option"

definition default_config :: program_accounts_config where
  "default_config =
     \<lparr>cfg_commitment = None, cfg_min_context_slot = None, cfg_with_context = None,
      cfg_encoding = None, cfg_data_slice = None, cfg_filters = None, cfg_sort_results = None,
      cfg_limit = None, cfg_pagination_key = None, cfg_changed_since_slot = None\<rparr>"

text \<open>\<^verbatim>\<open>ErrorObjectOwned\<close>: code and message.\<close>

datatype rpc_failure = RpcFailure (failure_code: int) (failure_message: string)

datatype program_accounts_response =
    AccountsOnly "keyed_ui_account list"
  | AccountsContext "keyed_ui_account list context_response"

record program_accounts_page =
  pap_accounts :: "keyed_ui_account list"
  pap_pagination_key :: "string option"

datatype program_accounts_v2_response =
    PageOnly program_accounts_page
  | PageContext "program_accounts_page context_response"

definition invalid_params :: "string \<Rightarrow> rpc_failure" where
  "invalid_params message = RpcFailure (-32602) message"

definition unavailable :: rpc_failure where
  "unavailable = RpcFailure (-32001) ''cache not ready; retry after recovery''"

definition snapshot_expired :: rpc_failure where
  "snapshot_expired = RpcFailure (-32002) ''snapshot expired; restart pagination''"

section \<open>Validation\<close>

definition validate_program :: "crates \<Rightarrow> string \<Rightarrow> rpc_failure + unit" where
  "validate_program c address =
     (if address \<noteq> program_id c then Inl (invalid_params ''only the ALT program is available'')
      else Inr ())"

text \<open>\<^verbatim>\<open>Option::is_some_and\<close> and \<^verbatim>\<open>Option::unwrap_or\<close>.\<close>

definition is_some_and :: "('a \<Rightarrow> bool) \<Rightarrow> 'a option \<Rightarrow> bool" where
  "is_some_and P x = (case x of None \<Rightarrow> False | Some y \<Rightarrow> P y)"

definition unwrap_or :: "'a \<Rightarrow> 'a option \<Rightarrow> 'a" where
  "unwrap_or d x = (case x of None \<Rightarrow> d | Some y \<Rightarrow> y)"

definition validate_config ::
  "program_accounts_config \<Rightarrow> bool \<Rightarrow> usize \<Rightarrow> rpc_failure + unit" where
  "validate_config cfg paginated max_page_size =
     (if is_some_and (\<lambda>value. value \<noteq> ''confirmed'') (cfg_commitment cfg)
      then Inl (invalid_params ''only confirmed commitment is available'')
      else if is_some_and (\<lambda>filters. filters \<noteq> []) (cfg_filters cfg)
      then Inl (invalid_params ''account filters are unsupported'')
      else if cfg_changed_since_slot cfg \<noteq> None
      then Inl (invalid_params ''changedSinceSlot is unsupported'')
      else if \<not> paginated \<and> (cfg_limit cfg \<noteq> None \<or> cfg_pagination_key cfg \<noteq> None)
      then Inl (invalid_params ''limit and paginationKey require getProgramAccountsV2'')
      else if paginated \<and>
        \<not> (1 \<le> unwrap_or 1000 (cfg_limit cfg) \<and> unwrap_or 1000 (cfg_limit cfg) \<le> max_page_size)
      then Inl (invalid_params ''limit exceeds the configured maximum'')
      else if cfg_encoding cfg = Some JsonParsed
      then Inl (invalid_params ''jsonParsed encoding is unsupported'')
      else Inr ())"

definition validate_min_context_slot ::
  "program_accounts_config \<Rightarrow> u64 \<Rightarrow> rpc_failure + unit" where
  "validate_min_context_slot cfg slot =
     (if is_some_and (\<lambda>minimum. slot < minimum) (cfg_min_context_slot cfg)
      then Inl (RpcFailure (-32016) ''minimum context slot has not been reached'')
      else Inr ())"

definition encode_accounts ::
  "crates \<Rightarrow> account list \<Rightarrow> program_accounts_config \<Rightarrow> rpc_failure + keyed_ui_account list" where
  "encode_accounts c accs cfg =
     (let encoding = unwrap_or Base64Zstd (cfg_encoding cfg)
      in map_err (\<lambda>_. RpcFailure (-32603) ''account encoding failed'')
           (collect_results
             (\<lambda>a. to_keyed_ui_account_with_config c a encoding (cfg_data_slice cfg)) accs))"

section \<open>The methods\<close>

definition rpc_health :: "store \<Rightarrow> rpc_failure + health_report" where
  "rpc_health s = Inr (health s)"

definition program_accounts ::
  "crates \<Rightarrow> usize \<Rightarrow> string \<Rightarrow> program_accounts_config option \<Rightarrow> store \<Rightarrow>
   rpc_failure + program_accounts_response" where
  "program_accounts c max_page_size address config s =
     and_then (validate_program c address) (\<lambda>_.
     let cfg = unwrap_or default_config config in
     and_then (validate_config cfg False max_page_size) (\<lambda>_.
     and_then (map_err (\<lambda>_. unavailable) (read_snapshot s)) (\<lambda>snapshot.
     and_then (validate_min_context_slot cfg (read_slot snapshot)) (\<lambda>_.
     and_then (encode_accounts c (om_values (read_accounts snapshot)) cfg) (\<lambda>accs.
       if unwrap_or False (cfg_with_context cfg)
       then Inr (AccountsContext \<lparr>ctx_slot = read_slot snapshot, ctx_value = accs\<rparr>)
       else Inr (AccountsOnly accs))))))"

text \<open>The end of \<^verbatim>\<open>program_accounts_v2\<close>, after the page was read.\<close>

definition v2_response ::
  "crates \<Rightarrow> program_accounts_config \<Rightarrow> snapshot_page_result \<Rightarrow>
   rpc_failure + program_accounts_v2_response" where
  "v2_response c cfg page =
     and_then (validate_min_context_slot cfg (page_slot page)) (\<lambda>_.
     and_then (encode_accounts c (page_accounts page) cfg) (\<lambda>accs.
       let v = \<lparr>pap_accounts = accs,
                pap_pagination_key =
                  map_option (\<lambda>key. format_cursor c (page_slot page) key) (page_next page)\<rparr>
       in if unwrap_or False (cfg_with_context cfg)
          then Inr (PageContext \<lparr>ctx_slot = page_slot page, ctx_value = v\<rparr>)
          else Inr (PageOnly v)))"

text \<open>\<^verbatim>\<open>as_deref().map(parse_cursor).transpose()\<close>.\<close>

definition parse_cursor_option :: "crates \<Rightarrow> string option \<Rightarrow> (u64 \<times> key) option result" where
  "parse_cursor_option c cursor =
     (case cursor of
        None \<Rightarrow> Inr None
      | Some text \<Rightarrow> and_then (parse_cursor c text) (\<lambda>p. Inr (Some p)))"

definition v2_page ::
  "crates \<Rightarrow> instant \<Rightarrow> program_accounts_config \<Rightarrow> (u64 \<times> key) option \<Rightarrow> store \<Rightarrow>
   (rpc_failure + program_accounts_v2_response) \<times> store" where
  "v2_page c now cfg cursor s =
     (let limit = unwrap_or 1000 (cfg_limit cfg);
          snapshot_slot = map_option fst cursor;
          after = map_option snd cursor;
          (page, s') = snapshot_page now snapshot_slot after limit s
      in (and_then
            (map_err (\<lambda>_. if snapshot_slot \<noteq> None then snapshot_expired else unavailable) page)
            (v2_response c cfg),
          s'))"

definition program_accounts_v2 ::
  "crates \<Rightarrow> usize \<Rightarrow> instant \<Rightarrow> string \<Rightarrow> program_accounts_config option \<Rightarrow> store \<Rightarrow>
   (rpc_failure + program_accounts_v2_response) \<times> store" where
  "program_accounts_v2 c max_page_size now address config s =
     (let cfg = unwrap_or default_config config in
      case and_then (validate_program c address) (\<lambda>_.
           and_then (validate_config cfg True max_page_size) (\<lambda>_.
           map_err (\<lambda>_. invalid_params ''invalid paginationKey'')
             (parse_cursor_option c (cfg_pagination_key cfg)))) of
        Inl e \<Rightarrow> (Inl e, s)
      | Inr cursor \<Rightarrow> v2_page c now cfg cursor s)"

section \<open>Cursors read back\<close>

lemma digit_value_digit [simp]: "d < 10 \<Longrightarrow> digit_value (digit d) = Some d"
  by (simp add: digit_value_def digit_def Let_def)

lemma digit_not_special [simp]: "d < 10 \<Longrightarrow> digit d \<noteq> CHR '':''" "d < 10 \<Longrightarrow> digit d \<noteq> CHR ''+''"
proof -
  assume "d < 10"
  then have "digit_value (digit d) \<noteq> None" by simp
  then show "digit d \<noteq> CHR '':''" and "digit d \<noteq> CHR ''+''"
    by (auto simp: digit_value_def Let_def)
qed

lemma decimal_not_empty [simp]: "decimal n \<noteq> []"
  by (subst decimal.simps) simp

lemma decimal_chars: "ch \<in> set (decimal n) \<Longrightarrow> \<exists>d < 10. ch = digit d"
proof (induction n rule: decimal.induct)
  case (1 n)
  then show ?case
    by (cases "n < 10") (auto simp: decimal.simps [of n] intro: exI [of _ "n mod 10"])
qed

lemma parse_digits_append:
  "parse_digits acc (xs @ ys) =
     (case parse_digits acc xs of None \<Rightarrow> None | Some n \<Rightarrow> parse_digits n ys)"
  by (induction acc xs rule: parse_digits.induct) (auto split: option.split)

lemma parse_digits_decimal: "n < 2 ^ 64 \<Longrightarrow> parse_digits 0 (decimal n) = Some n"
proof (induction n rule: decimal.induct)
  case (1 n)
  show ?case
  proof (cases "n < 10")
    case True
    then show ?thesis by (simp add: decimal.simps [of n])
  next
    case False
    have "n div 10 < 2 ^ 64" using 1(2) by linarith
    with 1(1) False have "parse_digits 0 (decimal (n div 10)) = Some (n div 10)" by simp
    moreover have "n div 10 * 10 + n mod 10 = n" by simp
    ultimately show ?thesis
      using False 1(2) by (simp add: decimal.simps [of n] parse_digits_append)
  qed
qed

lemma parse_u64_decimal [simp]: "parse_u64 (decimal (unat n)) = Inr n"
proof -
  obtain ch rest where ds: "decimal (unat n) = ch # rest"
    by (cases "decimal (unat n)") auto
  then have "ch \<noteq> CHR ''+''"
    using decimal_chars [of ch "unat n"] by auto
  moreover have "parse_digits 0 (decimal (unat n)) = Some (unat n)"
    using unsigned_less [of n] by (intro parse_digits_decimal) simp
  ultimately show ?thesis
    by (simp add: parse_u64_def Let_def ds)
qed

lemma split_once_append:
  "sep \<notin> set xs \<Longrightarrow> split_once sep (xs @ sep # ys) = Some (xs, ys)"
  by (induction xs) auto

lemma colon_not_in_decimal: "CHR '':'' \<notin> set (decimal n)"
  using decimal_chars [of "CHR '':''" n] digit_not_special(1) by metis

lemma parse_format_cursor:
  "bs58_law c \<Longrightarrow> parse_cursor c (format_cursor c slot key) = Inr (slot, key)"
  using split_once_append [OF colon_not_in_decimal]
  by (simp add: parse_cursor_def format_cursor_def parse_key_encode)

section \<open>Encoding a listing\<close>

abbreviation renders :: "crates \<Rightarrow> program_accounts_config \<Rightarrow> account \<Rightarrow> keyed_ui_account \<Rightarrow> bool" where
  "renders c cfg a k \<equiv>
     to_keyed_ui_account_with_config c a (unwrap_or Base64Zstd (cfg_encoding cfg))
       (cfg_data_slice cfg) = Inr k"

lemma validate_config_ok:
  "validate_config cfg paginated max_page_size = Inr () \<longleftrightarrow>
     cfg_commitment cfg \<in> {None, Some ''confirmed''} \<and> cfg_filters cfg \<in> {None, Some []} \<and>
     cfg_changed_since_slot cfg = None \<and> cfg_encoding cfg \<noteq> Some JsonParsed \<and>
     (if paginated
      then 1 \<le> unwrap_or 1000 (cfg_limit cfg) \<and> unwrap_or 1000 (cfg_limit cfg) \<le> max_page_size
      else cfg_limit cfg = None \<and> cfg_pagination_key cfg = None)"
  by (auto simp: validate_config_def is_some_and_def split: option.splits)

lemma to_keyed_total:
  assumes "zstd_total c" and "e \<noteq> JsonParsed" and "length (data (account_value a)) < 2 ^ 64"
  shows "\<exists>k. to_keyed_ui_account_with_config c a e sl = Inr k"
proof (cases sl)
  case None
  with encode_data_total [OF assms(1,2)] show ?thesis by (simp add: to_keyed_ok)
next
  case (Some s)
  with encode_data_total [OF assms(1,2)] show ?thesis
    by (simp add: to_keyed_ok slice_data_Some [OF assms(3)])
qed

lemma encode_accounts_total:
  assumes "zstd_total c" and "validate_config cfg paginated max_page_size = Inr ()"
    and "\<And>a. a \<in> set accs \<Longrightarrow> length (data (account_value a)) < 2 ^ 64"
  shows "\<exists>ks. encode_accounts c accs cfg = Inr ks \<and> list_all2 (renders c cfg) accs ks"
proof -
  let ?e = "unwrap_or Base64Zstd (cfg_encoding cfg)"
  have "?e \<noteq> JsonParsed"
    using assms(2) by (auto simp: validate_config_ok unwrap_or_def split: option.split)
  then have "\<forall>a \<in> set accs. \<exists>k. renders c cfg a k"
    using to_keyed_total assms(1,3) by blast
  then obtain g where g: "\<And>a. a \<in> set accs \<Longrightarrow> renders c cfg a (g a)"
    by metis
  then have "collect_results
      (\<lambda>a. to_keyed_ui_account_with_config c a ?e (cfg_data_slice cfg)) accs = Inr (map g accs)"
    by (rule collect_results_map)
  moreover have "list_all2 (renders c cfg) accs (map g accs)"
    using g by (simp add: list_all2_map2 list_all2_same)
  ultimately show ?thesis
    by (auto simp: encode_accounts_def Let_def)
qed

lemma validate_min_ok:
  "validate_min_context_slot cfg slot = Inr () \<longleftrightarrow> (\<forall>m. cfg_min_context_slot cfg = Some m \<longrightarrow> m \<le> slot)"
  by (auto simp: validate_min_context_slot_def is_some_and_def not_less split: option.splits)

section \<open>Properties\<close>

text \<open>
  C31. \<^verbatim>\<open>getProgramAccounts\<close> returns the whole served state: for every accepted configuration,
  on a ready cache that has reached the asked slot, the reply holds one entry for each account
  of the current snapshot, in key order and in the asked encoding and slice, together with the
  snapshot's slot when the context is asked for.
\<close>

theorem program_accounts_whole_state:
  assumes "zstd_total c" and "validate_config cfg False max_page_size = Inr ()"
    and "ready s" and "validate_min_context_slot cfg (snap_slot (current s)) = Inr ()"
    and "\<And>a. a \<in> set (om_values (snap_accounts (current s))) \<Longrightarrow>
           length (data (account_value a)) < 2 ^ 64"
  shows "\<exists>ks. list_all2 (renders c cfg) (om_values (snap_accounts (current s))) ks \<and>
    program_accounts c max_page_size (program_id c) (Some cfg) s =
      Inr (if cfg_with_context cfg = Some True
           then AccountsContext \<lparr>ctx_slot = snap_slot (current s), ctx_value = ks\<rparr>
           else AccountsOnly ks)"
proof -
  obtain ks where ks: "encode_accounts c (om_values (snap_accounts (current s))) cfg = Inr ks"
    "list_all2 (renders c cfg) (om_values (snap_accounts (current s))) ks"
    using encode_accounts_total [OF assms(1,2,5)] by blast
  have "unwrap_or False (cfg_with_context cfg) \<longleftrightarrow> cfg_with_context cfg = Some True"
    by (simp add: unwrap_or_def split: option.split)
  with ks assms(2-4) show ?thesis
    by (intro exI [of _ ks])
      (simp add: program_accounts_def validate_program_def unwrap_or_def [of default_config]
        read_snapshot_def)
qed

lemma program_accounts_whole_state_witness:
  "\<exists>ks. list_all2 (renders sample_crates default_config) [sample_account 1, sample_account 2] ks \<and>
     program_accounts sample_crates 10 (program_id sample_crates) (Some default_config)
       (publish ''one'' 13 (sample_map [2, 1]) new_store) = Inr (AccountsOnly ks)"
proof -
  have cur: "current (publish ''one'' 13 (sample_map [2, 1]) new_store) =
      \<lparr>snap_slot = 13, snap_accounts = sample_map [2, 1]\<rparr>"
    by (simp add: current_publish new_store_def)
  have vals: "om_values (sample_map [2, 1]) = [sample_account 1, sample_account 2]"
    by (simp add: om_values_def om_items_sample_map)
  have short: "length (data (account_value a)) < 2 ^ 64"
    if "a \<in> set (om_values (snap_accounts (current (publish ''one'' 13 (sample_map [2, 1]) new_store))))"
    for a
    using that by (auto simp: cur vals)
  have "validate_config default_config False 10 = Inr ()"
    and "validate_min_context_slot default_config 13 = Inr ()"
    by (simp_all add: default_config_def validate_config_def validate_min_context_slot_def
        is_some_and_def)
  note accepted = this
  have min: "validate_min_context_slot default_config
      (snap_slot (current (publish ''one'' 13 (sample_map [2, 1]) new_store))) = Inr ()"
    using accepted(2) by (simp add: cur)
  have "cfg_with_context default_config = None" by (simp add: default_config_def)
  with program_accounts_whole_state [OF sample_crates_laws(3) accepted(1) store_frames(5) [THEN eqTrueE] min short]
  show ?thesis by (simp add: cur vals)
qed

lemma v2_page_eq:
  "validate_config cfg True max_page_size = Inr () \<Longrightarrow>
   parse_cursor_option c (cfg_pagination_key cfg) = Inr cursor \<Longrightarrow>
   program_accounts_v2 c max_page_size now (program_id c) (Some cfg) s = v2_page c now cfg cursor s"
  by (simp add: program_accounts_v2_def validate_program_def unwrap_or_def [of default_config])

lemma v2_response_error:
  "v2_response c cfg page = Inl e \<Longrightarrow> failure_code e \<in> {-32016, -32603}"
  by (auto simp: v2_response_def and_then_def validate_min_context_slot_def encode_accounts_def
      map_err_def Let_def split: sum.splits if_splits)

lemma snapshot_page_error:
  assumes "0 < limit"
  shows "is_ok (fst (snapshot_page now sl after limit s)) \<longleftrightarrow>
    ready s \<and> (\<forall>slot. sl = Some slot \<longrightarrow> retained (purge now s) slot \<noteq> None)"
proof (cases sl)
  case None
  with assms show ?thesis by (simp add: snapshot_page_def pick_snapshot_def Let_def)
next
  case (Some slot)
  with assms show ?thesis
    by (cases "retained (purge now s) slot") (simp_all add: snapshot_page_def pick_snapshot_def Let_def)
qed

lemma v2_page_served:
  assumes "zstd_total c" and "validate_config cfg True max_page_size = Inr ()"
    and "parse_cursor_option c (cfg_pagination_key cfg) = Inr cursor"
    and "snapshot_page now (map_option fst cursor) (map_option snd cursor)
           (unwrap_or 1000 (cfg_limit cfg)) s = (Inr p, s')"
    and "validate_min_context_slot cfg (page_slot p) = Inr ()"
    and "\<And>a. a \<in> set (page_accounts p) \<Longrightarrow> length (data (account_value a)) < 2 ^ 64"
  shows "\<exists>ks. list_all2 (renders c cfg) (page_accounts p) ks \<and>
    program_accounts_v2 c max_page_size now (program_id c) (Some cfg) s =
      (Inr (let v = \<lparr>pap_accounts = ks, pap_pagination_key =
                    map_option (\<lambda>key. format_cursor c (page_slot p) key) (page_next p)\<rparr>
            in if cfg_with_context cfg = Some True
               then PageContext \<lparr>ctx_slot = page_slot p, ctx_value = v\<rparr> else PageOnly v), s')"
proof -
  obtain ks where ks: "encode_accounts c (page_accounts p) cfg = Inr ks"
    "list_all2 (renders c cfg) (page_accounts p) ks"
    using encode_accounts_total [OF assms(1,2,6)] by blast
  moreover have "unwrap_or False (cfg_with_context cfg) \<longleftrightarrow> cfg_with_context cfg = Some True"
    by (simp add: unwrap_or_def split: option.split)
  ultimately show ?thesis
    using assms(4,5)
    by (intro exI [of _ ks])
      (simp add: v2_page_eq [OF assms(2,3)] v2_page_def v2_response_def Let_def)
qed

lemma parse_formatted_option:
  "bs58_law c \<Longrightarrow> parse_cursor_option c (map_option (format_cursor c slot) k) = Inr (map_option (Pair slot) k)"
  by (cases k) (simp_all add: parse_cursor_option_def parse_format_cursor)

text \<open>
  C33. A page request whose configuration and cursor are accepted is answered with the error
  "unavailable" (\<open>-32001\<close>) exactly when it has no cursor and the cache is not ready, and with
  "snapshot expired" (\<open>-32002\<close>) exactly when it has a cursor and the cache is not ready or no
  longer retains the snapshot of the cursor's slot; so a request with a cursor is never told that
  the cache is not ready.
\<close>

theorem v2_unavailable_or_expired:
  assumes "validate_config cfg True max_page_size = Inr ()"
    and "parse_cursor_option c (cfg_pagination_key cfg) = Inr cursor"
  shows "let reply = fst (program_accounts_v2 c max_page_size now (program_id c) (Some cfg) s) in
    ((\<exists>e. reply = Inl e \<and> failure_code e = -32001) \<longleftrightarrow> cursor = None \<and> \<not> ready s) \<and>
    ((\<exists>e. reply = Inl e \<and> failure_code e = -32002) \<longleftrightarrow>
      (\<exists>slot key. cursor = Some (slot, key) \<and> (\<not> ready s \<or> retained (purge now s) slot = None)))"
proof -
  let ?limit = "unwrap_or 1000 (cfg_limit cfg)"
  have "1 \<le> ?limit"
    using assms(1) by (simp add: validate_config_ok)
  then have "0 < ?limit" by (rule less_le_trans [rotated]) simp
  note ok = snapshot_page_error [OF this, of now "map_option fst cursor" "map_option snd cursor" s]
  obtain page s'' where page: "snapshot_page now (map_option fst cursor) (map_option snd cursor)
      ?limit s = (page, s'')" by fastforce
  define reply where "reply = fst (program_accounts_v2 c max_page_size now (program_id c) (Some cfg) s)"
  have reply: "reply = and_then (map_err
      (\<lambda>_. if map_option fst cursor \<noteq> None then snapshot_expired else unavailable) page)
      (v2_response c cfg)"
    unfolding reply_def v2_page_eq [OF assms(1,2)] by (simp add: v2_page_def page)
  have "((\<exists>e. reply = Inl e \<and> failure_code e = -32001) \<longleftrightarrow> cursor = None \<and> \<not> ready s) \<and>
    ((\<exists>e. reply = Inl e \<and> failure_code e = -32002) \<longleftrightarrow>
      (\<exists>slot key. cursor = Some (slot, key) \<and> (\<not> ready s \<or> retained (purge now s) slot = None)))"
  proof (cases page)
    case (Inl err)
    with reply ok page show ?thesis
      by (cases cursor) (auto simp: snapshot_expired_def unavailable_def)
  next
    case (Inr p)
    with reply have "reply = Inl e \<Longrightarrow> failure_code e \<in> {-32016, -32603}" for e
      by (intro v2_response_error) simp
    then have "\<not> (\<exists>e. reply = Inl e \<and> (failure_code e = -32001 \<or> failure_code e = -32002))" by fastforce
    moreover have "ready s \<and> (\<forall>slot. map_option fst cursor = Some slot \<longrightarrow> retained (purge now s) slot \<noteq> None)"
      using ok page Inr by simp
    ultimately show ?thesis by (cases cursor) auto
  qed
  then show ?thesis by (simp add: reply_def)
qed

lemma v2_unavailable_or_expired_witness:
  "(\<exists>e. fst (program_accounts_v2 sample_crates 5000 0 (program_id sample_crates)
       (Some default_config) new_store) = Inl e \<and> failure_code e = -32001) \<and>
   (\<exists>e. fst (program_accounts_v2 sample_crates 5000 0 (program_id sample_crates)
       (Some (default_config\<lparr>cfg_pagination_key := Some (format_cursor sample_crates 13 (key_fill 7))\<rparr>))
       new_store) = Inl e \<and> failure_code e = -32002)"
proof -
  let ?next = "default_config\<lparr>cfg_pagination_key := Some (format_cursor sample_crates 13 (key_fill 7))\<rparr>"
  have "validate_config default_config True 5000 = Inr ()" "validate_config ?next True 5000 = Inr ()"
    "parse_cursor_option sample_crates (cfg_pagination_key default_config) = Inr None"
    by (simp_all add: validate_config_def default_config_def is_some_and_def unwrap_or_def
        parse_cursor_option_def)
  moreover have "parse_cursor_option sample_crates (cfg_pagination_key ?next) = Inr (Some (13, key_fill 7))"
    using parse_formatted_option [OF sample_crates_laws(1), of 13 "Some (key_fill 7)"] by simp
  ultimately show ?thesis
    using v2_unavailable_or_expired [of default_config 5000 sample_crates None 0 new_store]
      v2_unavailable_or_expired [of ?next 5000 sample_crates "Some (13, key_fill 7)" 0 new_store]
    by (simp add: new_store_def Let_def)
qed

text \<open>
  C32. An accepted page request returns the store's page: its accounts, rendered, its slot when
  the context is asked for, and as pagination key a text that the next request parses back to
  the page's slot and last key, with no key on the last page.
\<close>

theorem v2_serves_page:
  assumes "bs58_law c" and "zstd_total c" and "validate_config cfg True max_page_size = Inr ()"
    and "parse_cursor_option c (cfg_pagination_key cfg) = Inr cursor"
    and "snapshot_page now (map_option fst cursor) (map_option snd cursor)
           (unwrap_or 1000 (cfg_limit cfg)) s = (Inr p, s')"
    and "validate_min_context_slot cfg (page_slot p) = Inr ()"
    and "\<And>a. a \<in> set (page_accounts p) \<Longrightarrow> length (data (account_value a)) < 2 ^ 64"
  shows "\<exists>v. list_all2 (renders c cfg) (page_accounts p) (pap_accounts v) \<and>
    parse_cursor_option c (pap_pagination_key v) = Inr (map_option (Pair (page_slot p)) (page_next p)) \<and>
    program_accounts_v2 c max_page_size now (program_id c) (Some cfg) s =
      (Inr (if cfg_with_context cfg = Some True
            then PageContext \<lparr>ctx_slot = page_slot p, ctx_value = v\<rparr> else PageOnly v), s')"
proof -
  obtain ks where ks: "list_all2 (renders c cfg) (page_accounts p) ks"
    and reply: "program_accounts_v2 c max_page_size now (program_id c) (Some cfg) s =
      (Inr (let v = \<lparr>pap_accounts = ks, pap_pagination_key =
                    map_option (\<lambda>key. format_cursor c (page_slot p) key) (page_next p)\<rparr>
            in if cfg_with_context cfg = Some True
               then PageContext \<lparr>ctx_slot = page_slot p, ctx_value = v\<rparr> else PageOnly v), s')"
    using v2_page_served [OF assms(2-7)] by blast
  then show ?thesis
    by (intro exI [of _ "\<lparr>pap_accounts = ks, pap_pagination_key =
        map_option (\<lambda>key. format_cursor c (page_slot p) key) (page_next p)\<rparr>"])
      (simp add: parse_formatted_option [OF assms(1)] Let_def)
qed

lemma v2_serves_page_witness:
  "\<exists>v s'. list_all2 (renders sample_crates default_config) [sample_account 1, sample_account 2]
       (pap_accounts v) \<and> pap_pagination_key v = None \<and>
     program_accounts_v2 sample_crates 5000 0 (program_id sample_crates) (Some default_config)
       (publish ''one'' 13 (sample_map [2, 1]) new_store) = (Inr (PageOnly v), s')"
proof -
  let ?s = "publish ''one'' 13 (sample_map [2, 1]) new_store"
  let ?p = "\<lparr>page_slot = 13, page_accounts = [sample_account 1, sample_account 2], page_next = None\<rparr>"
  have "snapshot_page 0 None None 1000 ?s = (Inr ?p, ?s)"
    by (simp add: snapshot_page_def pick_snapshot_def page_of_def Let_def current_publish
        new_store_def om_items_sample_map)
  then have page: "snapshot_page 0 (map_option fst None) (map_option snd (None :: (u64 \<times> key) option))
      (unwrap_or 1000 (cfg_limit default_config)) ?s = (Inr ?p, ?s)"
    by (simp add: default_config_def unwrap_or_def)
  have accepted: "validate_config default_config True 5000 = Inr ()"
    "parse_cursor_option sample_crates (cfg_pagination_key default_config) = Inr None"
    "validate_min_context_slot default_config (page_slot ?p) = Inr ()"
    by (simp_all add: validate_config_def default_config_def is_some_and_def unwrap_or_def
        parse_cursor_option_def validate_min_context_slot_def)
  have short: "length (data (account_value a)) < 2 ^ 64" if "a \<in> set (page_accounts ?p)" for a
    using that by auto
  have last: "k = None" if "parse_cursor_option sample_crates k = Inr None" for k
    using that by (cases k) (auto simp: parse_cursor_option_def and_then_eq_Inr)
  from v2_serves_page [OF sample_crates_laws(1,3) accepted(1,2) page accepted(3) short]
  show ?thesis by (auto simp: default_config_def dest: last)
qed

end
