(* ===== verification/Validity.thy ===== *)
theory Validity
  imports Lifecycle Mirroring Json_Rpc
begin

text \<open>
  What the service holds is valid: every account it stages, shows or retains belongs to the lookup
  table program, deserializes as a table, is open, and is filed under its own key. The invariant
  spans the whole machine of \<open>Service\<close>, from the fetcher's pages and the decoded updates
  to the store's retained snapshots.
\<close>

section \<open>Valid entries\<close>

definition good_entry :: "crates \<Rightarrow> key \<Rightarrow> account \<Rightarrow> bool" where
  "good_entry c k a \<longleftrightarrow>
     valid_account c a \<and> pubkey (account_value a) = key_bytes k \<and> lamports (account_value a) \<noteq> 0"

definition good_map :: "crates \<Rightarrow> (key, account) omap \<Rightarrow> bool" where
  "good_map c m \<longleftrightarrow> list_all (\<lambda>e. good_entry c (fst e) (snd e)) (om_items m)"

definition good_value :: "crates \<Rightarrow> key \<Rightarrow> account option \<Rightarrow> bool" where
  "good_value c k a \<longleftrightarrow> (case a of None \<Rightarrow> True | Some acc \<Rightarrow> good_entry c k acc)"

fun good_event :: "crates \<Rightarrow> state_event \<Rightarrow> bool" where
  "good_event c (AccountWrite k sl v a) \<longleftrightarrow> good_value c k a"
| "good_event c (ConfirmedSlot sl) \<longleftrightarrow> True"

definition good_mutation :: "crates \<Rightarrow> mutation \<Rightarrow> bool" where
  "good_mutation c m \<longleftrightarrow> good_value c (mut_key m) (mut_account m)"

definition good_updater :: "crates \<Rightarrow> state_updater \<Rightarrow> bool" where
  "good_updater c u \<longleftrightarrow>
     good_map c (accounts u) \<and>
     list_all (\<lambda>e. list_all (good_mutation c) (snd e)) (om_items (pending u))"

definition good_store :: "crates \<Rightarrow> store \<Rightarrow> bool" where
  "good_store c s \<longleftrightarrow>
     good_map c (snap_accounts (current s)) \<and>
     (\<forall>slot r. retained s slot = Some r \<longrightarrow> good_map c (snap_accounts (ret_snapshot r)))"

lemma good_mutation_record [simp]:
  "good_mutation c \<lparr>mut_key = k, mut_account = a\<rparr> = good_value c k a"
  by (simp add: good_mutation_def)

lemma good_map_get: "good_map c m \<longleftrightarrow> (\<forall>k a. om_get m k = Some a \<longrightarrow> good_entry c k a)"
  by (auto simp: good_map_def list_all_iff om.items_look [symmetric])

lemma good_map_simps [simp]:
  "good_map c om_empty"
  "good_map c m \<Longrightarrow> good_entry c k a \<Longrightarrow> good_map c (om_insert k a m)"
  "good_map c m \<Longrightarrow> good_map c (om_remove k m)"
  by (auto simp: good_map_get)

lemma good_map_decodable: "good_map c m \<Longrightarrow> decodable_map c m"
  by (auto simp: good_map_get decodable_map_get good_entry_def valid_account_def decodable_def)

section \<open>Where accounts come from\<close>

lemma from_rpc_lamports: "from_rpc c s acc = Inr a \<Longrightarrow> lamports (account_value a) = ui_lamports acc"
  by (auto simp: from_rpc_def result_ok from_yellowstone_ok)

lemma entry_of_good: "(k, a) \<in> set (entry_of c e) \<Longrightarrow> good_entry c k a"
  by (cases "parse_key c (kua_pubkey e)"; cases "from_rpc c (kua_pubkey e) (kua_account e)")
    (auto simp: entry_of_def good_entry_def from_rpc_valid from_rpc_pubkey from_rpc_lamports
      split: if_splits)

lemma listing_good: "good_map c (listing c es)"
  unfolding good_map_get
proof (intro allI impI)
  fix k a
  assume "om_get (listing c es) k = Some a"
  then have "(k, a) \<in> set (concat (map (entry_of c) es))"
    unfolding listing_def om_get_of_list by (auto dest: map_of_SomeD)
  then show "good_entry c k a" by (auto intro: entry_of_good)
qed

lemma fetch_result_good: "fetch_result c minimum (Inr f) \<Longrightarrow> good_map c (fetched_accounts f)"
  by (auto simp: fetch_result_def fetch_success_def listing_good dest!: fetch_ok)

lemma update_value_good:
  assumes "pubkey acc = key_bytes k" and "owner acc = key_bytes own"
  shows "good_value c k (update_value c acc own)"
  using assms by (auto simp: good_value_def update_value_eq good_entry_def)

lemma decode_good: "decode_account_update c upd = Inr ev \<Longrightarrow> good_event c ev"
  by (auto simp: decode_ok update_value_good)

section \<open>The updater\<close>

lemma good_from_fetched: "good_map c (fetched_accounts f) \<Longrightarrow> good_updater c (from_fetched_alt_state url f)"
  by (simp add: good_updater_def)

lemma list_all_entry_insert:
  "list_all (\<lambda>e. P (snd e)) xs \<Longrightarrow> P v \<Longrightarrow> list_all (\<lambda>e. P (snd e)) (entry_insert k v xs)"
  by (induction k v xs rule: entry_insert.induct) auto

lemma good_queue:
  assumes "good_updater c u" and "good_value c k a"
  shows "good_updater c (snd (queue k sl v a u))"
proof -
  let ?ms = "(case om_get (pending u) sl of None \<Rightarrow> [] | Some ms \<Rightarrow> ms)"
  have "list_all (good_mutation c) ?ms"
  proof (cases "om_get (pending u) sl")
    case (Some ms)
    then have "(sl, ms) \<in> set (om_items (pending u))" by (simp add: om.items_look)
    with assms(1) Some show ?thesis by (force simp: good_updater_def list_all_iff)
  qed simp
  then have "list_all (\<lambda>e. list_all (good_mutation c) (snd e))
      (om_items (push_pending sl \<lparr>mut_key = k, mut_account = a\<rparr> (pending u)))"
    unfolding push_pending_def om_insert.rep_eq
    using assms by (intro list_all_entry_insert) (simp_all add: good_updater_def)
  with assms(1) show ?thesis
    by (auto simp: queue_def good_updater_def)
qed

lemma good_apply_mutation:
  "good_map c accs \<Longrightarrow> good_mutation c m \<Longrightarrow> good_map c (apply_mutation m accs)"
  by (auto simp: apply_mutation_def good_mutation_def good_value_def split: option.splits)

lemma good_fold_mutations:
  "good_map c accs \<Longrightarrow> list_all (good_mutation c) ms \<Longrightarrow> good_map c (fold apply_mutation ms accs)"
  by (induction ms arbitrary: accs) (simp_all add: good_apply_mutation)

lemma good_apply_pending:
  assumes "good_updater c u"
  shows "good_updater c (apply_pending_through s u)"
proof -
  have "list_all (good_mutation c) (staged s (pending u))"
    using assms by (auto simp: good_updater_def staged_def list_all_iff)
  with assms show ?thesis
    by (auto simp: good_updater_def accounts_apply_pending_through pending_apply_pending_through
        good_fold_mutations list_all_iff)
qed

lemma good_updater_frames [simp]:
  "good_updater c (u\<lparr>confirmed_slot := s\<rparr>) = good_updater c u"
  "good_updater c (u\<lparr>recovering := b\<rparr>) = good_updater c u"
  by (simp_all add: good_updater_def)

lemma good_updater_accounts: "good_updater c u \<Longrightarrow> good_map c (accounts u)"
  by (simp add: good_updater_def)

section \<open>The store\<close>

lemma good_invalidate [simp]: "good_store c (invalidate s) = good_store c s"
  by (simp add: good_store_def)

lemma good_publish: "good_store c s \<Longrightarrow> good_map c accs \<Longrightarrow> good_store c (publish url slot accs s)"
  by (simp add: good_store_def current_publish)

lemma good_purge: "good_store c s \<Longrightarrow> good_store c (purge now s)"
  by (auto simp: good_store_def purge_retained)

lemma good_retain: "good_store c s \<Longrightarrow> good_map c (snap_accounts snap) \<Longrightarrow> good_store c (retain now snap s)"
  by (auto simp: good_store_def retain_def split: option.splits)

lemma good_pick:
  assumes "good_store c s" and "pick_snapshot now sl s = (res, s')"
  shows "good_store c s' \<and> (\<forall>snap. res = Inr snap \<longrightarrow> good_map c (snap_accounts snap))"
proof (cases sl)
  case None
  with assms show ?thesis by (auto simp: pick_snapshot_def good_store_def)
next
  case (Some slot)
  have purged: "good_store c (purge now s)" by (rule good_purge [OF assms(1)])
  show ?thesis
  proof (cases "retained (purge now s) slot")
    case None
    with assms(2) Some purged show ?thesis by (auto simp: pick_snapshot_def Let_def)
  next
    case ret: (Some r)
    with purged have "good_map c (snap_accounts (ret_snapshot r))"
      unfolding good_store_def by blast
    moreover from assms(2) Some ret have "res = Inr (ret_snapshot r)"
      and "s' = (purge now s)\<lparr>retained := (retained (purge now s))(slot \<mapsto> r\<lparr>touched := now\<rparr>)\<rparr>"
      by (auto simp: pick_snapshot_def Let_def)
    ultimately show ?thesis
      using purged by (auto simp: good_store_def)
  qed
qed

lemma good_snapshot_page:
  assumes "good_store c s"
  shows "good_store c (snd (snapshot_page now sl after limit s))"
    and "fst (snapshot_page now sl after limit s) = Inr p \<Longrightarrow>
      a \<in> set (page_accounts p) \<Longrightarrow> \<exists>k. good_entry c k a"
proof -
  obtain res s' where pick: "pick_snapshot now sl s = (res, s')" by fastforce
  note good = good_pick [OF assms pick]
  show "good_store c (snd (snapshot_page now sl after limit s))"
    using assms good
    by (cases res) (auto simp: snapshot_page_def pick Let_def good_retain)
  assume "fst (snapshot_page now sl after limit s) = Inr p" and a: "a \<in> set (page_accounts p)"
  then obtain snap where "res = Inr snap" and p: "p = page_of snap after limit"
    by (cases res) (auto simp: snapshot_page_def pick Let_def split: if_splits)
  with good have "good_map c (snap_accounts snap)" by simp
  moreover obtain k where "(k, a) \<in> set (om_items (snap_accounts snap))"
    using a by (auto simp: p page_of_def Let_def om_after_def dest!: in_set_takeD split: option.splits)
  ultimately show "\<exists>k. good_entry c k a" by (force simp: good_map_def list_all_iff)
qed

section \<open>Store and updater together\<close>

definition good_pair :: "crates \<Rightarrow> store \<times> state_updater \<Rightarrow> bool" where
  "good_pair c su \<longleftrightarrow> good_store c (fst su) \<and> good_updater c (snd su)"

lemma good_apply_event: "good_pair c su \<Longrightarrow> good_event c e \<Longrightarrow> good_pair c (apply_state_event e su)"
  by (cases su; cases e)
    (auto simp: good_pair_def good_queue confirm_def Let_def good_apply_pending good_publish
      good_updater_accounts)

lemma good_replay: "good_pair c su \<Longrightarrow> list_all (good_event c) es \<Longrightarrow> good_pair c (replay es su)"
  by (induction es arbitrary: su) (simp_all add: good_apply_event)

lemma good_finish_recovery:
  assumes "good_pair c su"
  shows "good_pair c (finish_recovery su)"
proof (cases su)
  case (Pair s u)
  have "good_updater c (apply_pending_through (confirmed_slot u) u)"
    using assms by (simp add: Pair good_pair_def good_apply_pending)
  then show ?thesis
    using assms
    by (simp add: Pair good_pair_def finish_recovery_def Let_def good_publish good_updater_accounts)
qed

lemma good_installed:
  "good_store c s \<Longrightarrow> good_map c (fetched_accounts f) \<Longrightarrow> list_all (good_event c) es \<Longrightarrow>
   good_pair c (finish_recovery (replay es (s, from_fetched_alt_state url f)))"
  by (intro good_finish_recovery good_replay) (simp_all add: good_pair_def good_from_fetched)

section \<open>The service\<close>

fun good_phase :: "crates \<Rightarrow> phase \<Rightarrow> bool" where
  "good_phase c (Bootstrapping url buffered) \<longleftrightarrow> list_all (good_event c) buffered"
| "good_phase c (Serving url u refresh) \<longleftrightarrow>
     good_updater c u \<and>
     (case refresh of None \<Rightarrow> True | Some r \<Rightarrow> list_all (good_event c) (buffered_events r))"
| "good_phase c WaitingForSource \<longleftrightarrow> True"
| "good_phase c RetryPause \<longleftrightarrow> True"
| "good_phase c Stopped \<longleftrightarrow> True"
| "good_phase c (Failed e) \<longleftrightarrow> True"

definition good_machine :: "crates \<Rightarrow> machine \<Rightarrow> bool" where
  "good_machine c m \<longleftrightarrow> good_store c (m_store m) \<and> good_phase c (m_phase m)"

lemma good_enter: "good_store c (m_store m) \<Longrightarrow> good_machine c (enter m)"
  by (simp add: good_machine_def enter_def Let_def)

lemma good_loop_top: "good_store c (m_store m) \<Longrightarrow> good_machine c (loop_top m)"
  unfolding loop_top_def by (rule good_enter) simp

lemma good_give_up: "good_store c (m_store m) \<Longrightarrow> good_machine c (give_up m)"
  by (simp add: give_up_def good_loop_top) (simp add: good_machine_def)

lemma good_bootstrap_received:
  assumes "good_machine c m" and "m_phase m = Bootstrapping url buffered"
  shows "good_machine c (bootstrap_received c ev url buffered m)"
proof -
  have "case bootstrap_event c ev (m_service m) buffered of
      BootstrapContinue svc buffered' \<Rightarrow> list_all (good_event c) buffered'
    | _ \<Rightarrow> True"
    using assms by (cases ev)
      (auto simp: good_machine_def Let_def bootstrap_buffer_def decode_good split: sum.split)
  then show ?thesis
    using assms(1)
    by (auto simp: bootstrap_received_def good_machine_def
        good_give_up [unfolded good_machine_def] split: bootstrap_outcome.splits)
qed

lemma good_bootstrap_fetched:
  assumes "good_machine c m" and "m_phase m = Bootstrapping url buffered"
    and "fetch_result c None res"
  shows "good_machine c (bootstrap_fetched res url buffered m)"
proof (cases res)
  case (Inl e)
  with assms(1) show ?thesis by (simp add: bootstrap_fetched_def good_machine_def)
next
  case (Inr f)
  have "good_pair c (finish_recovery (replay buffered (m_store m, from_fetched_alt_state url f)))"
    using assms Inr by (intro good_installed) (simp_all add: good_machine_def fetch_result_good)
  then show ?thesis
    by (simp add: Inr bootstrap_fetched_def bootstrap_finish_def good_machine_def good_pair_def
        case_prod_beta)
qed

lemma good_serve_state_event:
  assumes "good_pair c su" and "good_event c e"
    and "case refresh of None \<Rightarrow> True | Some r \<Rightarrow> list_all (good_event c) (buffered_events r)"
  shows "case serve_state_event svc e su refresh of
      ServeContinue svc' s' u' refresh' \<Rightarrow> good_store c s' \<and> good_phase c (Serving url u' refresh')
    | ServeRestart svc' \<Rightarrow> True"
proof -
  have "case buffer_refresh_event refresh e (stream_capacity svc) of
      None \<Rightarrow> True | Some r \<Rightarrow> list_all (good_event c) (buffered_events r)"
  proof (cases "buffer_refresh_event refresh e (stream_capacity svc)")
    case (Some r)
    then obtain q where "refresh = Some q" and "r = q\<lparr>buffered_events := buffered_events q @ [e]\<rparr>"
      by (auto simp: buffer_refresh_event_Some)
    with assms(2,3) show ?thesis unfolding Some by simp
  qed simp
  with good_apply_event [OF assms(1,2)] show ?thesis
    by (auto simp: serve_state_event_def good_pair_def split: prod.split)
qed

lemma good_serve_received:
  assumes "good_machine c m" and "m_phase m = Serving url u refresh"
  shows "good_machine c (serve_received c ev url u refresh m)"
proof -
  have pair: "good_pair c (m_store m, u)"
    and ref: "case refresh of None \<Rightarrow> True | Some r \<Rightarrow> list_all (good_event c) (buffered_events r)"
    using assms by (simp_all add: good_machine_def good_pair_def)
  note state = good_serve_state_event [OF pair _ ref, where svc = "m_service m"]
  have "case serve_event c ev (m_service m) (m_store m, u) refresh of
      ServeContinue svc' s' u' refresh' \<Rightarrow> good_store c s' \<and> good_phase c (Serving url u' refresh')
    | ServeRestart svc' \<Rightarrow> True"
    using state pair ref
    by (cases ev) (auto simp: Let_def good_pair_def decode_good split: sum.split)
  then show ?thesis
    using assms(1)
    by (auto simp: serve_received_def good_machine_def good_loop_top [unfolded good_machine_def]
        split: serve_outcome.splits)
qed

lemma good_serve_refreshed:
  assumes "good_machine c m" and "m_phase m = Serving url u (Some r)"
    and "fetch_result c (Some minimum) res"
  shows "good_machine c (serve_refreshed res url u r m)"
proof (cases res)
  case (Inl e)
  with assms show ?thesis
    by (simp add: serve_refreshed_def install_refreshed_alt_state_def good_machine_def)
next
  case (Inr f)
  have "good_pair c
      (finish_recovery (replay (buffered_events r) (m_store m, from_fetched_alt_state url f)))"
    using assms Inr by (intro good_installed) (auto simp: good_machine_def fetch_result_good)
  then show ?thesis
    by (simp add: Inr serve_refreshed_def install_refreshed_alt_state_def good_machine_def
        good_pair_def case_prod_beta)
qed

lemma good_step: "step c l m m' \<Longrightarrow> good_machine c m \<Longrightarrow> good_machine c m'"
proof (induction rule: step.induct)
  case (wait_recv m ev)
  then show ?case
    unfolding wait_received_def by (intro good_enter) (simp add: good_machine_def)
next
  case (boot_recv m url buffered ev)
  then show ?case by (intro good_bootstrap_received)
next
  case (boot_fetched m url buffered res)
  then show ?case by (intro good_bootstrap_fetched)
next
  case (serve_recv m url u refresh ev)
  then show ?case by (intro good_serve_received)
next
  case (serve_done m url u r res)
  then show ?case by (intro good_serve_refreshed)
next
  case (serve_due m url u refresh)
  then show ?case
    by (auto simp: good_machine_def serve_refresh_due_def refresh_start_def)
qed (auto simp: good_machine_def good_snapshot_page good_give_up [unfolded good_machine_def])

lemma good_reachable: "reachable c capacity urls m \<Longrightarrow> good_machine c m"
proof (induction rule: reachable.induct)
  case start
  show ?case
    unfolding initial_machine_def
    by (rule good_loop_top) (simp add: good_store_def new_store_def)
qed (rule good_step)

section \<open>A sample run with an account\<close>

definition sample_fetch :: fetched_alt_state where
  "sample_fetch = \<lparr>context_slot = 5, fetched_accounts = om_empty\<rparr>"

definition sample_events :: "state_event list" where
  "sample_events = [AccountWrite (key_fill 8) 6 5 (Some (sample_account 8)), ConfirmedSlot 6]"

definition sample_loaded :: machine where
  "sample_loaded = bootstrap_fetched (Inr sample_fetch) ''two'' sample_events
     (sample_bootstrapping\<lparr>m_phase := Bootstrapping ''two'' sample_events\<rparr>)"

lemma sample_loaded_reachable: "reachable sample_crates 10 [''one'', ''two''] sample_loaded"
proof -
  let ?update = "AccountWrite (key_fill 8) 6 5 (Some (sample_account 8))"
  let ?m1 = "sample_bootstrapping\<lparr>m_phase := Bootstrapping ''two'' [?update]\<rparr>"
  have "bootstrap_received sample_crates (AccountEvent 1 (sample_update 8 6)) ''two'' [] sample_bootstrapping = ?m1"
    by (simp add: bootstrap_received_def sample_bootstrapping_phase bootstrap_buffer_def)
  then have "step sample_crates (Some (AccountEvent 1 (sample_update 8 6))) sample_bootstrapping ?m1"
    using step.boot_recv [OF sample_bootstrapping_phase(1), of "AccountEvent 1 (sample_update 8 6)" sample_crates]
    by (simp add: from_source_def sample_bootstrapping_phase)
  with sample_bootstrapping_reachable have m1: "reachable sample_crates 10 [''one'', ''two''] ?m1"
    by (rule reachable.move)
  have "bootstrap_received sample_crates (ConfirmedEvent 1 6) ''two'' [?update] ?m1 =
      sample_bootstrapping\<lparr>m_phase := Bootstrapping ''two'' sample_events\<rparr>"
    by (simp add: bootstrap_received_def sample_bootstrapping_phase bootstrap_buffer_def sample_events_def)
  then have "step sample_crates (Some (ConfirmedEvent 1 6)) ?m1 (sample_bootstrapping\<lparr>m_phase := Bootstrapping ''two'' sample_events\<rparr>)"
    using step.boot_recv [of ?m1 "''two''" "[?update]" "ConfirmedEvent 1 6" sample_crates]
    by (simp add: from_source_def sample_bootstrapping_phase)
  with m1 have "reachable sample_crates 10 [''one'', ''two'']
      (sample_bootstrapping\<lparr>m_phase := Bootstrapping ''two'' sample_events\<rparr>)"
    by (rule reachable.move)
  then show ?thesis
    unfolding sample_loaded_def sample_fetch_def
    by (rule reachable.move) (rule step.boot_fetched, simp, rule fetch_result_empty, simp)
qed

lemma sample_loaded_snapshot:
  "\<exists>snap. read_snapshot (m_store sample_loaded) = Inr snap \<and>
     om_get (read_accounts snap) (key_fill 8) = Some (sample_account 8)"
proof -
  let ?u = "from_fetched_alt_state ''two'' sample_fetch"
  let ?k = "key_fill 8"
  define su where "su = replay sample_events (m_store sample_bootstrapping, ?u)"
  obtain s' u' where finish: "finish_recovery su = (s', u')" by fastforce
  let ?u1 = "snd (queue ?k 6 5 (Some (sample_account 8)) ?u)"
  have snd: "snd su = confirm_updater 6 ?u1"
    by (simp add: su_def sample_events_def snd_confirm)
  have new: "confirmed_slot ?u1 < 6" by (simp add: sample_fetch_def)
  have acc: "fst (queue ?k 6 5 (Some (sample_account 8)) ?u)"
    by (simp add: queue_accepted sample_fetch_def)
  have "view 6 (snd su) ?k = view 6 ?u1 ?k"
    unfolding snd by (simp only: su.flush_new(3) [OF new order_refl])
  also have "\<dots> = Some (sample_account 8)"
    using acc by (simp add: view_queue updater_inv_from_fetched)
  finally have "om_get (accounts u') ?k = Some (sample_account 8)"
    using finish_recovery_updater(3) [of su] su.flush_new(1) [OF new] by (simp add: finish snd)
  moreover have "s' = publish ''two'' 6 (accounts u') (m_store sample_bootstrapping)"
    using finish_recovery_store [of su] su.flush_new(1) [OF new] replay_recovering [of "(m_store sample_bootstrapping, ?u)"]
    by (simp add: finish su_def [symmetric] snd confirm_updater_def) (simp add: su_def)
  moreover have "m_store sample_loaded = s'"
    by (simp add: sample_loaded_def bootstrap_fetched_def bootstrap_finish_def finish [unfolded su_def])
  moreover have "snap_slot (current (m_store sample_bootstrapping)) = 0"
    by (simp add: sample_bootstrapping_def wait_received_def sample_waiting_def initial_machine_def
        new_store_def)
  ultimately show ?thesis
    by (simp add: read_snapshot_def current_publish)
qed

section \<open>Properties\<close>

text \<open>
  C5. Only valid accounts are ever served: in every state the service can reach, whatever the
  sources send and the provider lists, each account of a full read is a lookup table of the
  program that deserializes, is open, and is filed under its own key, and so is each account of
  any page, retained snapshots included.
\<close>

theorem served_accounts_valid:
  assumes "reachable c capacity urls m"
  shows "(\<forall>snap k a. read_snapshot (m_store m) = Inr snap \<and> om_get (read_accounts snap) k = Some a \<longrightarrow>
      good_entry c k a) \<and>
    (\<forall>now sl after limit p a. fst (snapshot_page now sl after limit (m_store m)) = Inr p \<and>
      a \<in> set (page_accounts p) \<longrightarrow> (\<exists>k. good_entry c k a))"
proof -
  have good: "good_store c (m_store m)"
    using good_reachable [OF assms] by (simp add: good_machine_def)
  have "good_entry c k a"
    if "read_snapshot (m_store m) = Inr snap" and "om_get (read_accounts snap) k = Some a" for snap k a
    using good that
    by (auto simp: read_snapshot_def ensure_eq_Inr good_store_def good_map_get)
  with good_snapshot_page(2) [OF good] show ?thesis by blast
qed

lemma served_accounts_valid_witness:
  "\<exists>snap. read_snapshot (m_store sample_loaded) = Inr snap \<and>
     om_get (read_accounts snap) (key_fill 8) = Some (sample_account 8) \<and>
     good_entry sample_crates (key_fill 8) (sample_account 8)"
  using served_accounts_valid [OF sample_loaded_reachable] sample_loaded_snapshot by blast

end
