(* ===== verification/Startup.thy ===== *)
theory Startup
  imports Source_Traces Alerts Validity
begin

text \<open>
  How the parts are put together: \<^verbatim>\<open>UpdaterService::new\<close> of \<^verbatim>\<open>src/updater.rs\<close> and the
  body of \<^verbatim>\<open>src/main.rs\<close> up to the threads it spawns. Each thread is represented by what it
  runs; a thread whose start fails panics, which ends the process.
\<close>

section \<open>The updater's start\<close>

text \<open>\<open>client\<close> is the outcome of building the HTTP client.\<close>

definition new_service :: "environment \<Rightarrow> config \<Rightarrow> unit result \<Rightarrow> (string \<times> service) result" where
  "new_service env cfg client =
     and_then (resolve_rpc_url env (config_rpc cfg)) (\<lambda>bootstrap_url.
     and_then (collect_results (resolve_source_url env) (grpc_sources cfg)) (\<lambda>urls.
     and_then client (\<lambda>_.
       Inr (bootstrap_url,
            \<lparr>stream_capacity = config_stream_capacity cfg, yellowstone_urls = urls,
             connected_sources = {}, active_source = 0\<rparr>))))"

text \<open>\<^verbatim>\<open>updater::run\<close> up to the first event it waits for.\<close>

definition run_updater :: "environment \<Rightarrow> config \<Rightarrow> unit result \<Rightarrow> machine result" where
  "run_updater env cfg client =
     and_then (new_service env cfg client) (\<lambda>(bootstrap_url, svc).
       Inr (loop_top \<lparr>m_service = svc, m_store = new_store, m_phase = WaitingForSource, m_stop = False\<rparr>))"

section \<open>The service threads\<close>

datatype service_thread = UpdaterThread | SourceThread nat | JsonRpcThread | SnapshotThread

fun thread_name :: "service_thread \<Rightarrow> string" where
  "thread_name UpdaterThread = ''alt-state-updater''"
| "thread_name (SourceThread i) = ''alt-yellowstone-'' @ decimal i"
| "thread_name JsonRpcThread = ''alt-json-rpc''"
| "thread_name SnapshotThread = ''alt-snapshot-grpc''"

definition all_threads :: "nat \<Rightarrow> service_thread set" where
  "all_threads sources = {UpdaterThread, JsonRpcThread, SnapshotThread} \<union> SourceThread ` {..<sources}"

text \<open>The order in which \<^verbatim>\<open>main\<close> spawns them.\<close>

definition spawn_order :: "nat \<Rightarrow> service_thread list" where
  "spawn_order sources = UpdaterThread # map SourceThread [0..<sources] @ [JsonRpcThread, SnapshotThread]"

lemma set_spawn_order: "set (spawn_order sources) = all_threads sources"
  by (auto simp: spawn_order_def all_threads_def)

section \<open>The process's start\<close>

record process =
  p_alerts :: "alerts option"
  p_updater :: "machine result"
  p_sources :: "(nat \<times> grpc_source) list"
  p_http_addr :: socket_addr
  p_page_limit :: usize
  p_grpc_addr :: socket_addr

text \<open>
  \<open>log_init\<close> is the outcome of \<^verbatim>\<open>logging::init\<close> (\<open>init_logging\<close>) for a configuration, and
  \<open>spawned\<close> that of spawning the thread of a given name. When a service's thread cannot be spawned
  \<^verbatim>\<open>main\<close> returns the error, which ends the threads spawned before it too.
\<close>

definition start_up ::
  "environment \<Rightarrow> config \<Rightarrow> (logging_config \<Rightarrow> log_layer list result) \<Rightarrow> (string \<Rightarrow> unit result) \<Rightarrow>
   unit result \<Rightarrow> process result"
where
  "start_up env cfg log_init spawned client =
     and_then (validate env cfg) (\<lambda>_.
     and_then (log_init (config_logging cfg)) (\<lambda>_.
     and_then (resolve_hook env ''Slack webhook URL'' (slack (config_alerts cfg))) (\<lambda>slack_url.
     and_then (resolve_hook env ''Discord webhook URL'' (discord (config_alerts cfg))) (\<lambda>discord_url.
     and_then (init_alerts slack_url discord_url (spawned ''alt-alerts'') None) (\<lambda>alerts.
     and_then (collect_results (\<lambda>t. spawned (thread_name t)) (spawn_order (length (grpc_sources cfg)))) (\<lambda>_.
       Inr \<lparr>p_alerts = alerts, p_updater = run_updater env cfg client,
            p_sources = enumerate 0 (grpc_sources cfg), p_http_addr = http_addr cfg,
            p_page_limit = max_snapshot_page_size cfg, p_grpc_addr = snapshot_grpc_addr cfg\<rparr>))))))"

section \<open>The end of a service's thread\<close>

text \<open>
  \<^verbatim>\<open>spawn_service\<close>: a service that ends before the process was told to stop makes its thread
  panic, and the panic hook ends the process.
\<close>

datatype thread_panic = ExitedUnexpectedly string | ServiceFailed string error

definition service_end :: "string \<Rightarrow> bool \<Rightarrow> unit result \<Rightarrow> thread_panic option" where
  "service_end name cancelled res =
     (if \<not> cancelled
      then (case res of Inr _ \<Rightarrow> Some (ExitedUnexpectedly name) | Inl e \<Rightarrow> Some (ServiceFailed name e))
      else None)"

text \<open>What \<^verbatim>\<open>updater::run\<close> has returned, if it has.\<close>

definition updater_result :: "machine \<Rightarrow> unit result option" where
  "updater_result m =
     (case m_phase m of Stopped \<Rightarrow> Some (Inr ()) | Failed e \<Rightarrow> Some (Inl e) | _ \<Rightarrow> None)"

lemma enter_not_stopped: "m_phase (enter m) \<noteq> Stopped"
  by (simp add: enter_def Let_def)

lemma stopped_step:
  assumes "step c l m m'" and "m_phase m = Stopped \<longrightarrow> m_stop m \<and> \<not> ready (m_store m)"
  shows "m_phase m' = Stopped \<longrightarrow> m_stop m' \<and> \<not> ready (m_store m')"
  using assms
proof (induction rule: step.induct)
  case (boot_recv m url buffered ev)
  then show ?case
    by (auto simp: bootstrap_received_def give_up_def loop_top_def shutdown_def enter_not_stopped
        split: bootstrap_outcome.splits)
next
  case (serve_recv m url u refresh ev)
  then show ?case
    by (auto simp: serve_received_def loop_top_def enter_not_stopped split: serve_outcome.splits)
qed (auto simp: shutdown_def give_up_def loop_top_def enter_not_stopped wait_received_def
    bootstrap_fetched_def serve_refreshed_def split: sum.splits prod.splits)

lemma stopped_reachable:
  "reachable c capacity urls m \<Longrightarrow> m_phase m = Stopped \<longrightarrow> m_stop m \<and> \<not> ready (m_store m)"
proof (induction rule: reachable.induct)
  case start
  show ?case by (simp add: initial_machine_def loop_top_def enter_not_stopped)
qed (rule stopped_step)

lemma resolve_all_ok:
  "is_ok r \<longleftrightarrow> (\<exists>x. r = Inr x)"
  by (cases r) simp_all

lemma init_alerts_first:
  "is_ok (init_alerts s d spawned None) \<longleftrightarrow> (s \<noteq> None \<or> d \<noteq> None \<longrightarrow> is_ok spawned)"
  by (cases spawned; cases s; cases d)
    (simp_all add: init_alerts_def Let_def ensure_def alert_targets_def)

lemma collect_results_is_ok: "is_ok (collect_results f xs) \<longleftrightarrow> (\<forall>x \<in> set xs. is_ok (f x))"
proof (induction xs)
  case (Cons x xs)
  then show ?case by (cases "f x"; cases "collect_results f xs") simp_all
qed simp

lemma resolve_hook_None: "resolve_hook env name h = Inr url \<Longrightarrow> url = None \<longleftrightarrow> h = None"
  by (auto simp: resolve_hook_def and_then_eq_Inr split: option.splits)

text \<open>The threads that \<^verbatim>\<open>main\<close> needs can all be spawned.\<close>

definition threads_spawn :: "config \<Rightarrow> (string \<Rightarrow> unit result) \<Rightarrow> bool" where
  "threads_spawn cfg spawned \<longleftrightarrow>
     (slack (config_alerts cfg) \<noteq> None \<or> discord (config_alerts cfg) \<noteq> None \<longrightarrow> is_ok (spawned ''alt-alerts'')) \<and>
     (\<forall>t \<in> all_threads (length (grpc_sources cfg)). is_ok (spawned (thread_name t)))"

lemma start_up_ok:
  "(\<exists>p. start_up env cfg log_init spawned client = Inr p) \<longleftrightarrow>
     validate env cfg = Inr () \<and> is_ok (log_init (config_logging cfg)) \<and> threads_spawn cfg spawned"
proof (cases "validate env cfg = Inr () \<and> is_ok (log_init (config_logging cfg))")
  case True
  then obtain s d where hooks: "resolve_hook env ''Slack webhook URL'' (slack (config_alerts cfg)) = Inr s"
    "resolve_hook env ''Discord webhook URL'' (discord (config_alerts cfg)) = Inr d"
    by (auto simp: validate_ok resolve_all_ok)
  obtain layers where "log_init (config_logging cfg) = Inr layers" using True by (auto simp: resolve_all_ok)
  with True hooks have "(\<exists>p. start_up env cfg log_init spawned client = Inr p) \<longleftrightarrow>
      is_ok (init_alerts s d (spawned ''alt-alerts'') None) \<and>
      is_ok (collect_results (\<lambda>t. spawned (thread_name t)) (spawn_order (length (grpc_sources cfg))))"
    by (auto simp: start_up_def resolve_all_ok and_then_eq_Inr)
  with True hooks [THEN resolve_hook_None] show ?thesis
    by (simp add: init_alerts_first collect_results_is_ok set_spawn_order threads_spawn_def)
next
  case False
  then show ?thesis
    by (cases "validate env cfg"; cases "log_init (config_logging cfg)") (auto simp: start_up_def)
qed

lemma start_upD:
  "start_up env cfg log_init spawned client = Inr p \<Longrightarrow>
     p_updater p = run_updater env cfg client \<and> p_sources p = enumerate 0 (grpc_sources cfg) \<and>
     p_http_addr p = http_addr cfg \<and> p_page_limit p = max_snapshot_page_size cfg \<and>
     p_grpc_addr p = snapshot_grpc_addr cfg"
  by (auto simp: start_up_def and_then_eq_Inr)

lemma run_updater_ok:
  assumes "collect_results (resolve_source_url env) (grpc_sources cfg) = Inr urls"
    and "is_ok (resolve_rpc_url env (config_rpc cfg))"
  shows "run_updater env cfg (Inr ()) = Inr (initial_machine (config_stream_capacity cfg) urls)"
  using assms by (auto simp: resolve_all_ok run_updater_def new_service_def initial_machine_def)

section \<open>Properties\<close>

text \<open>What a process that has started is made of.\<close>

lemma started_process:
  assumes "start_up env cfg log_init spawned (Inr ()) = Inr p"
  shows "(\<exists>urls. p_updater p = Inr (initial_machine (config_stream_capacity cfg) urls) \<and>
      urls \<noteq> [] \<and> distinct urls \<and> [] \<notin> set urls \<and> length urls = length (p_sources p) \<and>
      (\<forall>(i, source) \<in> set (p_sources p). resolve_source_url env source = Inr (urls ! i) \<and>
         (\<forall>room atts. is_ok (run_source env room i source atts))) \<and>
      (\<forall>c m e. reachable c (config_stream_capacity cfg) urls m \<and> m_phase m = Failed e \<longrightarrow>
         e = SourcesStopped \<or> e = BootstrapBufferFull)) \<and>
    p_page_limit p > 0 \<and> p_http_addr p \<noteq> p_grpc_addr p"
proof -
  have valid: "validate env cfg = Inr ()" using start_up_ok assms by blast
  then obtain urls where urls: "collect_results (resolve_source_url env) (grpc_sources cfg) = Inr urls"
    and "distinct urls" and rpc: "is_ok (resolve_rpc_url env (config_rpc cfg))"
    and "grpc_sources cfg \<noteq> []"
    by (auto simp: validate_ok)
  note p = start_upD [OF assms]
  have all: "list_all2 (\<lambda>s u. resolve_source_url env s = Inr u) (grpc_sources cfg) urls"
    using urls by (simp add: collect_results_eq_Inr)
  then have len: "length urls = length (grpc_sources cfg)" by (simp add: list_all2_lengthD)
  then have some: "urls \<noteq> []" using \<open>grpc_sources cfg \<noteq> []\<close> by auto
  have sources: "resolve_source_url env source = Inr (urls ! i)"
    if "(i, source) \<in> set (p_sources p)" for i source
    using that all p by (auto simp: in_set_enumerate_eq list_all2_conv_all_nth)
  have "is_ok (run_source env room i source atts)" if "(i, source) \<in> set (p_sources p)"
    for i source room atts
    using sources [OF that] by (simp add: run_source_def)
  moreover have "\<forall>c m e. reachable c (config_stream_capacity cfg) urls m \<and> m_phase m = Failed e \<longrightarrow>
      e = SourcesStopped \<or> e = BootstrapBufferFull"
    using reachable_ok some by (fastforce simp: machine_ok_def)
  moreover have "p_page_limit p > 0 \<and> p_http_addr p \<noteq> p_grpc_addr p"
    using valid p by (simp add: validate_ok)
  ultimately show ?thesis
    using p sources len some \<open>distinct urls\<close> run_updater_ok [OF urls rpc]
      source_urls_not_empty [OF urls]
    by (intro conjI exI [of _ urls]) (assumption | auto)+
qed

text \<open>
  C21. A valid configuration starts, and only such a one: the process starts exactly when the
  configuration passes validation, the configured log outputs can be set up and every thread can
  be spawned (that of the alerts only if a webhook is configured). Whenever it has started, the
  updater begins with the configured sources, which are at least one, pairwise different and not
  empty; no source task panics over its URL; the API serves at least one account per page on two
  different addresses; and in no state the service reaches has it failed but for a full bootstrap
  buffer or the end of all source tasks. (The updater's HTTP client is assumed to be built.)
\<close>

theorem validated_config_starts:
  "((\<exists>p. start_up env cfg (init_logging filter_ok appender_ok registered) spawned (Inr ()) = Inr p) \<longleftrightarrow>
      validate env cfg = Inr () \<and>
      is_ok (init_logging filter_ok appender_ok registered (config_logging cfg)) \<and>
      (slack (config_alerts cfg) \<noteq> None \<or> discord (config_alerts cfg) \<noteq> None \<longrightarrow>
         is_ok (spawned ''alt-alerts'')) \<and>
      (\<forall>t \<in> all_threads (length (grpc_sources cfg)). is_ok (spawned (thread_name t)))) \<and>
   (\<forall>p. start_up env cfg (init_logging filter_ok appender_ok registered) spawned (Inr ()) = Inr p \<longrightarrow>
      (\<exists>urls. p_updater p = Inr (initial_machine (config_stream_capacity cfg) urls) \<and>
        urls \<noteq> [] \<and> distinct urls \<and> [] \<notin> set urls \<and> length urls = length (p_sources p) \<and>
        (\<forall>(i, source) \<in> set (p_sources p). resolve_source_url env source = Inr (urls ! i) \<and>
           (\<forall>room atts. is_ok (run_source env room i source atts))) \<and>
        (\<forall>c m e. reachable c (config_stream_capacity cfg) urls m \<and> m_phase m = Failed e \<longrightarrow>
           e = SourcesStopped \<or> e = BootstrapBufferFull)) \<and>
      p_page_limit p > 0 \<and> p_http_addr p \<noteq> p_grpc_addr p)"
  using start_up_ok [unfolded threads_spawn_def] started_process by (intro conjI allI impI) blast+

text \<open>
  The process never runs on without its updater: the updater's task returns normally only
  after it was told to stop, with the store not ready; otherwise it fails, with one of the two
  documented errors, and unless the process is stopping anyway its thread panics with that error.
\<close>

lemma ended_updater_ends_process:
  assumes "reachable c capacity urls m" and "urls \<noteq> []" and "updater_result m = Some res"
  shows "case res of
      Inr _ \<Rightarrow> m_stop m \<and> \<not> ready (m_store m) \<and> service_end name (m_stop m) res = None
    | Inl e \<Rightarrow> (e = SourcesStopped \<or> e = BootstrapBufferFull) \<and>
        (m_stop m \<or> service_end name (m_stop m) res = Some (ServiceFailed name e))"
  using stopped_reachable [OF assms(1)] reachable_ok [OF assms(1,2)] assms(3)
  by (auto simp: updater_result_def service_end_def machine_ok_def split: phase.splits)

definition sample_config :: config where
  "sample_config =
     \<lparr>http_addr = V4 0 8899, snapshot_grpc_addr = V4 0 10000,
      config_rpc = \<lparr>rpc_url = None, rpc_url_env = Some ''RPC''\<rparr>,
      grpc_sources = [sample_source], yellowstone_idle_timeout_secs = default_idle_timeout,
      full_refresh_interval_secs = default_refresh_interval, config_stream_capacity = default_capacity,
      max_snapshot_page_size = default_page_size, config_logging = default_logging,
      config_alerts = default_alerts\<rparr>"

definition sample_process_env :: environment where
  "sample_process_env = [''RPC'' \<mapsto> ''rpc'', ''TOKEN'' \<mapsto> ''secret'']"

lemma sample_config_valid: "validate sample_process_env sample_config = Inr ()"
  by (simp add: sample_config_def sample_process_env_def validate_def resolve_rpc_url_def secret_def
      sample_source_def resolve_source_url_def resolve_token_def resolve_hook_def ensure_def
      default_idle_timeout_def default_refresh_interval_def default_capacity_def
      default_page_size_def default_logging_def default_file_def default_alerts_def)

lemma validated_config_starts_witness:
  "\<exists>p urls. start_up sample_process_env sample_config (init_logging (\<lambda>_. True) (\<lambda>_. True) True)
       (\<lambda>_. Inr ()) (Inr ()) = Inr p \<and>
     p_updater p = Inr (initial_machine 4096 urls) \<and> urls \<noteq> [] \<and> distinct urls"
proof -
  let ?log = "init_logging (\<lambda>_. True) (\<lambda>_. True) True"
  have "is_ok (?log (config_logging sample_config))" by (simp add: resolve_all_ok init_logging_ok)
  note starts = validated_config_starts [of sample_process_env sample_config "\<lambda>_. True" "\<lambda>_. True" True
      "\<lambda>_. Inr ()"]
  from starts \<open>is_ok (?log _)\<close> sample_config_valid
  obtain p where p: "start_up sample_process_env sample_config ?log (\<lambda>_. Inr ()) (Inr ()) = Inr p"
    by auto
  with starts obtain urls
    where "p_updater p = Inr (initial_machine (config_stream_capacity sample_config) urls)"
      and "urls \<noteq> []" and "distinct urls" by blast
  with p show ?thesis by (auto simp: sample_config_def default_capacity_def)
qed

end
