(* ===== verification/Process_Life.thy ===== *)
theory Process_Life
  imports Startup
begin

text \<open>
  The process as a whole, from the end of the start-up in \<^verbatim>\<open>src/main.rs\<close> to its exit: the
  service threads, the main thread that waits for a signal, the cancellation token they share and
  the panic hook. The updater's thread runs the machine of \<open>Service\<close>; of the two servers
  (\<^verbatim>\<open>serve\<close> in \<^verbatim>\<open>src/api/json_rpc.rs\<close> and \<^verbatim>\<open>src/api/grpc.rs\<close>) it is modelled how they end.
\<close>

section \<open>The servers\<close>

text \<open>Which branch of a server's \<^verbatim>\<open>select!\<close> came first: the token's, or the server's own end.\<close>

datatype server_event = ServerCancelled | ServerEnded | ServerFailed error

definition serve_json :: "unit result \<Rightarrow> server_event \<Rightarrow> unit result" where
  "serve_json bound ev =
     and_then bound (\<lambda>_. case ev of ServerCancelled \<Rightarrow> Inr () | _ \<Rightarrow> Inl JsonRpcStopped)"

definition serve_grpc :: "server_event \<Rightarrow> unit result" where
  "serve_grpc ev =
     (case ev of
        ServerCancelled \<Rightarrow> Inr ()
      | ServerFailed e \<Rightarrow> Inl e
      | ServerEnded \<Rightarrow> Inl SnapshotGrpcStopped)"

section \<open>The running process\<close>

datatype main_pc = MainRegistering | MainWaiting | MainCancelled

record running =
  r_machine :: machine
  r_threads :: "service_thread set"
  r_main :: main_pc
  r_signalled :: bool
  r_exit :: "nat option"

definition process_at_start :: "usize \<Rightarrow> string list \<Rightarrow> running" where
  "process_at_start capacity urls =
     \<lparr>r_machine = initial_machine capacity urls, r_threads = all_threads (length urls),
      r_main = MainRegistering, r_signalled = False, r_exit = None\<rparr>"

text \<open>The token that \<^verbatim>\<open>main\<close> cancels is the one the updater looks at.\<close>

abbreviation cancelled :: "running \<Rightarrow> bool" where
  "cancelled p \<equiv> m_stop (r_machine p)"

text \<open>
  What a service can return. A source's task ends when it is cancelled or the updater, which
  holds the receiving end of the channel, is gone; the updater loses its sources only when no
  source's thread is left to hold a sending end.
\<close>

fun thread_result :: "running \<Rightarrow> service_thread \<Rightarrow> unit result \<Rightarrow> bool" where
  "thread_result p UpdaterThread res \<longleftrightarrow> updater_result (r_machine p) = Some res"
| "thread_result p (SourceThread i) res \<longleftrightarrow>
     res = Inr () \<and> (cancelled p \<or> UpdaterThread \<notin> r_threads p)"
| "thread_result p JsonRpcThread res \<longleftrightarrow>
     (\<exists>bound ev. res = serve_json bound ev \<and> (ev = ServerCancelled \<longrightarrow> cancelled p))"
| "thread_result p SnapshotThread res \<longleftrightarrow>
     (\<exists>ev. res = serve_grpc ev \<and> (ev = ServerCancelled \<longrightarrow> cancelled p))"

definition sources_gone :: "running \<Rightarrow> bool" where
  "sources_gone p \<longleftrightarrow> (\<forall>i. SourceThread i \<notin> r_threads p)"

text \<open>A panicking thread runs the hook that \<^verbatim>\<open>install_panic_hook\<close> installed.\<close>

definition panic_hook :: "running \<Rightarrow> running" where
  "panic_hook p = p\<lparr>r_exit := Some 1\<rparr>"

definition thread_ended :: "service_thread \<Rightarrow> unit result \<Rightarrow> running \<Rightarrow> running" where
  "thread_ended t res p =
     (case service_end (thread_name t) (cancelled p) res of
        None \<Rightarrow> p\<lparr>r_threads := r_threads p - {t}\<rparr>
      | Some panic \<Rightarrow> panic_hook p)"

text \<open>
  A step of the updater, a service that ends or panics, the main thread registering its two signal
  handlers, a signal that sets the flag, and the main thread's last two steps. (A signal no handler
  is registered for yet kills the process; that is not a step.)
\<close>

inductive process_step :: "crates \<Rightarrow> running \<Rightarrow> running \<Rightarrow> bool" for c where
  updater_runs: "r_exit p = None \<Longrightarrow> UpdaterThread \<in> r_threads p \<Longrightarrow> step c l (r_machine p) m \<Longrightarrow>
    m_stop m = cancelled p \<Longrightarrow>
    (m_phase (r_machine p) \<noteq> Failed SourcesStopped \<and> m_phase m = Failed SourcesStopped \<longrightarrow> sources_gone p) \<Longrightarrow>
    process_step c p (p\<lparr>r_machine := m\<rparr>)"
| thread_ends: "r_exit p = None \<Longrightarrow> t \<in> r_threads p \<Longrightarrow> thread_result p t res \<Longrightarrow>
    process_step c p (thread_ended t res p)"
| thread_panics: "r_exit p = None \<Longrightarrow> t \<in> r_threads p \<Longrightarrow> process_step c p (panic_hook p)"
| main_registered: "r_exit p = None \<Longrightarrow> r_main p = MainRegistering \<Longrightarrow>
    process_step c p (p\<lparr>r_main := MainWaiting\<rparr>)"
| main_not_registered: "r_exit p = None \<Longrightarrow> r_main p = MainRegistering \<Longrightarrow>
    process_step c p (p\<lparr>r_exit := Some 1\<rparr>)"
| signalled: "r_exit p = None \<Longrightarrow> process_step c p (p\<lparr>r_signalled := True\<rparr>)"
| main_cancels: "r_exit p = None \<Longrightarrow> r_main p = MainWaiting \<Longrightarrow> r_signalled p \<Longrightarrow>
    process_step c p (p\<lparr>r_main := MainCancelled, r_machine := (r_machine p)\<lparr>m_stop := True\<rparr>\<rparr>)"
| main_returns: "r_exit p = None \<Longrightarrow> r_main p = MainCancelled \<Longrightarrow> process_step c p (p\<lparr>r_exit := Some 0\<rparr>)"

inductive process_reachable :: "crates \<Rightarrow> usize \<Rightarrow> string list \<Rightarrow> running \<Rightarrow> bool" for c capacity urls where
  process_started: "process_reachable c capacity urls (process_at_start capacity urls)"
| process_moved: "process_reachable c capacity urls p \<Longrightarrow> process_step c p p' \<Longrightarrow>
    process_reachable c capacity urls p'"

section \<open>What holds of it\<close>

lemma process_machine: "process_reachable c capacity urls p \<Longrightarrow> reachable c capacity urls (r_machine p)"
proof (induction rule: process_reachable.induct)
  case process_started
  show ?case by (simp add: process_at_start_def reachable.start)
next
  case (process_moved p p')
  from process_moved(2,3) show ?case
  proof (induction rule: process_step.induct)
    case (updater_runs p l m)
    then show ?case by (auto intro: reachable.move)
  next
    case (main_cancels p)
    then show ?case by (auto intro: reachable.move step.cancel)
  next
    case (thread_ends p t res)
    then show ?case by (simp add: thread_ended_def panic_hook_def split: option.split)
  qed (simp_all add: panic_hook_def)
qed

definition process_ok :: "nat \<Rightarrow> running \<Rightarrow> bool" where
  "process_ok sources p \<longleftrightarrow>
     (cancelled p \<longleftrightarrow> r_main p = MainCancelled) \<and> (r_main p = MainCancelled \<longrightarrow> r_signalled p) \<and>
     (r_exit p = None \<and> \<not> cancelled p \<longrightarrow>
        r_threads p = all_threads sources \<and> m_phase (r_machine p) \<noteq> Failed SourcesStopped) \<and>
     r_exit p \<in> {None, Some 0, Some 1} \<and> (r_exit p = Some 0 \<longrightarrow> r_signalled p)"

text \<open>Before it is cancelled no service ends quietly.\<close>

lemma thread_ended_uncancelled:
  "\<not> cancelled p \<Longrightarrow> thread_ended t res p = panic_hook p"
  by (simp add: thread_ended_def service_end_def split: sum.split)

lemma thread_ended_frames:
  "r_machine (thread_ended t res p) = r_machine p" "r_main (thread_ended t res p) = r_main p"
  "r_signalled (thread_ended t res p) = r_signalled p"
  "r_exit (thread_ended t res p) \<in> {r_exit p, Some 1}"
  by (simp_all add: thread_ended_def panic_hook_def split: option.split)

lemma sources_not_gone: "r_threads p = all_threads sources \<Longrightarrow> 0 < sources \<Longrightarrow> \<not> sources_gone p"
  by (auto simp: sources_gone_def all_threads_def)

lemma process_ok_step:
  assumes "process_step c p p'" and "process_ok sources p" and "0 < sources"
  shows "process_ok sources p'"
  using assms
proof (induction rule: process_step.induct)
  case (updater_runs p l m)
  then show ?case using sources_not_gone [of p sources] by (auto simp: process_ok_def)
next
  case (thread_ends p t res)
  show ?case
  proof (cases "cancelled p")
    case True
    with thread_ends show ?thesis
      using thread_ended_frames [of t res p] by (auto simp: process_ok_def)
  next
    case False
    with thread_ends show ?thesis
      by (simp add: thread_ended_uncancelled process_ok_def panic_hook_def)
  qed
qed (auto simp: process_ok_def panic_hook_def)

lemma process_reachable_ok:
  assumes "process_reachable c capacity urls p" and "urls \<noteq> []"
  shows "process_ok (length urls) p"
  using assms
proof (induction rule: process_reachable.induct)
  case process_started
  have "m_phase (initial_machine capacity urls) \<noteq> Failed SourcesStopped" and "\<not> m_stop (initial_machine capacity urls)"
    by (simp_all add: initial_machine_def loop_top_def enter_def wait_entry_def Let_def)
  then show ?case by (simp add: process_ok_def process_at_start_def)
next
  case (process_moved p p')
  then show ?case by (auto intro: process_ok_step)
qed

section \<open>Property\<close>

text \<open>
  C22. The process is whole until it is told to stop: as long as it runs and no signal has made
  \<^verbatim>\<open>main\<close> cancel it, every service thread runs, the updater has not returned, and it can have
  failed only over a full bootstrap buffer, never for want of sources, which ends the process.
  The exit status is 0 only after a signal and otherwise 1.
\<close>

theorem process_whole_until_stopped:
  assumes "process_reachable c capacity urls p" and "urls \<noteq> []"
  shows "(if r_exit p = None \<and> \<not> cancelled p
      then r_threads p = all_threads (length urls) \<and> m_phase (r_machine p) \<noteq> Stopped \<and>
        (\<forall>res. thread_result p UpdaterThread res \<longrightarrow> res = Inl BootstrapBufferFull \<and>
           r_exit (thread_ended UpdaterThread res p) = Some 1)
      else r_signalled p \<or> r_exit p = Some 1) \<and>
    (case r_exit p of None \<Rightarrow> True | Some status \<Rightarrow> status = 0 \<and> r_signalled p \<or> status = 1)"
proof -
  have ok: "process_ok (length urls) p" using assms by (rule process_reachable_ok)
  have reach: "reachable c capacity urls (r_machine p)" using assms(1) by (rule process_machine)
  have "m_phase (r_machine p) \<noteq> Stopped" if "\<not> cancelled p"
    using stopped_reachable [OF reach] that by blast
  moreover have "res = Inl BootstrapBufferFull"
    if "\<not> cancelled p" "r_exit p = None" "updater_result (r_machine p) = Some res" for res
    using ended_updater_ends_process [OF reach assms(2) that(3)] that ok
    by (auto simp: process_ok_def updater_result_def split: phase.splits sum.splits)
  ultimately show ?thesis
    using ok by (auto simp: process_ok_def thread_ended_uncancelled panic_hook_def)
qed

lemma process_whole_until_stopped_witness:
  "r_threads (process_at_start 10 [''one'', ''two'']) = all_threads (length [''one'', ''two'']) \<and>
   m_phase (r_machine (process_at_start 10 [''one'', ''two''])) \<noteq> Stopped"
  using process_whole_until_stopped [OF process_started [of sample_crates 10 "[''one'', ''two'']"]]
  by (auto simp: process_at_start_def initial_machine_def loop_top_def enter_def wait_entry_def Let_def)

end
