(* ===== verification/Chaining.thy ===== *)
theory Chaining
  imports Validity
begin

text \<open>
  Two services in a chain: the fetcher of one (\<^verbatim>\<open>src/alt_state_fetcher.rs\<close>) reads its state
  from the \<^verbatim>\<open>getProgramAccountsV2\<close> method of another (\<^verbatim>\<open>src/api/json_rpc.rs\<close>). The
  provider goes on living between the pages: its updater publishes and other clients page.
\<close>

section \<open>The wire between them\<close>

text \<open>The parameters the fetcher serializes are those the method deserializes.\<close>

definition request_config :: "accounts_request \<Rightarrow> program_accounts_config" where
  "request_config req =
     default_config\<lparr>cfg_commitment := Some (req_commitment req), cfg_encoding := Some (req_encoding req),
       cfg_with_context := Some (req_with_context req), cfg_limit := Some (req_limit req),
       cfg_min_context_slot := req_min_context_slot req, cfg_pagination_key := req_pagination_key req\<rparr>"

text \<open>
  The reply: an error object, or a result. A result without context does not parse as the
  fetcher's \<^verbatim>\<open>ContextResponse\<close>.
\<close>

definition reply_body :: "rpc_failure + program_accounts_v2_response \<Rightarrow> page_reply" where
  "reply_body r =
     (case r of
        Inl f \<Rightarrow> Inr \<lparr>reply_result = None,
                      reply_error = Some \<lparr>err_code = of_int (failure_code f), err_message = failure_message f\<rparr>\<rparr>
      | Inr (PageOnly v) \<Rightarrow> Inl (Dependency ''missing field context'')
      | Inr (PageContext resp) \<Rightarrow>
          Inr \<lparr>reply_result = Some \<lparr>ctx_slot = ctx_slot resp,
                 ctx_value = \<lparr>pa_accounts = pap_accounts (ctx_value resp),
                              pa_pagination_key = pap_pagination_key (ctx_value resp)\<rparr>\<rparr>,
               reply_error = None\<rparr>)"

definition provider_reply ::
  "crates \<Rightarrow> usize \<Rightarrow> instant \<Rightarrow> accounts_request \<Rightarrow> store \<Rightarrow> page_reply \<times> store" where
  "provider_reply c max_page_size now req s =
     (let (r, s') = program_accounts_v2 c max_page_size now (program_id c) (Some (request_config req)) s
      in (reply_body r, s'))"

section \<open>The provider during a fetch\<close>

text \<open>
  \<open>tm n\<close> is when the \<open>n\<close>-th request arrives and \<open>ops n\<close> what else happens to the provider's store
  between it and the next one. \<open>provider_at n\<close> is the store when the \<open>n\<close>-th request arrives, and
  the cursor the request carries: the one of the reply before it.
\<close>

primrec provider_at ::
  "crates \<Rightarrow> usize \<Rightarrow> u64 option \<Rightarrow> (nat \<Rightarrow> instant) \<Rightarrow> (nat \<Rightarrow> store_op list) \<Rightarrow> store \<Rightarrow> nat \<Rightarrow>
   store \<times> string option" where
  "provider_at c max_page_size minimum tm ops s 0 = (s, None)"
| "provider_at c max_page_size minimum tm ops s (Suc n) =
     (let (sn, cursor) = provider_at c max_page_size minimum tm ops s n;
          (reply, s') = provider_reply c max_page_size (tm n) (page_request minimum cursor) sn
      in (run_ops (ops n) s',
          case rpc reply of Inl e \<Rightarrow> None | Inr resp \<Rightarrow> page_cursor resp))"

definition provider ::
  "crates \<Rightarrow> usize \<Rightarrow> u64 option \<Rightarrow> (nat \<Rightarrow> instant) \<Rightarrow> (nat \<Rightarrow> store_op list) \<Rightarrow> store \<Rightarrow> listing_service"
where
  "provider c max_page_size minimum tm ops s n req =
     fst (provider_reply c max_page_size (tm n) req (fst (provider_at c max_page_size minimum tm ops s n)))"

section \<open>Entries\<close>

text \<open>What a rendered account is read back as.\<close>

definition as_fetched :: "account \<Rightarrow> account" where
  "as_fetched a = Account (account_value a\<lparr>write_version := 0, txn_signature := None\<rparr>)"

abbreviation put :: "key \<times> account \<Rightarrow> (key, account) omap \<Rightarrow> (key, account) omap" where
  "put \<equiv> \<lambda>(k, a). om_insert k (as_fetched a)"

definition chain_laws :: "crates \<Rightarrow> bool" where
  "chain_laws c \<longleftrightarrow> bs58_law c \<and> ui_decode_law c \<and> zstd_total c"

text \<open>Accounts a service serves; their data fit the address space.\<close>

definition servable :: "crates \<Rightarrow> (key, account) omap \<Rightarrow> bool" where
  "servable c m \<longleftrightarrow> good_map c m \<and> (\<forall>k a. om_get m k = Some a \<longrightarrow> length (data (account_value a)) < 2 ^ 64)"

lemma fetch_entry_rendered:
  assumes "chain_laws c" and "good_entry c k a"
    and "to_keyed_ui_account_with_config c a e None = Inr ka"
  shows "fetch_entry c ka accs = Inr (om_insert k (as_fetched a) accs)"
proof -
  have a: "valid_account c a" "pubkey (account_value a) = key_bytes k" "lamports (account_value a) \<noteq> 0"
    using assms(2) by (simp_all add: good_entry_def)
  have "kua_pubkey ka = bs58_encode c (key_bytes k)" and "ui_lamports (kua_account ka) = lamports (account_value a)"
    using assms(3) a(2) by (auto simp: to_keyed_ok)
  with from_rpc_rendered [OF _ _ a(1) assms(3)] assms(1) a(3) show ?thesis
    by (simp add: fetch_entry_def chain_laws_def parse_key_encode as_fetched_def)
qed

lemma fetch_entries_rendered:
  assumes "chain_laws c" and "list_all2 (\<lambda>e ka. good_entry c (fst e) (snd e) \<and>
      to_keyed_ui_account_with_config c (snd e) enc None = Inr ka) es kas"
  shows "fetch_entries c kas accs = Inr (fold put es accs)"
  using assms(2)
proof (induction es kas arbitrary: accs rule: list_all2_induct)
  case (Cons e es ka kas)
  then show ?case
    using fetch_entry_rendered [OF assms(1), of "fst e" "snd e" enc ka] by (simp add: case_prod_beta)
qed simp

section \<open>One page\<close>

lemma page_size_simps: "0 < page_size" "page_size \<noteq> - 1" "unat page_size = 10000" "1 \<le> page_size"
  by (simp_all add: page_size_def)

lemma request_config_simps:
  assumes "page_size \<le> max_page_size"
  shows "validate_config (request_config (page_request minimum cursor)) True max_page_size = Inr ()"
    and "unwrap_or 1000 (cfg_limit (request_config (page_request minimum cursor))) = page_size"
    and "cfg_pagination_key (request_config (page_request minimum cursor)) = cursor"
    and "cfg_with_context (request_config (page_request minimum cursor)) = Some True"
    and "cfg_data_slice (request_config (page_request minimum cursor)) = None"
    and "validate_min_context_slot (request_config (page_request minimum cursor)) slot = Inr () \<longleftrightarrow>
      (\<forall>m. minimum = Some m \<longrightarrow> m \<le> slot)"
  using assms page_size_simps(4)
  by (simp_all add: validate_config_ok validate_min_ok request_config_def page_request_def default_config_def
      unwrap_or_def)

text \<open>The entries of a page, each with its rendering.\<close>

lemma page_renderings:
  assumes "servable c (snap_accounts snap)" and "cfg_data_slice cfg = None"
    and "list_all2 (renders c cfg) (page_accounts (page_of snap after page_size)) ks"
  shows "list_all2 (\<lambda>e ka. good_entry c (fst e) (snd e) \<and>
      to_keyed_ui_account_with_config c (snd e) (unwrap_or Base64Zstd (cfg_encoding cfg)) None = Inr ka)
    (take 10000 (om_after after (snap_accounts snap))) ks"
proof (rule list.rel_mono_strong)
  show "list_all2 (\<lambda>e ka. renders c cfg (snd e) ka) (take 10000 (om_after after (snap_accounts snap))) ks"
    using assms(3) by (simp add: page_of_accounts page_size_simps list_all2_map1)
next
  fix e ka
  assume "e \<in> set (take 10000 (om_after after (snap_accounts snap)))" and "renders c cfg (snd e) ka"
  moreover from this(1) have "e \<in> set (om_items (snap_accounts snap))"
    using om_after_suffix [of "snap_accounts snap" after] by (metis in_set_takeD Un_iff set_append)
  ultimately show "good_entry c (fst e) (snd e) \<and>
      to_keyed_ui_account_with_config c (snd e) (unwrap_or Base64Zstd (cfg_encoding cfg)) None = Inr ka"
    using assms(1,2) by (simp add: servable_def good_map_def list_all_iff)
qed

lemma page_data_short:
  assumes "servable c (snap_accounts snap)" and "a \<in> set (page_accounts (page_of snap after page_size))"
  shows "length (data (account_value a)) < 2 ^ 64"
proof -
  have "a \<in> snd ` set (om_items (snap_accounts snap))"
    using assms(2) om_after_suffix [of "snap_accounts snap" after]
    by (auto simp: page_of_accounts page_size_simps dest!: in_set_takeD)
  then show ?thesis using assms(1) unfolding servable_def by (fastforce simp: om.items_look)
qed

text \<open>
  A request at a slot and key, or at the beginning, that the store answers with a page of \<open>snap\<close>.
\<close>

lemma provider_page:
  assumes laws: "chain_laws c" and "page_size \<le> max_page_size"
    and minimum: "\<forall>m. minimum = Some m \<longrightarrow> m \<le> snap_slot snap"
    and map: "servable c (snap_accounts snap)"
    and cursor: "cursor = map_option (format_cursor c (snap_slot snap)) after"
    and page: "snapshot_page now (map_option (\<lambda>_. snap_slot snap) after) after page_size s =
      (Inr (page_of snap after page_size), s')"
  shows "\<exists>resp. provider_reply c max_page_size now (page_request minimum cursor) s =
        (Inr \<lparr>reply_result = Some resp, reply_error = None\<rparr>, s') \<and>
      ctx_slot resp = snap_slot snap \<and>
      page_cursor resp = map_option (format_cursor c (snap_slot snap)) (page_next (page_of snap after page_size)) \<and>
      (\<forall>accs. fetch_entries c (pa_accounts (ctx_value resp)) accs =
         Inr (fold put (take 10000 (om_after after (snap_accounts snap))) accs))"
proof -
  let ?cfg = "request_config (page_request minimum cursor)"
  let ?p = "page_of snap after page_size"
  note cfg = request_config_simps [OF assms(2), of minimum cursor]
  have parse: "parse_cursor_option c (cfg_pagination_key ?cfg) = Inr (map_option (Pair (snap_slot snap)) after)"
    unfolding cfg(3) using laws by (simp add: cursor parse_formatted_option chain_laws_def)
  have page': "snapshot_page now (map_option fst (map_option (Pair (snap_slot snap)) after))
      (map_option snd (map_option (Pair (snap_slot snap)) after)) (unwrap_or 1000 (cfg_limit ?cfg)) s = (Inr ?p, s')"
    using page by (simp add: cfg(2) option.map_comp comp_def option.map_ident)
  have min: "validate_min_context_slot ?cfg (page_slot ?p) = Inr ()"
    using minimum by (simp add: cfg(6))
  have zstd: "zstd_total c" using laws by (simp add: chain_laws_def)
  obtain ks where ks: "list_all2 (renders c ?cfg) (page_accounts ?p) ks"
    and reply: "program_accounts_v2 c max_page_size now (program_id c) (Some ?cfg) s =
      (Inr (let v = \<lparr>pap_accounts = ks, pap_pagination_key =
                    map_option (\<lambda>key. format_cursor c (page_slot ?p) key) (page_next ?p)\<rparr>
            in if cfg_with_context ?cfg = Some True
               then PageContext \<lparr>ctx_slot = page_slot ?p, ctx_value = v\<rparr> else PageOnly v), s')"
    using v2_page_served [OF zstd cfg(1) parse page' min page_data_short [OF map, of _ after]] by blast
  from fetch_entries_rendered [OF laws page_renderings [OF map cfg(5) ks]] reply show ?thesis
    by (simp add: provider_reply_def reply_body_def cfg(4) Let_def page_cursor_def)
qed

section \<open>One round of the fetch\<close>

lemma format_cursor_inject:
  "chain_laws c \<Longrightarrow> format_cursor c s k = format_cursor c s' k' \<longleftrightarrow> s = s' \<and> k = k'"
  by (metis chain_laws_def parse_format_cursor sum.inject(2) prod.inject)

text \<open>The cursors seen so far are those of earlier keys of the listing.\<close>

definition seen_before :: "crates \<Rightarrow> u64 \<Rightarrow> key option \<Rightarrow> string set \<Rightarrow> bool" where
  "seen_before c slot after seen \<longleftrightarrow>
     (\<forall>cur \<in> seen. \<exists>k k'. after = Some k' \<and> k \<le> k' \<and> cur = format_cursor c slot k)"

lemma next_key_later:
  assumes "page_next (page_of snap after page_size) = Some k" and "after = Some l"
  shows "l < k"
proof -
  let ?rest = "om_after after (snap_accounts snap)"
  have "10000 < length ?rest" and k: "k = fst (?rest ! 9999)"
    using assms(1) by (auto simp: page_of_next page_size_simps split: if_splits)
  then have "?rest ! 9999 \<in> set ?rest" by simp
  then have "(k, snd (?rest ! 9999)) \<in> set (om_after (Some l) (snap_accounts snap))"
    using k assms(2) by simp
  then show ?thesis by (simp add: om_after_Some_set)
qed

lemma seen_before_insert:
  assumes "seen_before c slot after seen" and "\<And>l. after = Some l \<Longrightarrow> l < k"
  shows "seen_before c slot (Some k) (insert (format_cursor c slot k) seen)"
  unfolding seen_before_def
proof
  fix cur
  assume "cur \<in> insert (format_cursor c slot k) seen"
  then show "\<exists>k1 k2. Some k = Some k2 \<and> k1 \<le> k2 \<and> cur = format_cursor c slot k1"
  proof
    assume "cur \<in> seen"
    with assms(1) obtain k1 l where "after = Some l" "k1 \<le> l" "cur = format_cursor c slot k1"
      by (auto simp: seen_before_def)
    with assms(2) have "k1 \<le> k" by fastforce
    with \<open>cur = _\<close> show ?thesis by blast
  qed blast
qed

lemma fold_take_drop: "fold f (drop n xs) (fold f (take n xs) a) = fold f xs a"
  by (metis append_take_drop_id comp_apply fold_append)

lemma next_rest:
  assumes "page_next (page_of snap after page_size) = Some k"
  shows "10000 < length (om_after after (snap_accounts snap))"
    and "om_after (Some k) (snap_accounts snap) = drop 10000 (om_after after (snap_accounts snap))"
proof -
  have len: "10000 < length (om_after after (snap_accounts snap))"
    and k: "k = fst (om_after after (snap_accounts snap) ! 9999)"
    using assms by (auto simp: page_of_next page_size_simps split: if_splits)
  then show "10000 < length (om_after after (snap_accounts snap))"
    and "om_after (Some k) (snap_accounts snap) = drop 10000 (om_after after (snap_accounts snap))"
    using om_after_advance [of 10000 after "snap_accounts snap"] by simp_all
qed

lemma cursor_unseen:
  assumes "chain_laws c" and "page_next (page_of snap after page_size) = Some k"
    and "seen_before c slot after seen"
  shows "format_cursor c slot k \<notin> seen"
proof
  assume "format_cursor c slot k \<in> seen"
  then obtain l where "after = Some l" and "k \<le> l"
    using assms(3) by (auto simp: seen_before_def format_cursor_inject [OF assms(1)])
  with next_key_later [OF assms(2)] show False by (simp add: leD)
qed

text \<open>The fetcher's state after a page, and after one whose cursor leads on to \<open>k\<close>.\<close>

definition page_taken :: "server_snapshot \<Rightarrow> key option \<Rightarrow> fetch_state \<Rightarrow> fetch_state" where
  "page_taken snap after st =
     st\<lparr>fs_context_slot := Some (snap_slot snap),
        fs_accounts := fold put (take 10000 (om_after after (snap_accounts snap))) (fs_accounts st)\<rparr>"

definition led_on :: "crates \<Rightarrow> server_snapshot \<Rightarrow> key \<Rightarrow> fetch_state \<Rightarrow> fetch_state" where
  "led_on c snap k st =
     st\<lparr>fs_seen := insert (format_cursor c (snap_slot snap) k) (fs_seen st),
        fs_cursor := Some (format_cursor c (snap_slot snap) k)\<rparr>"

lemma fetch_page_taken:
  assumes "ctx_slot resp = snap_slot snap" and "\<forall>m. minimum = Some m \<longrightarrow> m \<le> snap_slot snap"
    and "\<forall>accs. fetch_entries c (pa_accounts (ctx_value resp)) accs =
         Inr (fold put (take 10000 (om_after after (snap_accounts snap))) accs)"
    and "fs_context_slot st \<in> {None, Some (snap_slot snap)}"
  shows "fetch_page c minimum st resp =
    (case page_cursor resp of
       None \<Rightarrow> Inr (FetchDone (page_taken snap after st))
     | Some cur \<Rightarrow> ensure (cur \<notin> fs_seen st) RpcRepeatedCursor
         (Inr (FetchMore ((page_taken snap after st)\<lparr>fs_seen := insert cur (fs_seen st), fs_cursor := Some cur\<rparr>))))"
  using assms
  by (auto simp: fetch_page_def Let_def page_cursor_def ensure_def page_taken_def split: option.split)

text \<open>
  \<open>at_page\<close>: the next request, of the fetcher's state \<open>st\<close>, is for the page after \<open>after\<close>, and the
  provider, whose store and expected cursor are \<open>at\<close>, will answer it from \<open>snap\<close> and become \<open>s'\<close>.
\<close>

definition at_page ::
  "crates \<Rightarrow> instant \<Rightarrow> server_snapshot \<Rightarrow> key option \<Rightarrow> store \<times> string option \<Rightarrow> store \<Rightarrow>
   fetch_state \<Rightarrow> bool" where
  "at_page c now snap after at s' st \<longleftrightarrow>
     snd at = map_option (format_cursor c (snap_slot snap)) after \<and> fs_cursor st = snd at \<and>
     snapshot_page now (map_option (\<lambda>_. snap_slot snap) after) after page_size (fst at) =
       (Inr (page_of snap after page_size), s') \<and>
     fs_context_slot st \<in> {None, Some (snap_slot snap)} \<and> seen_before c (snap_slot snap) after (fs_seen st)"

lemma fetch_round:
  fixes c and max_page_size and minimum and tm and ops and s0
  defines "prov \<equiv> provider c max_page_size minimum tm ops s0"
    and "state \<equiv> provider_at c max_page_size minimum tm ops s0"
  assumes laws: "chain_laws c" and max: "page_size \<le> max_page_size"
    and minimum: "\<forall>m. minimum = Some m \<longrightarrow> m \<le> snap_slot snap"
    and map: "servable c (snap_accounts snap)" and at: "at_page c (tm n) snap after (state n) s' st"
  shows "state (Suc n) = (run_ops (ops n) s',
        map_option (format_cursor c (snap_slot snap)) (page_next (page_of snap after page_size)))"
    and "page_next (page_of snap after page_size) = None \<Longrightarrow>
      fetch_loop c prov minimum (Suc fuel) n st =
        Some (Inr \<lparr>context_slot = snap_slot snap,
                   fetched_accounts = fold put (om_after after (snap_accounts snap)) (fs_accounts st)\<rparr>)"
    and "page_next (page_of snap after page_size) = Some k \<Longrightarrow>
      fetch_loop c prov minimum (Suc fuel) n st =
        fetch_loop c prov minimum fuel (Suc n) (led_on c snap k (page_taken snap after st))"
proof -
  let ?page = "page_of snap after page_size" and ?slot = "snap_slot snap"
  obtain s where state: "state n = (s, fs_cursor st)" and st: "fs_cursor st = map_option (format_cursor c ?slot) after"
    "fs_context_slot st \<in> {None, Some ?slot}" "seen_before c ?slot after (fs_seen st)"
    and page: "snapshot_page (tm n) (map_option (\<lambda>_. ?slot) after) after page_size s = (Inr ?page, s')"
    using at by (cases "state n") (auto simp: at_page_def)
  obtain resp where reply: "provider_reply c max_page_size (tm n) (page_request minimum (fs_cursor st)) s =
        (Inr \<lparr>reply_result = Some resp, reply_error = None\<rparr>, s')"
    and slot: "ctx_slot resp = ?slot"
    and cursor: "page_cursor resp = map_option (format_cursor c ?slot) (page_next ?page)"
    and entries: "\<forall>accs. fetch_entries c (pa_accounts (ctx_value resp)) accs =
         Inr (fold put (take 10000 (om_after after (snap_accounts snap))) accs)"
    using provider_page [OF laws max minimum map st(1) page] by blast
  have rpc: "rpc (prov n (page_request minimum (fs_cursor st))) = Inr resp"
    using state unfolding prov_def state_def by (simp add: provider_def reply rpc_def)
  show "state (Suc n) = (run_ops (ops n) s', map_option (format_cursor c ?slot) (page_next ?page))"
    using state reply unfolding state_def by (simp add: rpc_def cursor)
  note fetched = fetch_page_taken [OF slot minimum entries st(2)]
  show "fetch_loop c prov minimum (Suc fuel) n st =
        Some (Inr \<lparr>context_slot = ?slot,
                   fetched_accounts = fold put (om_after after (snap_accounts snap)) (fs_accounts st)\<rparr>)"
    if "page_next ?page = None"
  proof -
    have "length (om_after after (snap_accounts snap)) \<le> 10000"
      using that by (auto simp: page_of_next page_size_simps split: if_splits)
    with that show ?thesis by (simp add: rpc fetched cursor fetch_finish_def page_taken_def)
  qed
  show "fetch_loop c prov minimum (Suc fuel) n st =
        fetch_loop c prov minimum fuel (Suc n) (led_on c snap k (page_taken snap after st))"
    if "page_next ?page = Some k"
    using that cursor_unseen [OF laws that st(3)]
    by (simp add: rpc fetched cursor ensure_def led_on_def page_taken_def)
qed

section \<open>The whole fetch\<close>

text \<open>
  \<open>since\<close> is from when on the snapshot counts as touched before the gap after request \<open>n\<close>. In each
  of the first \<open>rounds\<close> gaps the provider is not invalidated, other clients' pages arrive in the
  order of time, and the next request comes less than 300 seconds after.
\<close>

definition since :: "(nat \<Rightarrow> instant) \<Rightarrow> instant \<Rightarrow> nat \<Rightarrow> instant" where
  "since tm t0 n = (if n = 0 then t0 else tm n)"

definition calm :: "(nat \<Rightarrow> instant) \<Rightarrow> instant \<Rightarrow> (nat \<Rightarrow> store_op list) \<Rightarrow> nat \<Rightarrow> bool" where
  "calm tm t0 ops rounds \<longleftrightarrow>
     (\<forall>n < rounds. list_all (op_within (since tm t0 n) (tm (Suc n))) (ops n) \<and>
        elapsed (tm (Suc n)) (since tm t0 n) < retention)"

lemma calm_gap:
  assumes "calm tm t0 ops rounds" and "n < rounds"
    and "holds (since tm t0 n) slot snap s" and "ready s"
  shows "holds (since tm t0 n) slot snap (run_ops (ops n) s) \<and> ready (run_ops (ops n) s) \<and>
    elapsed (tm (Suc n)) (since tm t0 n) < retention"
  using assms holds_run_ops by (auto simp: calm_def)

text \<open>The round after a page that led on to \<open>k\<close> and left the store \<open>s\<close>.\<close>

lemma at_next_page:
  assumes "calm tm t0 ops rounds" and "n < rounds"
    and "holds (since tm t0 n) (snap_slot snap) snap s" and "ready s"
    and "state = (run_ops (ops n) s, Some (format_cursor c (snap_slot snap) k))"
    and "fs_cursor st = Some (format_cursor c (snap_slot snap) k)" and "fs_context_slot st = Some (snap_slot snap)"
    and "seen_before c (snap_slot snap) (Some k) (fs_seen st)"
  shows "\<exists>s'. at_page c (tm (Suc n)) snap (Some k) state s' st \<and> ready s' \<and>
    holds (tm (Suc n)) (snap_slot snap) snap s'"
proof -
  from calm_gap [OF assms(1-4)] have gap: "holds (since tm t0 n) (snap_slot snap) snap (run_ops (ops n) s)"
    "ready (run_ops (ops n) s)" "elapsed (tm (Suc n)) (since tm t0 n) < retention" by simp_all
  from page_at_cursor [OF gap(1,2) page_size_simps(1) gap(3), of "Some k"] assms(5-8) show ?thesis
    by (auto simp: at_page_def)
qed

lemma led_on_simps [simp]:
  "fs_cursor (led_on c snap k st) = Some (format_cursor c (snap_slot snap) k)"
  "fs_context_slot (led_on c snap k (page_taken snap after st)) = Some (snap_slot snap)"
  "fs_accounts (led_on c snap k (page_taken snap after st)) =
     fold put (take 10000 (om_after after (snap_accounts snap))) (fs_accounts st)"
  "fs_seen (led_on c snap k (page_taken snap after st)) =
     insert (format_cursor c (snap_slot snap) k) (fs_seen st)"
  by (simp_all add: led_on_def page_taken_def)

text \<open>From any page on: the rest of the listing, in one round for each ten thousand accounts.\<close>

lemma fetch_rest:
  fixes c and max_page_size and minimum and tm and ops and s0
  defines "prov \<equiv> provider c max_page_size minimum tm ops s0"
    and "state \<equiv> provider_at c max_page_size minimum tm ops s0"
  assumes laws: "chain_laws c" and max: "page_size \<le> max_page_size"
    and minimum: "\<forall>m. minimum = Some m \<longrightarrow> m \<le> snap_slot snap"
    and map: "servable c (snap_accounts snap)" and calm: "calm tm t0 ops rounds"
    and "at_page c (tm n) snap after (state n) s' st"
    and "page_next (page_of snap after page_size) \<noteq> None \<longrightarrow>
      ready s' \<and> holds (since tm t0 n) (snap_slot snap) snap s'"
    and "n + fuel \<le> rounds" and "length (om_after after (snap_accounts snap)) \<le> fuel * 10000" and "0 < fuel"
  shows "fetch_loop c prov minimum fuel n st =
    Some (Inr \<lparr>context_slot = snap_slot snap,
               fetched_accounts = fold put (om_after after (snap_accounts snap)) (fs_accounts st)\<rparr>)"
  using assms(8-)
proof (induction fuel arbitrary: n s' after st)
  case (Suc fuel)
  note round = fetch_round [OF laws max minimum map Suc.prems(1) [unfolded state_def], folded prov_def state_def]
  show ?case
  proof (cases "page_next (page_of snap after page_size)")
    case None
    then show ?thesis by (rule round(2))
  next
    case (Some k)
    let ?st = "led_on c snap k (page_taken snap after st)"
    have fuel: "0 < fuel" "length (om_after (Some k) (snap_accounts snap)) \<le> fuel * 10000"
      using Suc.prems(4) next_rest [OF Some] by (cases fuel; simp)+
    have seen: "seen_before c (snap_slot snap) (Some k) (fs_seen ?st)"
    proof -
      have "seen_before c (snap_slot snap) after (fs_seen st)" using Suc.prems(1) by (simp add: at_page_def)
      from seen_before_insert [OF this next_key_later [OF Some]] show ?thesis by simp
    qed
    have "n < rounds" and onward: "state (Suc n) = (run_ops (ops n) s', Some (format_cursor c (snap_slot snap) k))"
      using Suc.prems(3) round(1) Some by simp_all
    then obtain s1 where "at_page c (tm (Suc n)) snap (Some k) (state (Suc n)) s1 ?st" and "ready s1"
      and "holds (tm (Suc n)) (snap_slot snap) snap s1"
      using at_next_page [OF calm _ _ _ onward _ _ seen] Suc.prems(2) Some by auto
    with Suc.IH [of "Suc n" "Some k" s1 ?st] fuel Suc.prems(3) show ?thesis
      unfolding round(3) [OF Some] by (simp add: next_rest [OF Some] fold_take_drop since_def)
  qed
qed simp

section \<open>Properties\<close>

text \<open>
  C13. A service bootstrapped from another one gets its state exactly: the fetch, page by page
  over \<^verbatim>\<open>getProgramAccountsV2\<close> while the provider keeps publishing and serving others,
  returns the provider's confirmed slot and, for every address, the account of the one
  snapshot that was current at the first request, with only the stream's own fields reset.
  \<open>fuel\<close> is one call for each ten thousand accounts.
\<close>

theorem chained_fetch_copies_state:
  assumes "chain_laws c" and "page_size \<le> max_page_size" and "servable c (snap_accounts (current s))"
    and "store_inv s" and "ready s" and "\<forall>m. minimum = Some m \<longrightarrow> m \<le> snap_slot (current s)"
    and "\<forall>r. retained s (snap_slot (current s)) = Some r \<longrightarrow> t0 \<le> touched r" and "t0 \<le> tm 0"
    and "calm tm t0 ops fuel" and "om_len (snap_accounts (current s)) \<le> fuel * 10000" and "0 < fuel"
  shows "\<exists>f. fetch_full_alt_state c (provider c max_page_size minimum tm ops s) minimum fuel = Some (Inr f) \<and>
    context_slot f = snap_slot (current s) \<and>
    (\<forall>k. om_get (fetched_accounts f) k = map_option as_fetched (om_get (snap_accounts (current s)) k))"
proof -
  let ?snap = "current s" and ?items = "om_items (snap_accounts (current s))"
  obtain s1 where page: "snapshot_page (tm 0) None None page_size s = (Inr (page_of ?snap None page_size), s1)"
    and s1: "page_next (page_of ?snap None page_size) \<noteq> None \<longrightarrow> ready s1 \<and> holds t0 (snap_slot ?snap) ?snap s1"
    using first_page [OF assms(4,5) page_size_simps(1) assms(8)] assms(7) by blast
  have "at_page c (tm 0) ?snap None (provider_at c max_page_size minimum tm ops s 0) s1 fetch_start"
    using page by (simp add: at_page_def fetch_start_def seen_before_def)
  from fetch_rest [OF assms(1,2,6,3,9) this _ _ _ assms(11)] s1 assms(10)
  have "fetch_full_alt_state c (provider c max_page_size minimum tm ops s) minimum fuel =
      Some (Inr \<lparr>context_slot = snap_slot ?snap, fetched_accounts = fold put ?items om_empty\<rparr>)"
    by (simp add: fetch_full_alt_state_def since_def om_len_def) (simp add: fetch_start_def)
  then show ?thesis using om_get_fold_items [of "\<lambda>_. as_fetched"] by auto
qed

lemma servable_sample: "servable sample_crates (sample_map [3, 1, 2])"
  by (auto simp: servable_def good_map_def om_items_sample_map good_entry_def om.items_look [symmetric])

lemma chained_fetch_copies_state_witness:
  "\<exists>f. fetch_full_alt_state sample_crates
        (provider sample_crates 100000 (Some 13) (\<lambda>_. 7) (\<lambda>_. [])
          (publish ''one'' 13 (sample_map [3, 1, 2]) new_store)) (Some 13) 1 = Some (Inr f) \<and>
     context_slot f = 13 \<and> om_get (fetched_accounts f) (key_fill 2) = Some (as_fetched (sample_account 2))"
proof -
  let ?s = "publish ''one'' 13 (sample_map [3, 1, 2]) new_store"
  have cur: "current ?s = \<lparr>snap_slot = 13, snap_accounts = sample_map [3, 1, 2]\<rparr>"
    by (simp add: current_publish new_store_def)
  have laws: "chain_laws sample_crates" by (simp add: chain_laws_def sample_crates_laws)
  have inv: "store_inv ?s"
    by (rule store_inv_publish [OF store_inv_new]) (simp_all add: new_store_def)
  have calm: "calm (\<lambda>_. 7) 7 (\<lambda>_. []) 1"
    by (simp add: calm_def since_def elapsed_def retention_def seconds_def)
  have len: "om_len (snap_accounts (current ?s)) \<le> 1 * 10000" by (simp add: cur om_len_def om_items_sample_map)
  have get: "om_get (snap_accounts (current ?s)) (key_fill 2) = Some (sample_account 2)"
    by (simp add: cur om.items_look [symmetric] om_items_sample_map)
  have "\<exists>f. fetch_full_alt_state sample_crates
        (provider sample_crates 100000 (Some 13) (\<lambda>_. 7) (\<lambda>_. []) ?s) (Some 13) 1 = Some (Inr f) \<and>
      context_slot f = snap_slot (current ?s) \<and>
      (\<forall>k. om_get (fetched_accounts f) k = map_option as_fetched (om_get (snap_accounts (current ?s)) k))"
  proof (rule chained_fetch_copies_state [OF laws _ _ inv _ _ _ _ calm len])
    show "servable sample_crates (snap_accounts (current ?s))" by (simp add: cur servable_sample)
  qed (simp_all add: cur page_size_def, simp add: new_store_def)
  with get cur show ?thesis by fastforce
qed

end
