(* ===== verification/Bootstrap_Gap.thy ===== *)
theory Bootstrap_Gap
  imports Source_Traces Validity
begin

text \<open>
  A limit of the bootstrap, \<^verbatim>\<open>bootstrap_alt_state\<close> of \<^verbatim>\<open>src/updater.rs\<close>: its fetch asks for no
  minimum context slot, and what the source sent before it became active was discarded. A run
  that exhibits the gap between the two.
\<close>

section \<open>A failover to a provider that lags\<close>

definition gap_events :: "event list" where
  "gap_events =
     [Connected 0, Connected 1, AccountEvent 1 (sample_update 8 6), Disconnected 0, ConfirmedEvent 1 7]"

definition gap_first :: machine where
  "gap_first = wait_received (Connected 0) sample_waiting"

definition gap_both :: machine where
  "gap_both = bootstrap_received sample_crates (Connected 1) ''one'' [] gap_first"

definition gap_failed_over :: machine where
  "gap_failed_over = bootstrap_received sample_crates (Disconnected 0) ''one'' [] gap_both"

definition gap_ready :: machine where
  "gap_ready = bootstrap_fetched (Inr sample_fetch) ''two'' [ConfirmedSlot 7]
     (gap_failed_over\<lparr>m_phase := Bootstrapping ''two'' [ConfirmedSlot 7]\<rparr>)"

lemma gap_first_fields: "m_phase gap_first = Bootstrapping ''one'' []"
  "m_service gap_first = \<lparr>stream_capacity = 10, yellowstone_urls = [''one'', ''two''],
     connected_sources = {0}, active_source = 0\<rparr>" "m_stop gap_first = False"
  by (simp_all add: gap_first_def wait_received_def enter_def sample_waiting_phase mark_connected_def Let_def)

lemma gap_both_fields: "m_phase gap_both = Bootstrapping ''one'' []"
  "m_service gap_both = \<lparr>stream_capacity = 10, yellowstone_urls = [''one'', ''two''],
     connected_sources = {1, 0}, active_source = 0\<rparr>" "m_stop gap_both = False"
  by (simp_all add: gap_both_def bootstrap_received_def gap_first_fields mark_connected_def)

lemma gap_ignored:
  "bootstrap_received sample_crates (AccountEvent 1 (sample_update 8 6)) ''one'' [] gap_both = gap_both"
  by (cases gap_both) (use gap_both_fields in \<open>simp add: bootstrap_received_def\<close>)

lemma gap_failed_over_fields: "m_phase gap_failed_over = Bootstrapping ''two'' []"
  "m_service gap_failed_over = \<lparr>stream_capacity = 10, yellowstone_urls = [''one'', ''two''],
     connected_sources = {1}, active_source = 1\<rparr>" "m_store gap_failed_over = invalidate (m_store gap_both)"
  by (simp_all add: gap_failed_over_def bootstrap_received_def gap_both_fields mark_disconnected_def
      Let_def select_next_yellowstone_def next_connected_def give_up_def loop_top_def enter_def
      wait_entry_def upt_rec insert_Diff_if)

lemma gap_trace: "trace sample_crates 10 [''one'', ''two''] gap_events gap_ready"
proof -
  let ?t = "trace sample_crates 10 [''one'', ''two'']"
  have "?t ([] @ [Connected 0]) gap_first"
    unfolding gap_first_def
    by (rule trace_heard [OF trace_start [of sample_crates 10 "[''one'', ''two'']", folded sample_waiting_def]],
        rule step.wait_recv)
      (simp_all add: sample_waiting_phase from_source_def)
  then have "?t (([] @ [Connected 0]) @ [Connected 1]) gap_both"
    unfolding gap_both_def
    by (rule trace_heard) (rule step.boot_recv; simp add: gap_first_fields from_source_def)
  then have "?t ((([] @ [Connected 0]) @ [Connected 1]) @ [AccountEvent 1 (sample_update 8 6)])
      (bootstrap_received sample_crates (AccountEvent 1 (sample_update 8 6)) ''one'' [] gap_both)"
    by (rule trace_heard) (rule step.boot_recv; simp add: gap_both_fields from_source_def)
  then have "?t [Connected 0, Connected 1, AccountEvent 1 (sample_update 8 6)] gap_both"
    by (simp only: gap_ignored append.simps)
  then have "?t ([Connected 0, Connected 1, AccountEvent 1 (sample_update 8 6)] @ [Disconnected 0]) gap_failed_over"
    unfolding gap_failed_over_def
    by (rule trace_heard) (rule step.boot_recv; simp add: gap_both_fields from_source_def)
  then have "?t (([Connected 0, Connected 1, AccountEvent 1 (sample_update 8 6)] @ [Disconnected 0]) @ [ConfirmedEvent 1 7])
      (bootstrap_received sample_crates (ConfirmedEvent 1 7) ''two'' [] gap_failed_over)"
    by (rule trace_heard) (rule step.boot_recv; simp add: gap_failed_over_fields from_source_def)
  also have "bootstrap_received sample_crates (ConfirmedEvent 1 7) ''two'' [] gap_failed_over =
      gap_failed_over\<lparr>m_phase := Bootstrapping ''two'' [ConfirmedSlot 7]\<rparr>"
    by (cases gap_failed_over)
      (use gap_failed_over_fields in \<open>simp add: bootstrap_received_def bootstrap_buffer_def\<close>)
  finally show ?thesis
    unfolding gap_ready_def gap_events_def sample_fetch_def append.simps
    by (rule trace_quiet) (rule step.boot_fetched, simp, rule fetch_result_empty, simp)
qed

lemma gap_store: "m_store gap_failed_over = new_store"
  by (simp add: gap_failed_over_fields gap_both_def gap_first_def bootstrap_received_def wait_received_def
      enter_def sample_waiting_def initial_machine_def loop_top_def wait_entry_def mark_connected_def
      invalidate_def new_store_def Let_def)

lemma new_store_slot: "snap_slot (current new_store) = 0"
  by (simp add: new_store_def)

lemma gap_finish:
  "bootstrap_finish ''two'' [ConfirmedSlot 7] sample_fetch new_store =
     (publish ''two'' 7 om_empty new_store, (from_fetched_alt_state ''two'' sample_fetch)
        \<lparr>confirmed_slot := 7, recovering := False\<rparr>)"
  by (simp add: bootstrap_finish_def sample_fetch_def from_fetched_alt_state_def finish_recovery_def
      confirm_def apply_pending_through_def om_keys_through_def om_keys_def Let_def om_of_list_def)

section \<open>Property\<close>

text \<open>
  C37. Limit: a run in which the service serves slot 7 without a write of slot 6 it has received.
  While it bootstrapped from one source the write came from another, and was ignored; the first
  source failed, the second became active, and the provider, asked for no particular slot,
  answered with slot 5.
\<close>

theorem bootstrap_misses_earlier_write:
  "trace sample_crates 10 [''one'', ''two''] gap_events gap_ready \<and>
   decode_account_update sample_crates (sample_update 8 6) =
     Inr (AccountWrite (key_fill 8) 6 5 (Some (sample_account 8))) \<and>
   AccountEvent 1 (sample_update 8 6) \<in> set gap_events \<and>
   read_snapshot (m_store gap_ready) = Inr \<lparr>read_slot = 7, read_accounts = om_empty\<rparr> \<and>
   active_yellowstone_url (m_store gap_ready) = Some ''two''"
  using gap_trace
  by (simp add: gap_events_def gap_ready_def bootstrap_fetched_def gap_store gap_finish read_snapshot_def
      current_publish new_store_slot)

end
