(* ===== verification/Publication.thy ===== *)
theory Publication
  imports Prelude
begin

text \<open>
  The contract of data published behind a flag, which the service's store and the client's cache
  both rely on: one thread stores a datum and then raises a flag, the others check the flag and
  then load the datum, and nothing orders a reader's two accesses against the writer's. The log
  of what has been published is a ghost.
\<close>

section \<open>Seen since\<close>

text \<open>\<open>d\<close> was the latest entry of the log at some moment since the log was \<open>began\<close> entries long.\<close>

definition seen_since :: "nat \<Rightarrow> 'd list \<Rightarrow> 'd \<Rightarrow> bool" where
  "seen_since began log d \<longleftrightarrow> (\<exists>n. began \<le> Suc n \<and> n < length log \<and> log ! n = d)"

lemma seen_since_append: "seen_since began log d \<Longrightarrow> seen_since began (log @ ds) d"
  unfolding seen_since_def by (metis nth_append trans_less_add1 length_append)

lemma seen_since_last: "log \<noteq> [] \<Longrightarrow> began \<le> length log \<Longrightarrow> seen_since began log (last log)"
  unfolding seen_since_def by (rule exI [of _ "length log - 1"]) (simp add: last_conv_nth)

lemma seen_since_mem: "seen_since began log d \<Longrightarrow> d \<in> set log"
  by (auto simp: seen_since_def)

lemma seen_since_mono: "seen_since began log d \<Longrightarrow> b \<le> began \<Longrightarrow> seen_since b log d"
  by (auto simp: seen_since_def intro: order_trans)

text \<open>What was seen by a call that began after another had seen \<open>log ! n\<close> is no older.\<close>

lemma seen_since_later:
  assumes "seen_since began log d" and "n < began"
  shows "\<exists>n' \<ge> n. n' < length log \<and> log ! n' = d"
proof -
  obtain m where "began \<le> Suc m" and "m < length log \<and> log ! m = d"
    using assms(1) unfolding seen_since_def by blast
  moreover from this(1) assms(2) have "n \<le> m" by simp
  ultimately show ?thesis by blast
qed

section \<open>The contract\<close>

text \<open>
  \<open>move\<close> is one atomic access of any thread, \<open>ok\<close> an invariant of the accesses, \<open>flag\<close> and \<open>datum\<close>
  the two locations.
\<close>

locale publication =
  fixes move :: "'s \<Rightarrow> 's \<Rightarrow> bool"
    and ok :: "'s \<Rightarrow> bool"
    and flag :: "'s \<Rightarrow> bool"
    and datum :: "'s \<Rightarrow> 'd"
    and log :: "'s \<Rightarrow> 'd list"
  assumes ok_move: "move s s' \<Longrightarrow> ok s \<Longrightarrow> ok s'"
    and log_move: "move s s' \<Longrightarrow> ok s \<Longrightarrow> \<exists>ds. log s' = log s @ ds"
    and flag_published: "ok s \<Longrightarrow> flag s \<Longrightarrow> log s \<noteq> []"
    and datum_last: "ok s \<Longrightarrow> log s \<noteq> [] \<Longrightarrow> datum s = last (log s)"
begin

lemma grows: "move s s' \<Longrightarrow> ok s \<Longrightarrow> length (log s) \<le> length (log s')"
  using log_move by fastforce

lemma stays_published: "move s s' \<Longrightarrow> ok s \<Longrightarrow> log s \<noteq> [] \<Longrightarrow> log s' \<noteq> []"
  using log_move by fastforce

lemma seen_stays: "move s s' \<Longrightarrow> ok s \<Longrightarrow> seen_since began (log s) d \<Longrightarrow> seen_since began (log s') d"
  using log_move seen_since_append by metis

lemma published_stays: "move s s' \<Longrightarrow> ok s \<Longrightarrow> d \<in> set (log s) \<Longrightarrow> d \<in> set (log s')"
  using log_move by fastforce

text \<open>Loading the datum once something was published, for a call that began earlier.\<close>

lemma load_seen: "ok s \<Longrightarrow> log s \<noteq> [] \<Longrightarrow> began \<le> length (log s) \<Longrightarrow> seen_since began (log s) (datum s)"
  using datum_last seen_since_last by metis

text \<open>Flag first, datum later, anything in between: what is loaded was published, and not before
  the latest publication at the time of the check.\<close>

lemma check_then_load:
  assumes "move\<^sup>*\<^sup>* s s'" and "ok s" and "flag s"
  shows "seen_since (length (log s)) (log s') (datum s')"
proof -
  have "ok s' \<and> log s' \<noteq> [] \<and> length (log s) \<le> length (log s')"
    using assms(1)
  proof (induction rule: rtranclp_induct)
    case base
    show ?case using assms flag_published by simp
  next
    case (step t t')
    then show ?case using ok_move stays_published grows order_trans by meson
  qed
  then show ?thesis using load_seen by blast
qed

end

end
