(* ===== verification/Concurrent_Store.thy ===== *)
theory Concurrent_Store
  imports Store Publication
begin

text \<open>
  The methods of \<^verbatim>\<open>Store\<close> (\<^verbatim>\<open>src/store.rs\<close>) at the grain at which threads interleave: each
  load or store of an atomic cell and each critical section of a lock is one step. The updater
  task is the only writer; any number of threads serve readers. \<open>Store\<close> has the same methods as
  single steps; here those are the runs that nothing interrupts (\<open>publish_run_atomic\<close> and the lemmas after it).
\<close>

section \<open>The writer\<close>

text \<open>Where \<^verbatim>\<open>publish\<close> is: about to compare slots, to replace the snapshot, to set the URL, to
  raise the flag.\<close>

datatype publish_pc =
    PublishIdle
  | PublishCompare string u64 "(key, account) omap"
  | PublishCurrent string u64 "(key, account) omap"
  | PublishUrl string
  | PublishReady

fun publish_step :: "publish_pc \<Rightarrow> store \<Rightarrow> publish_pc \<times> store" where
  "publish_step PublishIdle s = (PublishIdle, s)"
| "publish_step (PublishCompare url slot accounts) s =
     (if snap_slot (current s) \<noteq> slot \<or> snap_slot (current s) = 0
      then PublishCurrent url slot accounts else PublishUrl url, s)"
| "publish_step (PublishCurrent url slot accounts) s =
     (PublishUrl url, s\<lparr>current := \<lparr>snap_slot = slot, snap_accounts = accounts\<rparr>\<rparr>)"
| "publish_step (PublishUrl url) s = (PublishReady, s\<lparr>active_yellowstone_url := Some url\<rparr>)"
| "publish_step PublishReady s = (PublishIdle, s\<lparr>ready := True\<rparr>)"

section \<open>The readers\<close>

text \<open>
  Where a thread is in \<^verbatim>\<open>read_snapshot\<close>, \<^verbatim>\<open>snapshot_page\<close> or \<^verbatim>\<open>health\<close>, with the values it has
  loaded so far, or what its last call returned.
\<close>

datatype call =
    NoCall
  | ReadReady
  | ReadCurrent
  | ReadDone "read_snapshot_result result"
  | PageReady "u64 option" "key option" usize
  | PagePick "u64 option" "key option" usize
  | PageRetain "u64 option" "key option" usize server_snapshot
  | PageDone "u64 option" "key option" usize "snapshot_page_result result"
  | HealthCurrent
  | HealthReady server_snapshot
  | HealthUrl server_snapshot bool
  | HealthDone health_report

definition picked ::
  "u64 option \<Rightarrow> key option \<Rightarrow> usize \<Rightarrow> server_snapshot result \<Rightarrow> call" where
  "picked sl after limit res =
     (case res of
        Inl e \<Rightarrow> PageDone sl after limit (Inl e)
      | Inr snap \<Rightarrow>
          if page_next (page_of snap after limit) \<noteq> None then PageRetain sl after limit snap
          else PageDone sl after limit (Inr (page_of snap after limit)))"

fun call_step :: "instant \<Rightarrow> call \<Rightarrow> store \<Rightarrow> call \<times> store" where
  "call_step now NoCall s = (NoCall, s)"
| "call_step now ReadReady s =
     (if ready s then ReadCurrent else ReadDone (Inl CacheNotReady), s)"
| "call_step now ReadCurrent s =
     (ReadDone (Inr \<lparr>read_slot = snap_slot (current s), read_accounts = snap_accounts (current s)\<rparr>), s)"
| "call_step now (ReadDone r) s = (ReadDone r, s)"
| "call_step now (PageReady sl after limit) s =
     (if \<not> limit > 0 then PageDone sl after limit (Inl PageLimitNotPositive)
      else if \<not> ready s then PageDone sl after limit (Inl CacheNotReady)
      else PagePick sl after limit, s)"
| "call_step now (PagePick sl after limit) s =
     (let (res, s') = pick_snapshot now sl s in (picked sl after limit res, s'))"
| "call_step now (PageRetain sl after limit snap) s =
     (PageDone sl after limit (Inr (page_of snap after limit)), retain now snap s)"
| "call_step now (PageDone sl after limit r) s = (PageDone sl after limit r, s)"
| "call_step now HealthCurrent s = (HealthReady (current s), s)"
| "call_step now (HealthReady snap) s = (HealthUrl snap (ready s), s)"
| "call_step now (HealthUrl snap b) s =
     (HealthDone \<lparr>health_ready = b, health_active_url = active_yellowstone_url s,
                  health_confirmed_slot = snap_slot snap, health_accounts = om_len (snap_accounts snap)\<rparr>, s)"
| "call_step now (HealthDone r) s = (HealthDone r, s)"

fun call_begins :: "call \<Rightarrow> bool" where
  "call_begins ReadReady = True"
| "call_begins (PageReady sl after limit) = True"
| "call_begins HealthCurrent = True"
| "call_begins _ = False"

fun call_over :: "call \<Rightarrow> bool" where
  "call_over NoCall = True"
| "call_over (ReadDone r) = True"
| "call_over (PageDone sl after limit r) = True"
| "call_over (HealthDone r) = True"
| "call_over _ = False"

section \<open>Interleaving\<close>

text \<open>
  Ghosts: \<open>w_log\<close>, the snapshots that have been made current, and \<open>w_began\<close>, how many there were
  when each thread's call began.
\<close>

record world =
  w_store :: store
  w_writer :: publish_pc
  w_calls :: "nat \<Rightarrow> call"
  w_log :: "server_snapshot list"
  w_began :: "nat \<Rightarrow> nat"

definition new_world :: world where
  "new_world = \<lparr>w_store = new_store, w_writer = PublishIdle, w_calls = (\<lambda>_. NoCall), w_log = [],
     w_began = (\<lambda>_. 0)\<rparr>"

definition made_current :: "publish_pc \<Rightarrow> server_snapshot list" where
  "made_current pc =
     (case pc of PublishCurrent url slot accounts \<Rightarrow> [\<lparr>snap_slot = slot, snap_accounts = accounts\<rparr>] | _ \<Rightarrow> [])"

definition write_moved :: "world \<Rightarrow> world" where
  "write_moved w =
     (let (pc, s) = publish_step (w_writer w) (w_store w)
      in w\<lparr>w_store := s, w_writer := pc, w_log := w_log w @ made_current (w_writer w)\<rparr>)"

definition call_moved :: "nat \<Rightarrow> instant \<Rightarrow> world \<Rightarrow> world" where
  "call_moved t now w =
     (let (call, s) = call_step now (w_calls w t) (w_store w)
      in w\<lparr>w_store := s, w_calls := (w_calls w)(t := call)\<rparr>)"

definition call_begun :: "nat \<Rightarrow> call \<Rightarrow> world \<Rightarrow> world" where
  "call_begun t call w =
     w\<lparr>w_calls := (w_calls w)(t := call), w_began := (w_began w)(t := length (w_log w))\<rparr>"

inductive interleave :: "world \<Rightarrow> world \<Rightarrow> bool" where
  publish_begins: "w_writer w = PublishIdle \<Longrightarrow>
    interleave w (w\<lparr>w_writer := PublishCompare url slot accounts\<rparr>)"
| publish_moves: "interleave w (write_moved w)"
| invalidates: "w_writer w = PublishIdle \<Longrightarrow> interleave w (w\<lparr>w_store := invalidate (w_store w)\<rparr>)"
| call_starts: "call_over (w_calls w t) \<Longrightarrow> call_begins call \<Longrightarrow> interleave w (call_begun t call w)"
| call_moves: "interleave w (call_moved t now w)"

inductive interleaved :: "world \<Rightarrow> bool" where
  begin_new: "interleaved new_world"
| moved_on: "interleaved w \<Longrightarrow> interleave w w' \<Longrightarrow> interleaved w'"

section \<open>Uninterrupted runs\<close>

text \<open>Finished operations stutter, so a fixed number of steps is enough.\<close>

definition publish_run :: "string \<Rightarrow> u64 \<Rightarrow> (key, account) omap \<Rightarrow> store \<Rightarrow> publish_pc \<times> store" where
  "publish_run url slot accounts s =
     ((\<lambda>(pc, s). publish_step pc s) ^^ 4) (PublishCompare url slot accounts, s)"

definition call_run :: "instant \<Rightarrow> call \<Rightarrow> store \<Rightarrow> call \<times> store" where
  "call_run now call s = ((\<lambda>(call, s). call_step now call s) ^^ 3) (call, s)"

lemmas run_simps = publish_run_def call_run_def numeral_eq_Suc funpow_swap1 Let_def

lemma publish_run_atomic: "publish_run url slot accounts s = (PublishIdle, publish url slot accounts s)"
  by (simp add: run_simps publish_def)

lemma read_run_atomic: "call_run now ReadReady s = (ReadDone (read_snapshot s), s)"
  by (simp add: run_simps read_snapshot_def ensure_def)

lemma page_run_atomic:
  "call_run now (PageReady sl after limit) s =
     (PageDone sl after limit (fst (snapshot_page now sl after limit s)),
      snd (snapshot_page now sl after limit s))"
  by (auto simp: run_simps snapshot_page_def picked_def split: prod.split sum.split)

lemma health_run_atomic: "call_run now HealthCurrent s = (HealthDone (health s), s)"
  by (simp add: run_simps health_def)

section \<open>The memory's invariant\<close>

text \<open>
  The slot comparison of \<^verbatim>\<open>publish\<close> skips the store only when something was stored before:
  a slot other than zero was published.
\<close>

definition memory_ok :: "world \<Rightarrow> bool" where
  "memory_ok w \<longleftrightarrow>
     (w_log w \<noteq> [] \<longrightarrow> current (w_store w) = last (w_log w)) \<and>
     (ready (w_store w) \<or> snap_slot (current (w_store w)) \<noteq> 0 \<longrightarrow> w_log w \<noteq> []) \<and>
     (w_writer w = PublishReady \<or> (\<exists>url. w_writer w = PublishUrl url) \<longrightarrow> w_log w \<noteq> [])"

definition empty_at_first :: "world \<Rightarrow> bool" where
  "empty_at_first w \<longleftrightarrow> w_log w = [] \<longrightarrow> current (w_store w) = current new_store"

definition retained_published :: "world \<Rightarrow> bool" where
  "retained_published w \<longleftrightarrow>
     (\<forall>slot r. retained (w_store w) slot = Some r \<longrightarrow>
        ret_snapshot r \<in> set (w_log w) \<and> snap_slot (ret_snapshot r) = slot)"

text \<open>
  What a call may load without a check of the flag: a snapshot that was current at some moment of
  the call, or the empty one of a new store when nothing was published as the call began.
\<close>

definition loaded :: "nat \<Rightarrow> server_snapshot list \<Rightarrow> server_snapshot \<Rightarrow> bool" where
  "loaded began log snap \<longleftrightarrow> seen_since began log snap \<or> began = 0 \<and> snap = current new_store"

lemma loaded_append: "loaded began log snap \<Longrightarrow> loaded began (log @ ds) snap"
  by (auto simp: loaded_def seen_since_append)

definition reported :: "nat \<Rightarrow> server_snapshot list \<Rightarrow> health_report \<Rightarrow> bool" where
  "reported began log r \<longleftrightarrow>
     (\<exists>snap. loaded began log snap \<and> health_confirmed_slot r = snap_slot snap \<and>
       health_accounts r = om_len (snap_accounts snap))"

lemma reported_append: "reported began log r \<Longrightarrow> reported began (log @ ds) r"
  by (auto simp: reported_def intro: loaded_append)

fun call_ok :: "nat \<Rightarrow> server_snapshot list \<Rightarrow> call \<Rightarrow> bool" where
  "call_ok began log ReadCurrent \<longleftrightarrow> log \<noteq> []"
| "call_ok began log (ReadDone (Inr r)) \<longleftrightarrow>
     seen_since began log \<lparr>snap_slot = read_slot r, snap_accounts = read_accounts r\<rparr>"
| "call_ok began log (PagePick sl after limit) \<longleftrightarrow> log \<noteq> []"
| "call_ok began log (PageRetain sl after limit snap) \<longleftrightarrow>
     (case sl of None \<Rightarrow> seen_since began log snap | Some slot \<Rightarrow> snap \<in> set log \<and> snap_slot snap = slot)"
| "call_ok began log (PageDone sl after limit (Inr p)) \<longleftrightarrow>
     (\<exists>snap. p = page_of snap after limit \<and>
       (case sl of None \<Rightarrow> seen_since began log snap | Some slot \<Rightarrow> snap \<in> set log \<and> snap_slot snap = slot))"
| "call_ok began log (HealthReady snap) \<longleftrightarrow> loaded began log snap"
| "call_ok began log (HealthUrl snap b) \<longleftrightarrow> loaded began log snap"
| "call_ok began log (HealthDone r) \<longleftrightarrow> reported began log r"
| "call_ok began log _ \<longleftrightarrow> True"

definition calls_ok :: "world \<Rightarrow> bool" where
  "calls_ok w \<longleftrightarrow>
     (\<forall>t. w_began w t \<le> length (w_log w) \<and> call_ok (w_began w t) (w_log w) (w_calls w t))"

section \<open>Preservation\<close>

lemma call_step_memory:
  "current (snd (call_step now call s)) = current s" "ready (snd (call_step now call s)) = ready s"
  by (cases call; simp add: case_prod_beta)+

lemma memory_ok_interleave:
  assumes "interleave w w'" and "memory_ok w"
  shows "memory_ok w'"
  using assms
proof (induction rule: interleave.induct)
  case (publish_moves w)
  then show ?case
    by (cases "w_writer w") (auto simp: memory_ok_def write_moved_def made_current_def)
next
  case (call_moves w t now)
  then show ?case
    using call_step_memory [of now "w_calls w t" "w_store w"]
    by (auto simp: memory_ok_def call_moved_def case_prod_beta)
qed (auto simp: memory_ok_def call_begun_def)

lemma publish_step_current:
  "made_current pc = [] \<Longrightarrow> current (snd (publish_step pc s)) = current s"
  by (cases pc) (simp_all add: made_current_def)

lemma empty_at_first_interleave:
  assumes "interleave w w'" and "empty_at_first w"
  shows "empty_at_first w'"
  using assms
proof (induction rule: interleave.induct)
  case (publish_moves w)
  then show ?case
    by (simp add: empty_at_first_def write_moved_def case_prod_beta publish_step_current)
qed (simp_all add: empty_at_first_def call_moved_def call_begun_def case_prod_beta call_step_memory)

lemma log_interleave: "interleave w w' \<Longrightarrow> \<exists>log. w_log w' = w_log w @ log"
  by (induction rule: interleave.induct)
    (simp_all add: write_moved_def call_moved_def call_begun_def case_prod_beta)

interpretation store_pub: publication interleave memory_ok "\<lambda>w. ready (w_store w)"
  "\<lambda>w. current (w_store w)" w_log
proof unfold_locales
  show "memory_ok w'" if "interleave w w'" and "memory_ok w" for w w'
    using that by (rule memory_ok_interleave)
  show "\<exists>log. w_log w' = w_log w @ log" if "interleave w w'" for w w'
    using that by (rule log_interleave)
qed (auto simp: memory_ok_def)

text \<open>What a call has found stays true while the log grows.\<close>

lemma call_ok_append: "call_ok began log call \<Longrightarrow> call_ok began (log @ ds) call"
  by (induction began log call rule: call_ok.induct)
    (auto simp: seen_since_append loaded_append reported_append split: option.splits intro!: exI)

lemma pick_snapshot_found:
  assumes "pick_snapshot now sl s = (Inr snap, s')"
  shows "case sl of None \<Rightarrow> snap = current s
    | Some slot \<Rightarrow> \<exists>r. retained s slot = Some r \<and> ret_snapshot r = snap"
  using assms by (auto simp: pick_snapshot_def Let_def purge_retained split: option.splits)

lemma pick_snapshot_retained:
  "retained (snd (pick_snapshot now sl s)) slot = Some r \<Longrightarrow>
     \<exists>q. retained s slot = Some q \<and> ret_snapshot q = ret_snapshot r"
  by (auto simp: pick_snapshot_def Let_def purge_retained split: option.splits if_splits)

lemma call_step_ok:
  assumes ok: "memory_ok w" "retained_published w" "empty_at_first w" and began: "b \<le> length (w_log w)"
    and call: "call_ok b (w_log w) call"
  shows "call_ok b (w_log w) (fst (call_step now call (w_store w)))"
proof (cases call)
  case ReadReady
  then show ?thesis using store_pub.flag_published [OF ok(1)] by simp
next
  case ReadCurrent
  then show ?thesis
    using store_pub.load_seen [OF ok(1) _ began] call by (cases "current (w_store w)") simp
next
  case (PageReady sl after limit)
  then show ?thesis using store_pub.flag_published [OF ok(1)] by simp
next
  case (PagePick sl after limit)
  obtain res s where pick: "pick_snapshot now sl (w_store w) = (res, s)" by fastforce
  show ?thesis
  proof (cases res)
    case (Inl e)
    with PagePick pick show ?thesis by (simp add: picked_def)
  next
    case (Inr snap)
    have "case sl of None \<Rightarrow> seen_since b (w_log w) snap
        | Some slot \<Rightarrow> snap \<in> set (w_log w) \<and> snap_slot snap = slot"
      using pick_snapshot_found [OF pick [unfolded Inr]] store_pub.load_seen [OF ok(1) _ began] ok(2) call
      by (auto simp: PagePick retained_published_def split: option.splits)
    with PagePick pick Inr show ?thesis by (auto simp: picked_def)
  qed
next
  case (PageRetain sl after limit snap)
  with call show ?thesis by auto
next
  case HealthCurrent
  have "loaded b (w_log w) (current (w_store w))"
  proof (cases "w_log w = []")
    case True
    with ok(3) began show ?thesis by (simp add: loaded_def empty_at_first_def)
  qed (simp add: loaded_def store_pub.load_seen [OF ok(1) _ began])
  with HealthCurrent show ?thesis by simp
next
  case (HealthUrl snap b)
  with call show ?thesis by (auto simp: reported_def)
qed (use call in simp_all)

lemma retained_call_step:
  assumes "retained_published w" and "call_ok b (w_log w) call"
    and "retained (snd (call_step now call (w_store w))) slot = Some r"
  shows "ret_snapshot r \<in> set (w_log w) \<and> snap_slot (ret_snapshot r) = slot"
proof (cases call)
  case (PagePick sl after limit)
  with assms(3) have "retained (snd (pick_snapshot now sl (w_store w))) slot = Some r"
    by (simp add: case_prod_beta)
  from pick_snapshot_retained [OF this] assms(1) show ?thesis
    unfolding retained_published_def by metis
next
  case (PageRetain sl after limit snap)
  with assms(2) have "snap \<in> set (w_log w)" by (auto dest: seen_since_mem split: option.splits)
  with PageRetain assms(1,3) show ?thesis
    by (auto simp: retained_published_def retain_def split: option.splits if_splits)
qed (use assms in \<open>auto simp: retained_published_def\<close>)

definition world_ok :: "world \<Rightarrow> bool" where
  "world_ok w \<longleftrightarrow> memory_ok w \<and> empty_at_first w \<and> retained_published w \<and> calls_ok w"

lemma publish_step_retained: "retained (snd (publish_step pc s)) = retained s"
  by (cases pc) simp_all

lemma call_begins_ok: "call_begins call \<Longrightarrow> call_ok began log call"
  by (cases call) simp_all

lemma world_ok_interleave:
  assumes "interleave w w'" and "world_ok w"
  shows "world_ok w'"
  using assms
proof (induction rule: interleave.induct)
  case (publish_moves w)
  moreover obtain ds where "w_log (write_moved w) = w_log w @ ds"
    using log_interleave [OF interleave.publish_moves] by blast
  ultimately show ?case
    using memory_ok_interleave [OF interleave.publish_moves, of w]
      empty_at_first_interleave [OF interleave.publish_moves, of w] publish_step_retained [of "w_writer w" "w_store w"]
    by (auto simp: world_ok_def retained_published_def calls_ok_def write_moved_def case_prod_beta
        intro: call_ok_append trans_le_add1)
next
  case (call_starts w t call)
  have move: "interleave w (call_begun t call w)" by (rule interleave.call_starts [OF call_starts(1,2)])
  show ?case
    using memory_ok_interleave [OF move] empty_at_first_interleave [OF move] call_starts(3)
      call_begins_ok [OF call_starts(2)]
    by (simp add: world_ok_def retained_published_def calls_ok_def call_begun_def)
next
  case (call_moves w t now)
  then have ok: "memory_ok w" "retained_published w" "empty_at_first w" "w_began w t \<le> length (w_log w)"
      "call_ok (w_began w t) (w_log w) (w_calls w t)"
    by (simp_all add: world_ok_def calls_ok_def)
  have "calls_ok (call_moved t now w)"
    using call_moves call_step_ok [OF ok, of now]
    by (simp add: world_ok_def calls_ok_def call_moved_def case_prod_beta)
  moreover have "retained_published (call_moved t now w)"
    using retained_call_step [OF ok(2,5)]
    by (simp add: retained_published_def call_moved_def case_prod_beta)
  ultimately show ?case
    using memory_ok_interleave [OF interleave.call_moves ok(1)]
      empty_at_first_interleave [OF interleave.call_moves ok(3)] by (simp add: world_ok_def)
next
  case (publish_begins w url slot accounts)
  note move = interleave.publish_begins [OF publish_begins(1), of url slot accounts]
  show ?case
    using memory_ok_interleave [OF move] empty_at_first_interleave [OF move] publish_begins(2)
    by (simp add: world_ok_def retained_published_def calls_ok_def)
next
  case (invalidates w)
  note move = interleave.invalidates [OF invalidates(1)]
  show ?case
    using memory_ok_interleave [OF move] empty_at_first_interleave [OF move] invalidates(2)
    by (simp add: world_ok_def retained_published_def calls_ok_def)
qed

lemma interleaved_ok: "interleaved w \<Longrightarrow> world_ok w"
proof (induction rule: interleaved.induct)
  case begin_new
  show ?case
    by (simp add: world_ok_def new_world_def memory_ok_def empty_at_first_def retained_published_def calls_ok_def new_store_def)
qed (rule world_ok_interleave)

section \<open>Sample runs\<close>

lemma interleaved_funpow:
  "interleaved w \<Longrightarrow> interleaved ((write_moved ^^ n) w)"
  "interleaved w \<Longrightarrow> interleaved ((call_moved t now ^^ n) w)"
  by (induction n) (auto intro: interleaved.moved_on interleave.intros)

text \<open>The idle writer publishes one table at slot 13.\<close>

definition published :: "world \<Rightarrow> world" where
  "published w =
     (write_moved ^^ 4) (w\<lparr>w_writer := PublishCompare ''one'' 13 (om_insert (key_fill 1) (sample_account 1) om_empty)\<rparr>)"

lemma interleaved_published: "interleaved w \<Longrightarrow> w_writer w = PublishIdle \<Longrightarrow> interleaved (published w)"
  unfolding published_def
  by (intro interleaved_funpow interleaved.moved_on [OF _ interleave.publish_begins])

text \<open>
  A health call of thread \<open>t\<close> that loads the snapshot before the first publication and the flag
  after it.
\<close>

definition health_race :: "nat \<Rightarrow> string \<Rightarrow> u64 \<Rightarrow> (key, account) omap \<Rightarrow> world \<Rightarrow> world" where
  "health_race t url slot accounts w =
     (call_moved t 0 ^^ 2) ((write_moved ^^ 4)
       ((call_moved t 0 (call_begun t HealthCurrent w))\<lparr>w_writer := PublishCompare url slot accounts\<rparr>))"

lemmas race_simps = published_def write_moved_def call_moved_def call_begun_def new_world_def made_current_def
  numeral_eq_Suc Let_def

lemma interleave_funpow:
  "interleave\<^sup>*\<^sup>* w w' \<Longrightarrow> interleave\<^sup>*\<^sup>* w ((write_moved ^^ n) w')"
  "interleave\<^sup>*\<^sup>* w w' \<Longrightarrow> interleave\<^sup>*\<^sup>* w ((call_moved t now ^^ n) w')"
  by (induction n) (auto intro: rtranclp.rtrancl_into_rtrancl interleave.intros)

lemma interleave_health_race:
  assumes "w_writer w = PublishIdle" and "call_over (w_calls w t)"
  shows "interleave\<^sup>*\<^sup>* w (health_race t url slot accounts w)"
  unfolding health_race_def
proof (intro interleave_funpow)
  let ?w = "call_moved t 0 (call_begun t HealthCurrent w)"
  have "interleave w (call_begun t HealthCurrent w)" using assms(2) by (intro interleave.call_starts) simp_all
  moreover have "interleave (call_begun t HealthCurrent w) ?w" by (rule interleave.call_moves)
  moreover have "interleave ?w (?w\<lparr>w_writer := PublishCompare url slot accounts\<rparr>)"
    by (rule interleave.publish_begins) (simp add: assms(1) call_moved_def call_begun_def)
  ultimately show "interleave\<^sup>*\<^sup>* w (?w\<lparr>w_writer := PublishCompare url slot accounts\<rparr>)"
    by (meson rtranclp.rtrancl_refl rtranclp.rtrancl_into_rtrancl)
qed

definition sample_read :: world where
  "sample_read = (call_moved 1 0 ^^ 2) (call_begun 1 ReadReady (published new_world))"

lemma interleaved_sample_read: "interleaved sample_read"
proof -
  have "interleaved (published new_world)"
    by (rule interleaved_published [OF interleaved.begin_new]) (simp add: new_world_def)
  then have "interleaved (call_begun 1 ReadReady (published new_world))"
    by (rule interleaved.moved_on) (rule interleave.call_starts; simp add: race_simps)
  then show ?thesis unfolding sample_read_def by (rule interleaved_funpow)
qed

section \<open>Properties\<close>

text \<open>
  C7. Readers are served whole publications under every interleaving of the writer's and the
  readers' accesses: a snapshot that a read or a first page returns is one that was made current,
  slot and accounts together, and was the latest of them at some moment of the call, never the
  empty state before the first publication; a later page lists a published snapshot of exactly
  the slot its cursor names.
\<close>

theorem concurrent_calls_see_publications:
  assumes "interleaved w"
  shows "case w_calls w t of
      ReadDone res \<Rightarrow>
        (case res of Inl e \<Rightarrow> True | Inr r \<Rightarrow>
           seen_since (w_began w t) (w_log w) \<lparr>snap_slot = read_slot r, snap_accounts = read_accounts r\<rparr>)
    | PageDone sl after limit res \<Rightarrow>
        (case res of Inl e \<Rightarrow> True | Inr p \<Rightarrow>
           \<exists>snap. p = page_of snap after limit \<and>
             (case sl of None \<Rightarrow> seen_since (w_began w t) (w_log w) snap
              | Some slot \<Rightarrow> snap \<in> set (w_log w) \<and> snap_slot snap = slot))
    | HealthDone r \<Rightarrow>
        (\<exists>snap. health_confirmed_slot r = snap_slot snap \<and>
           health_accounts r = om_len (snap_accounts snap) \<and>
           (seen_since (w_began w t) (w_log w) snap \<or> w_began w t = 0 \<and> snap = current new_store))
    | _ \<Rightarrow> True"
proof -
  have "call_ok (w_began w t) (w_log w) (w_calls w t)"
    using interleaved_ok [OF assms] by (simp add: world_ok_def calls_ok_def)
  then show ?thesis by (auto simp: loaded_def reported_def split: call.split sum.split)
qed

lemma concurrent_calls_see_publications_witness:
  "w_calls sample_read 1 = ReadDone (Inr \<lparr>read_slot = 13,
     read_accounts = om_insert (key_fill 1) (sample_account 1) om_empty\<rparr>) \<and>
   seen_since (w_began sample_read 1) (w_log sample_read)
     \<lparr>snap_slot = 13, snap_accounts = om_insert (key_fill 1) (sample_account 1) om_empty\<rparr>"
proof -
  have "w_calls sample_read 1 = ReadDone (Inr \<lparr>read_slot = 13,
      read_accounts = om_insert (key_fill 1) (sample_account 1) om_empty\<rparr>)"
    by (simp add: sample_read_def race_simps new_store_def)
  with concurrent_calls_see_publications [OF interleaved_sample_read, of 1] show ?thesis by simp
qed

text \<open>
  C39. Limit: \<^verbatim>\<open>health\<close> loads the snapshot before the flag, so from every state before the first
  publication, whatever that publishes, any thread's health call can overlap it in such a way that
  it reports the service ready at slot 0 with no accounts, whereas the only snapshot the service
  was ever ready with is the published one.
\<close>

theorem health_reports_ready_while_empty:
  assumes "interleaved w" and "w_log w = []" and "w_writer w = PublishIdle" and "call_over (w_calls w t)"
  shows "\<exists>w'. interleave\<^sup>*\<^sup>* w w' \<and> w_store w' = publish url slot accounts (w_store w) \<and>
    w_log w' = [\<lparr>snap_slot = slot, snap_accounts = accounts\<rparr>] \<and>
    w_calls w' t = HealthDone \<lparr>health_ready = True, health_active_url = Some url,
      health_confirmed_slot = 0, health_accounts = 0\<rparr>"
proof -
  have empty: "current (w_store w) = current new_store"
    using interleaved_ok [OF assms(1)] assms(2) by (simp add: world_ok_def empty_at_first_def)
  let ?w = "health_race t url slot accounts w"
  have "interleave\<^sup>*\<^sup>* w ?w" by (rule interleave_health_race [OF assms(3,4)])
  moreover have "w_store ?w = publish url slot accounts (w_store w)"
    "w_log ?w = [\<lparr>snap_slot = slot, snap_accounts = accounts\<rparr>]"
    "w_calls ?w t = HealthDone \<lparr>health_ready = True, health_active_url = Some url,
       health_confirmed_slot = 0, health_accounts = 0\<rparr>"
    using assms(2) empty
    by (simp_all add: health_race_def race_simps new_store_def om_len_def publish_def)
  ultimately show ?thesis by blast
qed

lemma health_reports_ready_while_empty_witness:
  "\<exists>w'. interleave\<^sup>*\<^sup>* new_world w' \<and>
    w_store w' = publish ''one'' 13 (om_insert (key_fill 1) (sample_account 1) om_empty) new_store \<and>
    w_calls w' 0 = HealthDone \<lparr>health_ready = True, health_active_url = Some ''one'',
      health_confirmed_slot = 0, health_accounts = 0\<rparr>"
  using health_reports_ready_while_empty [OF interleaved.begin_new, of 0 "''one''" 13
      "om_insert (key_fill 1) (sample_account 1) om_empty"]
  by (auto simp: new_world_def)

end
