(* ===== verification/Client_Lifecycle.thy ===== *)
theory Client_Lifecycle
  imports Client_Session
begin

text \<open>
  The client library's background task, \<^verbatim>\<open>run\<close> of \<^verbatim>\<open>src/client.rs\<close>, as a state machine
  that begins where \<^verbatim>\<open>AltCache::connect\<close> ends: it follows a source item by item, recovers
  from the other sources when the feed is lost, and stops when the cache is dropped. Handling
  one item is one step.
\<close>

section \<open>State\<close>

record client_task =
  ct_client :: client
  ct_phase :: client_phase
  ct_stop :: bool

section \<open>What a source can give\<close>

text \<open>
  \<open>snapshot_outcome\<close>: the snapshot URLs answer with any streams, or fail. \<open>source_outcome\<close>:
  connecting to source \<open>i\<close> fails, or its stream delivers any items while the snapshot is fetched.
\<close>

definition snapshot_outcome :: "crates \<Rightarrow> (u64 \<times> tables) result \<Rightarrow> bool" where
  "snapshot_outcome c snap \<longleftrightarrow>
     (\<exists>attempts. snap = fetch_snapshot_from_any attempts \<and>
       (\<forall>r \<in> set attempts. \<not> is_ok r \<or> (\<exists>chunks. r = fetch_snapshot c chunks)))"

definition source_outcome :: "crates \<Rightarrow> nat \<Rightarrow> session result \<Rightarrow> bool" where
  "source_outcome c i res \<longleftrightarrow>
     \<not> is_ok res \<or>
     (\<exists>items snap. snapshot_outcome c snap \<and> res = establish_session_from_source c i items snap)"

section \<open>Steps\<close>

definition client_start :: "client \<Rightarrow> client_task" where
  "client_start cl = \<lparr>ct_client = cl, ct_phase = Following, ct_stop = False\<rparr>"

text \<open>One item of the feed; an error ends the feed, which only matters if the cache is still used.\<close>

definition follow_received :: "crates \<Rightarrow> nat \<Rightarrow> stream_item \<Rightarrow> client_task \<Rightarrow> client_task" where
  "follow_received c count item t =
     (case follow_item c item (ct_client t) of
        (Inr _, cl) \<Rightarrow> t\<lparr>ct_client := cl\<rparr>
      | (Inl e, cl) \<Rightarrow>
          if ct_stop t then t\<lparr>ct_client := cl, ct_phase := ClientStopped\<rparr>
          else let (cl', p) = feed_lost count cl in t\<lparr>ct_client := cl', ct_phase := p\<rparr>)"

definition recovery_tried :: "session result \<Rightarrow> nat \<Rightarrow> client_task \<Rightarrow> client_task" where
  "recovery_tried res start t =
     (let (cl, p) = recovered res start (ct_client t) in t\<lparr>ct_client := cl, ct_phase := p\<rparr>)"

inductive client_step :: "crates \<Rightarrow> nat \<Rightarrow> client_task \<Rightarrow> client_task \<Rightarrow> bool" for c count where
  dropped: "client_step c count t (t\<lparr>ct_stop := True\<rparr>)"
| follow_stop: "ct_phase t = Following \<Longrightarrow> ct_stop t \<Longrightarrow>
    client_step c count t (t\<lparr>ct_phase := ClientStopped\<rparr>)"
| follow_recv: "ct_phase t = Following \<Longrightarrow> client_step c count t (follow_received c count item t)"
| recover_stop: "ct_phase t = Recovering start \<Longrightarrow> ct_stop t \<Longrightarrow>
    client_step c count t (t\<lparr>ct_phase := ClientStopped\<rparr>)"
| recover_try: "ct_phase t = Recovering start \<Longrightarrow> (\<forall>i. source_outcome c i (attempt i)) \<Longrightarrow>
    client_step c count t (recovery_tried (establish_session count start attempt) start t)"

inductive client_reachable :: "crates \<Rightarrow> alt_config \<Rightarrow> client_task \<Rightarrow> bool" for c cfg where
  connected: "(\<forall>i. source_outcome c i (attempt i)) \<Longrightarrow> connect cfg attempt = Inr cl \<Longrightarrow>
    client_reachable c cfg (client_start cl)"
| moved: "client_reachable c cfg t \<Longrightarrow> client_step c (length (yellowstone_grpc cfg)) t t' \<Longrightarrow>
    client_reachable c cfg t'"

section \<open>Filed tables\<close>

definition filed :: "tables \<Rightarrow> bool" where
  "filed t \<longleftrightarrow> (\<forall>k tb. om_get t k = Some tb \<longrightarrow> table_key tb = k)"

lemma filed_simps [simp, intro]:
  "filed om_empty"
  "filed t \<Longrightarrow> filed (om_remove k t)"
  "filed t \<Longrightarrow> filed (om_insert k \<lparr>table_key = k, table_addresses = as\<rparr> t)"
  by (auto simp: filed_def split: if_splits)

lemma filed_apply_update: "apply_update c t u = Inr t' \<Longrightarrow> filed t \<Longrightarrow> filed t'"
  by (auto simp: apply_update_def and_then_eq_Inr split: if_splits)

lemma filed_apply_updates: "filed t \<Longrightarrow> filed (snd (apply_updates c us t))"
  by (induction us arbitrary: t) (auto split: sum.split dest: filed_apply_update)

lemma filed_decode_entries: "decode_entries c accs st = Inr st' \<Longrightarrow> filed (fst st) \<Longrightarrow> filed (fst st')"
  by (induction accs arbitrary: st) (auto simp: decode_entry_def and_then_eq_Inr split: prod.splits)

lemma filed_push:
  assumes "push c ch d = Inr d'" and "filed (get_or om_empty (dl_tables d))"
  shows "filed (get_or om_empty (dl_tables d'))"
  using assms filed_decode_entries
  by (fastforce simp: push_def Let_def ensure_eq_Inr and_then_eq_Inr get_or_def)

lemma filed_push_all:
  "push_all c chs d = Inr d' \<Longrightarrow> filed (get_or om_empty (dl_tables d)) \<Longrightarrow>
     filed (get_or om_empty (dl_tables d'))"
  by (induction chs arbitrary: d) (auto simp: and_then_eq_Inr dest: filed_push)

lemma filed_fetch_snapshot: "fetch_snapshot c chunks = Inr (slot, t) \<Longrightarrow> filed t"
proof -
  assume "fetch_snapshot c chunks = Inr (slot, t)"
  then obtain d where "push_all c chunks new_download = Inr d" and "dl_tables d = Some t"
    by (auto simp: fetch_snapshot_def finish_def and_then_eq_Inr ensure_eq_Inr ok_or_eq_Inr)
  with filed_push_all [of c chunks new_download d] show "filed t"
    by (simp add: get_or_def new_download_def)
qed

lemma filed_snapshot: "snapshot_outcome c (Inr snap) \<Longrightarrow> filed (snd snap)"
proof -
  assume "snapshot_outcome c (Inr snap)"
  then obtain attempts where "fetch_snapshot_from_any attempts = Inr snap"
    and all: "\<forall>r \<in> set attempts. \<not> is_ok r \<or> (\<exists>chunks. r = fetch_snapshot c chunks)"
    by (auto simp: snapshot_outcome_def)
  then have "Inr snap \<in> set attempts" by (auto simp: fetch_snapshot_from_any_def first_success_Inr)
  with all obtain chunks where "fetch_snapshot c chunks = Inr snap" by fastforce
  then show "filed (snd snap)" by (cases snap) (simp add: filed_fetch_snapshot)
qed

section \<open>Sessions\<close>

definition session_ok :: "session \<Rightarrow> bool" where
  "session_ok ses \<longleftrightarrow> filed (ses_tables ses) \<and> ses_bootstrap_slot ses \<le> ses_confirmed_slot ses"

text \<open>Nothing is staged for a slot that has been confirmed.\<close>

definition settled :: "session \<Rightarrow> bool" where
  "settled ses \<longleftrightarrow> (\<forall>s \<in> dom (om_get (ses_pending ses)). ses_confirmed_slot ses < s)"

lemma apply_updates_no_panic: "fst (apply_updates c us t) \<noteq> Inl UnwrapPanic"
proof (induction us arbitrary: t)
  case (Cons u us)
  have "apply_update c t u \<noteq> Inl UnwrapPanic"
    by (auto simp: apply_update_def ok_or_def and_then_def split: sum.splits option.splits if_splits)
  with Cons show ?case by (auto split: sum.split)
qed simp

lemma client_apply_slots_frames:
  "case client_apply_slots c slots ses of (res, ses') \<Rightarrow>
     ses_source_index ses' = ses_source_index ses \<and> ses_bootstrap_slot ses' = ses_bootstrap_slot ses \<and>
     ses_confirmed_slot ses' = ses_confirmed_slot ses \<and>
     (filed (ses_tables ses) \<longrightarrow> filed (ses_tables ses')) \<and>
     (res = Inr () \<longrightarrow> dom (om_get (ses_pending ses')) = dom (om_get (ses_pending ses)) - set slots) \<and>
     (distinct slots \<and> set slots \<subseteq> dom (om_get (ses_pending ses)) \<longrightarrow> res \<noteq> Inl UnwrapPanic)"
proof (induction slots arbitrary: ses)
  case (Cons slot slots)
  show ?case
  proof (cases "om_get (ses_pending ses) slot")
    case (Some us)
    obtain res t where run: "apply_updates c us (ses_tables ses) = (res, t)" by fastforce
    have filed: "filed (ses_tables ses) \<Longrightarrow> filed t"
      using filed_apply_updates [of "ses_tables ses" c us] by (simp add: run)
    have panic: "res \<noteq> Inl UnwrapPanic"
      using apply_updates_no_panic [of c us "ses_tables ses"] by (simp add: run)
    let ?ses = "ses\<lparr>ses_pending := om_remove slot (ses_pending ses), ses_tables := t\<rparr>"
    have "dom (om_get (ses_pending ?ses)) = dom (om_get (ses_pending ses)) - {slot}"
      by (simp del: fun_upd_apply)
    moreover obtain r ses' where rest: "client_apply_slots c slots ?ses = (r, ses')" by fastforce
    ultimately have dom: "dom (om_get (ses_pending ?ses)) = dom (om_get (ses_pending ses)) - {slot}"
      and rest: "client_apply_slots c slots ?ses = (r, ses')" by simp_all
    note IH = Cons.IH [of ?ses, unfolded rest prod.case dom]
    show ?thesis
    proof (cases res)
      case (Inl e)
      with filed panic show ?thesis by (simp add: Some run)
    next
      case (Inr u)
      have eq: "client_apply_slots c (slot # slots) ses = (r, ses')" by (simp add: Some run Inr rest)
      have "distinct (slot # slots) \<and> set (slot # slots) \<subseteq> D \<Longrightarrow> distinct slots \<and> set slots \<subseteq> D - {slot}"
        and "D - {slot} - set slots = D - set (slot # slots)" for D by auto
      with IH filed show ?thesis unfolding eq prod.case by auto
    qed
  qed auto
qed simp

text \<open>What confirming keeps and what it settles.\<close>

lemma client_apply_pending:
  assumes "client_apply_pending_through c slot ses = (res, ses')"
  shows "ses_source_index ses' = ses_source_index ses" "ses_bootstrap_slot ses' = ses_bootstrap_slot ses"
    "ses_confirmed_slot ses' = ses_confirmed_slot ses"
    "filed (ses_tables ses) \<Longrightarrow> filed (ses_tables ses')" "res \<noteq> Inl UnwrapPanic"
    "res = Inr () \<Longrightarrow> dom (om_get (ses_pending ses')) = {s \<in> dom (om_get (ses_pending ses)). slot < s}"
proof -
  let ?slots = "om_keys_through slot (ses_pending ses)"
  have keys: "set ?slots = {s \<in> dom (om_get (ses_pending ses)). s \<le> slot}" "distinct ?slots"
    by (auto simp: om_keys_through_def om_keys_props)
  then have "set ?slots \<subseteq> dom (om_get (ses_pending ses))" by blast
  with keys show "ses_source_index ses' = ses_source_index ses" "ses_bootstrap_slot ses' = ses_bootstrap_slot ses"
    "ses_confirmed_slot ses' = ses_confirmed_slot ses"
    "filed (ses_tables ses) \<Longrightarrow> filed (ses_tables ses')" "res \<noteq> Inl UnwrapPanic"
    "res = Inr () \<Longrightarrow> dom (om_get (ses_pending ses')) = {s \<in> dom (om_get (ses_pending ses)). slot < s}"
    using client_apply_slots_frames [where c = c and slots = ?slots and ses = ses] assms
    by (auto simp: client_apply_pending_through_def not_le)
qed

lemma client_confirm_ok:
  assumes "client_confirm c slot ses = (res, ses')" and "session_ok ses"
  shows "ses_source_index ses' = ses_source_index ses" "session_ok ses'" "res \<noteq> Inl UnwrapPanic"
    "is_ok res \<Longrightarrow> settled ses \<Longrightarrow> settled ses'"
    "res = Inr advanced \<Longrightarrow> ses_confirmed_slot ses' = (if advanced then slot else ses_confirmed_slot ses) \<and>
       ses_confirmed_slot ses \<le> ses_confirmed_slot ses'"
proof -
  have "ses_source_index ses' = ses_source_index ses \<and> session_ok ses' \<and> res \<noteq> Inl UnwrapPanic \<and>
      (is_ok res \<longrightarrow> settled ses \<longrightarrow> settled ses') \<and>
      (res = Inr advanced \<longrightarrow> ses_confirmed_slot ses' = (if advanced then slot else ses_confirmed_slot ses) \<and>
         ses_confirmed_slot ses \<le> ses_confirmed_slot ses')"
  proof (cases "slot \<le> ses_confirmed_slot ses")
    case True
    with assms show ?thesis by (auto simp: client_confirm_def)
  next
    case False
    obtain r ses1 where run: "client_apply_pending_through c slot ses = (r, ses1)" by fastforce
    note facts = client_apply_pending [OF run]
    show ?thesis
      using assms False facts run
      by (cases r) (auto simp: client_confirm_def session_ok_def settled_def)
  qed
  then show "ses_source_index ses' = ses_source_index ses" "session_ok ses'" "res \<noteq> Inl UnwrapPanic"
    "is_ok res \<Longrightarrow> settled ses \<Longrightarrow> settled ses'"
    "res = Inr advanced \<Longrightarrow> ses_confirmed_slot ses' = (if advanced then slot else ses_confirmed_slot ses) \<and>
       ses_confirmed_slot ses \<le> ses_confirmed_slot ses'"
    by blast+
qed

lemma queue_update_ok:
  assumes "queue_update u boot ses = (res, ses')" and "session_ok ses"
  shows "ses_source_index ses' = ses_source_index ses" "session_ok ses'" "res \<noteq> Inl UnwrapPanic"
    "ses_confirmed_slot ses' = ses_confirmed_slot ses"
    "\<not> boot \<Longrightarrow> settled ses \<Longrightarrow> settled ses'"
  using assms
  by (auto simp: queue_update_def session_ok_def settled_def push_pending_def split: if_splits)

lemma replay_event_ok:
  assumes "replay_event c e ses = Inr ses'" and "session_ok ses"
  shows "ses_source_index ses' = ses_source_index ses \<and> session_ok ses'"
proof (cases e)
  case (BufferedAccount u)
  obtain res ses1 where run: "queue_update u True ses = (res, ses1)" by fastforce
  with assms BufferedAccount have "ses1 = ses'" by (auto simp: and_then_eq_Inr)
  with queue_update_ok [OF run assms(2)] show ?thesis by simp
next
  case (BufferedConfirmedSlot slot)
  obtain res ses1 where run: "client_confirm c slot ses = (res, ses1)" by fastforce
  with assms BufferedConfirmedSlot have "ses1 = ses'" by (auto simp: and_then_eq_Inr)
  with client_confirm_ok [OF run assms(2)] show ?thesis by simp
qed

lemma replay_events_ok:
  "replay_events c es ses = Inr ses' \<Longrightarrow> session_ok ses \<Longrightarrow>
     ses_source_index ses' = ses_source_index ses \<and> session_ok ses'"
  by (induction es arbitrary: ses) (auto simp: and_then_eq_Inr dest: replay_event_ok)

text \<open>A session that was established: its source, its tables, and nothing confirmed left staged.\<close>

lemma source_outcome_ok:
  assumes "source_outcome c i (Inr ses)"
  shows "ses_source_index ses = i \<and> session_ok ses \<and> settled ses"
proof -
  obtain items snap where snap: "snapshot_outcome c snap"
    and est: "establish_session_from_source c i items snap = Inr ses"
    using assms by (auto simp: source_outcome_def)
  then obtain buffered s ses1 where s: "snap = Inr s"
    and replay: "replay_events c buffered (new_session i s) = Inr ses1"
    and last: "(case client_apply_pending_through c (ses_confirmed_slot ses1) ses1 of
        (res, ses') \<Rightarrow> and_then res (\<lambda>_. Inr ses')) = Inr ses"
    by (auto simp: establish_session_from_source_def and_then_eq_Inr Let_def simp del: split_paired_Ex)
  obtain res ses2 where run: "client_apply_pending_through c (ses_confirmed_slot ses1) ses1 = (res, ses2)"
    by fastforce
  with last have "res = Inr ()" and "ses2 = ses" by (auto simp: and_then_eq_Inr)
  have "session_ok (new_session i s)"
    using filed_snapshot snap s by (simp add: session_ok_def new_session_def)
  from replay_events_ok [OF replay this] client_apply_pending [OF run] \<open>res = Inr ()\<close> \<open>ses2 = ses\<close>
  show ?thesis by (auto simp: session_ok_def settled_def new_session_def)
qed

section \<open>Choosing a source\<close>

lemma establish_session_Inr:
  assumes "establish_session count start attempt = Inr ses"
  shows "\<exists>k < count. attempt ((start + k) mod count) = Inr ses \<and>
    (\<forall>k' < k. \<not> is_ok (attempt ((start + k') mod count)))"
proof -
  let ?rs = "map (\<lambda>offset. attempt ((start + offset) mod count)) [0..<count]"
  obtain es rest where split: "?rs = map Inl es @ Inr ses # rest"
    using assms by (auto simp: establish_session_def first_success_Inr)
  let ?k = "length es"
  have less: "?k < count" using arg_cong [OF split, of length] by simp
  have nth: "attempt ((start + k) mod count) = (map Inl es @ Inr ses # rest) ! k" if "k < count" for k
    using that by (simp add: split [symmetric])
  have "attempt ((start + ?k) mod count) = Inr ses" using nth [OF less] by (simp add: nth_append)
  moreover have "\<not> is_ok (attempt ((start + k') mod count))" if "k' < ?k" for k'
    using nth [of k'] less that by (simp add: nth_append)
  ultimately show ?thesis using less by blast
qed

lemma first_success_ok: "is_ok (first_success rs err) \<longleftrightarrow> (\<exists>r \<in> set rs. is_ok r)"
proof (induction rs err rule: first_success.induct)
  case (1 err)
  then show ?case by (cases err) simp_all
qed simp_all

lemma establish_session_Inl:
  assumes "establish_session count start attempt = Inl e" and "k < count"
  shows "\<not> is_ok (attempt ((start + k) mod count))"
proof
  let ?rs = "map (\<lambda>offset. attempt ((start + offset) mod count)) [0..<count]"
  assume "is_ok (attempt ((start + k) mod count))"
  then have "\<exists>r \<in> set ?rs. is_ok r" using assms(2) by auto
  then have "is_ok (first_success ?rs None)" by (simp add: first_success_ok)
  then show False using assms(1) by (simp add: establish_session_def)
qed

section \<open>The invariant\<close>

definition task_ok :: "nat \<Rightarrow> client_task \<Rightarrow> bool" where
  "task_ok count t \<longleftrightarrow>
     (let cl = ct_client t; ses = cl_session cl in
      session_ok ses \<and> ses_source_index ses < count \<and>
      (case ct_phase t of
         Following \<Rightarrow> is_ready cl \<and> cl_confirmed_slot cl = ses_confirmed_slot ses \<and> settled ses
       | Recovering start \<Rightarrow> \<not> is_ready cl \<and> start = (ses_source_index ses + 1) mod count
       | ClientStopped \<Rightarrow> ct_stop t))"

lemma established_ok:
  assumes "establish_session count start attempt = Inr ses" and "\<forall>i. source_outcome c i (attempt i)"
    and "0 < count"
  shows "session_ok ses \<and> settled ses \<and> ses_source_index ses < count"
proof -
  obtain k where "attempt ((start + k) mod count) = Inr ses"
    using establish_session_Inr [OF assms(1)] by blast
  then have "source_outcome c ((start + k) mod count) (Inr ses)" using assms(2) by metis
  from source_outcome_ok [OF this] assms(3) show ?thesis by simp
qed

text \<open>Following one item: what it keeps when it succeeds, and what survives an error.\<close>

lemma follow_item_ok:
  assumes "follow_item c item cl = (res, cl')" and "session_ok (cl_session cl)"
  shows "ses_source_index (cl_session cl') = ses_source_index (cl_session cl) \<and>
    session_ok (cl_session cl') \<and> cl_ready cl' = cl_ready cl \<and>
    (res = Inl UnwrapPanic \<longrightarrow> item = StreamFailed UnwrapPanic) \<and>
    (res = Inr () \<and> settled (cl_session cl) \<and> cl_confirmed_slot cl = ses_confirmed_slot (cl_session cl) \<longrightarrow>
       settled (cl_session cl') \<and> cl_confirmed_slot cl' = ses_confirmed_slot (cl_session cl') \<and>
       cl_confirmed_slot cl \<le> cl_confirmed_slot cl')"
proof (cases item)
  case (AccountUpdate u)
  obtain r ses where run: "queue_update u False (cl_session cl) = (r, ses)" by fastforce
  from queue_update_ok [OF run assms(2)] assms(1) show ?thesis by (auto simp: AccountUpdate run)
next
  case (SlotUpdate slot confirmed)
  obtain r ses where run: "client_confirm c slot (cl_session cl) = (r, ses)" by fastforce
  from client_confirm_ok [OF run assms(2)] assms show ?thesis
    by (cases confirmed; cases r) (auto simp: SlotUpdate run split: if_splits)
next
  case (Ping sent)
  with assms show ?thesis by (cases sent) (auto simp: ensure_def)
qed (use assms in auto)

lemma follow_received_ok:
  assumes "task_ok count t" and "ct_phase t = Following"
  shows "task_ok count (follow_received c count item t)"
proof -
  obtain res cl where run: "follow_item c item (ct_client t) = (res, cl)" by fastforce
  have "session_ok (cl_session (ct_client t))" using assms by (simp add: task_ok_def Let_def)
  from follow_item_ok [OF run this] show ?thesis
    using assms by (cases res) (auto simp: follow_received_def run task_ok_def Let_def feed_lost_def is_ready_def)
qed

lemma recovery_tried_ok:
  assumes "task_ok count t" and "ct_phase t = Recovering start" and "\<forall>i. source_outcome c i (attempt i)"
  shows "task_ok count (recovery_tried (establish_session count start attempt) start t)"
proof (cases "establish_session count start attempt")
  case (Inl e)
  with assms show ?thesis by (simp add: recovery_tried_def recovered_def task_ok_def Let_def)
next
  case (Inr ses)
  have "0 < count" using assms(1) by (auto simp: task_ok_def Let_def)
  from established_ok [OF Inr assms(3) this] Inr show ?thesis
    by (simp add: recovery_tried_def recovered_def task_ok_def Let_def is_ready_def)
qed

lemma client_step_ok: "client_step c count t t' \<Longrightarrow> task_ok count t \<Longrightarrow> task_ok count t'"
proof (induction rule: client_step.induct)
  case (dropped t)
  then show ?case by (auto simp: task_ok_def Let_def split: client_phase.splits)
next
  case (follow_recv t item)
  then show ?case by (intro follow_received_ok)
next
  case (recover_try t start attempt)
  then show ?case by (intro recovery_tried_ok)
qed (simp_all add: task_ok_def Let_def)

lemma client_reachable_ok: "client_reachable c cfg t \<Longrightarrow> task_ok (length (yellowstone_grpc cfg)) t"
proof (induction rule: client_reachable.induct)
  case (connected attempt cl)
  then obtain ses where est: "establish_session (length (yellowstone_grpc cfg)) 0 attempt = Inr ses"
    and cl: "cl = \<lparr>cl_session = ses, cl_ready = True, cl_confirmed_slot = ses_confirmed_slot ses\<rparr>"
    and "yellowstone_grpc cfg \<noteq> []"
    by (auto simp: connect_def check_config_def and_then_eq_Inr ensure_eq_Inr)
  from established_ok [OF est connected(1)] this show ?case
    by (simp add: task_ok_def client_start_def Let_def is_ready_def)
next
  case (moved t t')
  then show ?case by (blast intro: client_step_ok)
qed

section \<open>A sample client\<close>

definition sample_alt_config :: alt_config where
  "sample_alt_config =
     \<lparr>snapshot_grpc = [''snap''],
      yellowstone_grpc = [new_source ''one'', with_token ''secret'' (new_source ''two'')]\<rparr>"

definition sample_attempt :: "nat \<Rightarrow> session result" where
  "sample_attempt i =
     (if i = 1 then Inl SourceTimedOut
      else establish_session_from_source sample_crates i []
             (fetch_snapshot_from_any [fetch_snapshot sample_crates
                [\<lparr>chunk_confirmed_slot = 5, chunk_total_accounts = 0, chunk_accounts = []\<rparr>]]))"

definition sample_client :: client where
  "sample_client = \<lparr>cl_session = new_session 0 (5, om_empty), cl_ready = True, cl_confirmed_slot = 5\<rparr>"

lemma sample_attempt_outcome: "source_outcome sample_crates i (sample_attempt i)"
proof (cases "i = 1")
  case False
  have "snapshot_outcome sample_crates (fetch_snapshot_from_any [fetch_snapshot sample_crates chunks])" for chunks
    unfolding snapshot_outcome_def by (intro exI [of _ "[fetch_snapshot sample_crates chunks]"]) auto
  with False show ?thesis unfolding source_outcome_def sample_attempt_def by auto
qed (simp add: source_outcome_def sample_attempt_def)

lemma sample_attempt_simps: "sample_attempt 1 = Inl SourceTimedOut"
  "i \<noteq> 1 \<Longrightarrow> sample_attempt i = Inr (new_session i (5, om_empty))"
  by (simp_all add: sample_attempt_def fetch_snapshot_from_any_def fetch_snapshot_def push_def get_or_def
      new_download_def finish_def om_len_def ensure_def establish_session_from_source_def new_session_def
      client_apply_pending_through_def om_keys_through_def om_keys_def)

lemma sample_client_connects:
  "\<forall>i. source_outcome sample_crates i (sample_attempt i)"
  "connect sample_alt_config sample_attempt = Inr sample_client"
  by (simp add: sample_attempt_outcome)
    (simp add: connect_def check_config_def sample_alt_config_def new_source_def with_token_def ensure_def
      establish_session_def upt_rec sample_attempt_simps sample_client_def, simp add: new_session_def)

lemma sample_client_reachable:
  "client_reachable sample_crates sample_alt_config (client_start sample_client)"
  by (rule connected [OF sample_client_connects])

section \<open>Properties\<close>

text \<open>
  C16. A client is ready exactly while it follows a source. Then it shows the confirmed slot of
  its session, nothing is left staged for a slot that was confirmed, its answers are tables filed
  under the address asked for, items cannot move the confirmed slot back, and no handler panics;
  otherwise every lookup fails as not ready.
\<close>

theorem client_ready_while_following:
  assumes "client_reachable c cfg t" and "\<not> ct_stop t"
  shows "(is_ready (ct_client t) \<longleftrightarrow> ct_phase t = Following) \<and>
    (case ct_phase t of
       Following \<Rightarrow>
         cl_confirmed_slot (ct_client t) = ses_confirmed_slot (cl_session (ct_client t)) \<and>
         (\<forall>s us. om_get (ses_pending (cl_session (ct_client t))) s = Some us \<longrightarrow>
            cl_confirmed_slot (ct_client t) < s) \<and>
         (\<forall>k tb. get_table k (ct_client t) = Inr (Some tb) \<longrightarrow> table_key tb = k) \<and>
         (\<forall>item cl'. follow_item c item (ct_client t) = (Inr (), cl') \<longrightarrow>
            cl_confirmed_slot (ct_client t) \<le> cl_confirmed_slot cl') \<and>
         (\<forall>item cl'. follow_item c item (ct_client t) = (Inl UnwrapPanic, cl') \<longrightarrow>
            item = StreamFailed UnwrapPanic)
     | Recovering start \<Rightarrow>
         start < length (yellowstone_grpc cfg) \<and> (\<forall>k. get_table k (ct_client t) = Inl CacheNotReady)
     | ClientStopped \<Rightarrow> False)"
proof -
  have ok: "task_ok (length (yellowstone_grpc cfg)) t" using assms(1) by (rule client_reachable_ok)
  show ?thesis
  proof (cases "ct_phase t")
    case Following
    with ok have ses: "session_ok (cl_session (ct_client t))" by (simp add: task_ok_def Let_def)
    have cl: "is_ready (ct_client t)" "settled (cl_session (ct_client t))"
      "cl_confirmed_slot (ct_client t) = ses_confirmed_slot (cl_session (ct_client t))"
      using ok Following by (simp_all add: task_ok_def Let_def)
    note item = follow_item_ok [OF _ ses]
    have "cl_confirmed_slot (ct_client t) < s"
      if "om_get (ses_pending (cl_session (ct_client t))) s = Some us" for s us
      using cl(2,3) that by (auto simp: settled_def)
    moreover have "table_key tb = k" if "get_table k (ct_client t) = Inr (Some tb)" for k tb
      using ses that by (auto simp: session_ok_def filed_def get_table_def ensure_eq_Inr)
    moreover have "cl_confirmed_slot (ct_client t) \<le> cl_confirmed_slot cl'"
      if "follow_item c item (ct_client t) = (Inr (), cl')" for item cl'
      using item [OF that] cl(2,3) by blast
    moreover have "item = StreamFailed UnwrapPanic"
      if "follow_item c item (ct_client t) = (Inl UnwrapPanic, cl')" for item cl'
      using item [OF that] by simp
    ultimately show ?thesis using cl(1,3) Following by simp
  qed (use ok assms(2) in \<open>auto simp: task_ok_def Let_def get_table_def ensure_def intro!: mod_less_divisor\<close>)
qed

lemma client_ready_while_following_witness:
  "is_ready sample_client \<and> cl_confirmed_slot sample_client = ses_confirmed_slot (cl_session sample_client)"
  using client_ready_while_following [OF sample_client_reachable] by (simp add: client_start_def)

text \<open>
  C17. A lost feed is replaced in order: the client is unready at once and tries the other sources
  in cyclic order after the failed one, the failed one last. It becomes ready with the session of
  the first source that can be established; while none can, it stays unready and begins again at
  the same place.
\<close>

theorem client_recovers_in_order:
  assumes "client_reachable c cfg t" and "ct_phase t = Following" and "\<not> ct_stop t"
    and "follow_item c item (ct_client t) = (Inl e, cl)"
    and "\<forall>i. source_outcome c i (attempt i)"
  shows "\<exists>start. ct_phase (follow_received c (length (yellowstone_grpc cfg)) item t) = Recovering start \<and>
    \<not> is_ready (ct_client (follow_received c (length (yellowstone_grpc cfg)) item t)) \<and>
    (let n = length (yellowstone_grpc cfg); failed = ses_source_index (cl_session (ct_client t));
         t' = recovery_tried (establish_session n start attempt) start (follow_received c n item t)
     in if \<exists>k < n. is_ok (attempt ((failed + 1 + k) mod n))
        then \<exists>k < n. is_ok (attempt ((failed + 1 + k) mod n)) \<and>
          (\<forall>k' < k. \<not> is_ok (attempt ((failed + 1 + k') mod n))) \<and>
          ct_phase t' = Following \<and> is_ready (ct_client t') \<and>
          ses_source_index (cl_session (ct_client t')) = (failed + 1 + k) mod n
        else ct_phase t' = Recovering start \<and> \<not> is_ready (ct_client t'))"
proof -
  let ?n = "length (yellowstone_grpc cfg)" and ?failed = "ses_source_index (cl_session (ct_client t))"
  let ?start = "(?failed + 1) mod ?n"
  have "session_ok (cl_session (ct_client t))"
    using client_reachable_ok [OF assms(1)] by (simp add: task_ok_def Let_def)
  with follow_item_ok [OF assms(4)] have same: "ses_source_index (cl_session cl) = ?failed" by blast
  then have lost: "follow_received c ?n item t =
      t\<lparr>ct_client := cl\<lparr>cl_ready := False\<rparr>, ct_phase := Recovering ?start\<rparr>"
    using assms(3,4) by (simp add: follow_received_def feed_lost_def)
  have mod: "(?start + k) mod ?n = (?failed + 1 + k) mod ?n" for k by (rule mod_add_left_eq)
  show ?thesis
  proof (cases "establish_session ?n ?start attempt")
    case (Inl err)
    then have "\<not> is_ok (attempt ((?failed + 1 + k) mod ?n))" if "k < ?n" for k
      using establish_session_Inl [OF Inl that] by (simp only: mod not_False_eq_True)
    with Inl lost show ?thesis
      by (auto simp: recovery_tried_def recovered_def is_ready_def Let_def)
  next
    case (Inr ses)
    obtain k where k: "k < ?n" "attempt ((?failed + 1 + k) mod ?n) = Inr ses"
      "\<forall>k' < k. \<not> is_ok (attempt ((?failed + 1 + k') mod ?n))"
      using establish_session_Inr [OF Inr] by (auto simp only: mod)
    have "ses_source_index ses = (?failed + 1 + k) mod ?n"
      using source_outcome_ok assms(5) k(2) by metis
    with Inr lost k show ?thesis
      by (auto simp: recovery_tried_def recovered_def is_ready_def Let_def intro!: exI [of _ k])
  qed
qed

lemma client_recovers_in_order_witness:
  "\<exists>start. ct_phase (follow_received sample_crates (length (yellowstone_grpc sample_alt_config))
      (Ping False) (client_start sample_client)) = Recovering start"
proof -
  have "follow_item sample_crates (Ping False) (ct_client (client_start sample_client)) =
      (Inl PingNotSent, sample_client)"
    by (simp add: client_start_def ensure_def)
  moreover have "\<forall>i. source_outcome sample_crates i (sample_attempt i)"
    by (simp add: sample_attempt_outcome)
  moreover have "ct_phase (client_start sample_client) = Following" "\<not> ct_stop (client_start sample_client)"
    by (simp_all add: client_start_def)
  ultimately show ?thesis using client_recovers_in_order [OF sample_client_reachable] by blast
qed

end
