(* ===== verification/Concurrent_Client.thy ===== *)
theory Concurrent_Client
  imports Client_Lifecycle Mirroring Publication
begin

text \<open>
  The client library (\<^verbatim>\<open>src/client.rs\<close>) at the grain at which its background task and the
  threads that call \<^verbatim>\<open>get\<close> interleave: the table maps are shared objects at addresses, the cell
  \<^verbatim>\<open>tables\<close> holds the address of the current one, and each access to a map, to the cell or to an
  atomic is one step. \<open>Client_Lifecycle\<close> takes a whole item as one step; here that is the run of
  the task that nothing interrupts.
\<close>

section \<open>The background task\<close>

text \<open>
  Where \<^verbatim>\<open>run\<close> is: waiting for an item; confirming a slot, with the slots to take and the
  updates of the slot taken; about to store the confirmed slot; with a lost feed, before the
  stop check and before it clears \<^verbatim>\<open>ready\<close>; recovering; installing a session in three stores.
\<close>

datatype task_pc =
    TaskFollow
  | TaskApply u64 "u64 list" "account_update list"
  | TaskConfirmed u64
  | TaskLost
  | TaskUnready
  | TaskRecover nat
  | TaskSwap session
  | TaskSlot session
  | TaskReady session
  | TaskStopped

text \<open>Where a thread is in \<^verbatim>\<open>get\<close>: before its check of \<^verbatim>\<open>ready\<close>, its load of the cell, its lookup.\<close>

datatype lookup =
    NoLookup
  | GetReady key
  | GetLoad key
  | GetLook key nat
  | GetDone key "lookup_table option result"

text \<open>
  \<open>cw_session\<close> is the task's own session, whose \<open>ses_tables\<close> repeats the map at the cell's
  address, the \<^verbatim>\<open>Arc\<close> being shared. Ghosts: \<open>cw_log\<close>, the contents the current map has had,
  and \<open>cw_began\<close>, how many there were when each thread's lookup began.
\<close>

record client_world =
  cw_maps :: "nat \<Rightarrow> tables"
  cw_cell :: nat
  cw_ready :: bool
  cw_confirmed :: u64
  cw_stop :: bool
  cw_session :: session
  cw_pc :: task_pc
  cw_lookups :: "nat \<Rightarrow> lookup"
  cw_log :: "tables list"
  cw_began :: "nat \<Rightarrow> nat"

definition client_world_of :: "client \<Rightarrow> client_world" where
  "client_world_of cl =
     \<lparr>cw_maps = (\<lambda>_. ses_tables (cl_session cl)), cw_cell = 0, cw_ready = cl_ready cl,
      cw_confirmed = cl_confirmed_slot cl, cw_stop = False, cw_session = cl_session cl,
      cw_pc = TaskFollow, cw_lookups = (\<lambda>_. NoLookup), cw_log = [ses_tables (cl_session cl)],
      cw_began = (\<lambda>_. 0)\<rparr>"

text \<open>\<^verbatim>\<open>DashMap::insert\<close> or \<^verbatim>\<open>remove\<close> on the current map.\<close>

definition map_written :: "tables \<Rightarrow> client_world \<Rightarrow> client_world" where
  "map_written t w =
     w\<lparr>cw_maps := (cw_maps w)(cw_cell w := t), cw_session := (cw_session w)\<lparr>ses_tables := t\<rparr>,
       cw_log := cw_log w @ [t]\<rparr>"

text \<open>An item is received.\<close>

fun task_received :: "stream_item \<Rightarrow> client_world \<Rightarrow> client_world" where
  "task_received (Ping sent) w = (if sent then w else w\<lparr>cw_pc := TaskLost\<rparr>)"
| "task_received (AccountUpdate update) w =
     (case queue_update update False (cw_session w) of
        (Inl e, ses) \<Rightarrow> w\<lparr>cw_session := ses, cw_pc := TaskLost\<rparr>
      | (Inr _, ses) \<Rightarrow> w\<lparr>cw_session := ses\<rparr>)"
| "task_received (SlotUpdate slot confirmed) w =
     (if confirmed \<and> \<not> slot \<le> ses_confirmed_slot (cw_session w)
      then w\<lparr>cw_pc := TaskApply slot (om_keys_through slot (ses_pending (cw_session w))) []\<rparr>
      else w)"
| "task_received OtherUpdate w = w"
| "task_received (StreamFailed e) w = w\<lparr>cw_pc := TaskLost\<rparr>"

text \<open>A recovery was tried.\<close>

definition task_recovered :: "session result \<Rightarrow> client_world \<Rightarrow> client_world" where
  "task_recovered res w = (case res of Inl e \<Rightarrow> w | Inr ses \<Rightarrow> w\<lparr>cw_pc := TaskSwap ses\<rparr>)"

text \<open>
  One step of \<^verbatim>\<open>confirm\<close>: apply the next update of the slot taken, take the next slot, or, when
  there is none left, advance the session. The \<^verbatim>\<open>unwrap\<close> that cannot fail ends the feed here, as
  in \<open>client_apply_slots\<close>.
\<close>

definition apply_moved ::
  "crates \<Rightarrow> u64 \<Rightarrow> u64 list \<Rightarrow> account_update list \<Rightarrow> client_world \<Rightarrow> client_world" where
  "apply_moved c slot slots us w =
     (case us of
        u # us' \<Rightarrow>
          (case apply_update c (cw_maps w (cw_cell w)) u of
             Inl e \<Rightarrow> w\<lparr>cw_pc := TaskLost\<rparr>
           | Inr t \<Rightarrow> (map_written t w)\<lparr>cw_pc := TaskApply slot slots us'\<rparr>)
      | [] \<Rightarrow>
          (case slots of
             [] \<Rightarrow> w\<lparr>cw_session := (cw_session w)\<lparr>ses_confirmed_slot := slot\<rparr>, cw_pc := TaskConfirmed slot\<rparr>
           | s # ss \<Rightarrow>
               (case om_get (ses_pending (cw_session w)) s of
                  None \<Rightarrow> w\<lparr>cw_pc := TaskLost\<rparr>
                | Some taken \<Rightarrow>
                    w\<lparr>cw_session := (cw_session w)\<lparr>ses_pending := om_remove s (ses_pending (cw_session w))\<rparr>,
                      cw_pc := TaskApply slot ss taken\<rparr>)))"

text \<open>One step of the task between two receptions.\<close>

definition task_moved :: "crates \<Rightarrow> nat \<Rightarrow> client_world \<Rightarrow> client_world" where
  "task_moved c count w =
     (case cw_pc w of
        TaskApply slot slots us \<Rightarrow> apply_moved c slot slots us w
      | TaskConfirmed slot \<Rightarrow> w\<lparr>cw_confirmed := slot, cw_pc := TaskFollow\<rparr>
      | TaskLost \<Rightarrow> w\<lparr>cw_pc := if cw_stop w then TaskStopped else TaskUnready\<rparr>
      | TaskUnready \<Rightarrow>
          w\<lparr>cw_ready := False, cw_pc := TaskRecover ((ses_source_index (cw_session w) + 1) mod count)\<rparr>
      | TaskSwap ses \<Rightarrow>
          w\<lparr>cw_maps := (cw_maps w)(Suc (cw_cell w) := ses_tables ses), cw_cell := Suc (cw_cell w),
            cw_log := cw_log w @ [ses_tables ses], cw_pc := TaskSlot ses\<rparr>
      | TaskSlot ses \<Rightarrow> w\<lparr>cw_confirmed := ses_confirmed_slot ses, cw_pc := TaskReady ses\<rparr>
      | TaskReady ses \<Rightarrow> w\<lparr>cw_ready := True, cw_session := ses, cw_pc := TaskFollow\<rparr>
      | _ \<Rightarrow> w)"

lemmas task_moved_unfold = task_moved_def apply_moved_def

section \<open>Lookups\<close>

definition lookup_step :: "lookup \<Rightarrow> client_world \<Rightarrow> lookup" where
  "lookup_step l w =
     (case l of
        GetReady k \<Rightarrow> if cw_ready w then GetLoad k else GetDone k (Inl CacheNotReady)
      | GetLoad k \<Rightarrow> GetLook k (cw_cell w)
      | GetLook k a \<Rightarrow> GetDone k (Inr (om_get (cw_maps w a) k))
      | _ \<Rightarrow> l)"

definition lookup_over :: "lookup \<Rightarrow> bool" where
  "lookup_over l = (case l of NoLookup \<Rightarrow> True | GetDone k r \<Rightarrow> True | _ \<Rightarrow> False)"

definition lookup_moved :: "nat \<Rightarrow> client_world \<Rightarrow> client_world" where
  "lookup_moved r w = w\<lparr>cw_lookups := (cw_lookups w)(r := lookup_step (cw_lookups w r) w)\<rparr>"

definition lookup_begun :: "nat \<Rightarrow> key \<Rightarrow> client_world \<Rightarrow> client_world" where
  "lookup_begun r k w =
     w\<lparr>cw_lookups := (cw_lookups w)(r := GetReady k), cw_began := (cw_began w)(r := length (cw_log w))\<rparr>"

section \<open>Interleaving\<close>

inductive client_move :: "crates \<Rightarrow> nat \<Rightarrow> client_world \<Rightarrow> client_world \<Rightarrow> bool" for c count where
  cache_dropped: "client_move c count w (w\<lparr>cw_stop := True\<rparr>)"
| task_stops: "cw_pc w = TaskFollow \<or> cw_pc w = TaskRecover start \<Longrightarrow> cw_stop w \<Longrightarrow>
    client_move c count w (w\<lparr>cw_pc := TaskStopped\<rparr>)"
| task_receives: "cw_pc w = TaskFollow \<Longrightarrow> client_move c count w (task_received item w)"
| task_recovers: "cw_pc w = TaskRecover start \<Longrightarrow> (\<forall>i. source_outcome c i (attempt i)) \<Longrightarrow>
    client_move c count w (task_recovered (establish_session count start attempt) w)"
| task_moves: "client_move c count w (task_moved c count w)"
| lookup_begins: "lookup_over (cw_lookups w r) \<Longrightarrow> client_move c count w (lookup_begun r k w)"
| lookup_moves: "client_move c count w (lookup_moved r w)"

inductive client_interleaved :: "crates \<Rightarrow> alt_config \<Rightarrow> client_world \<Rightarrow> bool" for c cfg where
  client_connected: "(\<forall>i. source_outcome c i (attempt i)) \<Longrightarrow> connect cfg attempt = Inr cl \<Longrightarrow>
    client_interleaved c cfg (client_world_of cl)"
| client_moved: "client_interleaved c cfg w \<Longrightarrow> client_move c (length (yellowstone_grpc cfg)) w w' \<Longrightarrow>
    client_interleaved c cfg w'"

section \<open>The current map\<close>

text \<open>The session the task is about to make its own, once the cell has its tables.\<close>

fun live_session :: "task_pc \<Rightarrow> session \<Rightarrow> session" where
  "live_session (TaskSlot ses') ses = ses'"
| "live_session (TaskReady ses') ses = ses'"
| "live_session _ ses = ses"

definition shared_map_ok :: "client_world \<Rightarrow> bool" where
  "shared_map_ok w \<longleftrightarrow>
     cw_log w \<noteq> [] \<and> cw_maps w (cw_cell w) = last (cw_log w) \<and>
     ses_tables (live_session (cw_pc w) (cw_session w)) = cw_maps w (cw_cell w)"

lemma queue_update_tables: "ses_tables (snd (queue_update u b ses)) = ses_tables ses"
  by (simp add: queue_update_def)

lemma shared_map_received:
  assumes "cw_pc w = TaskFollow" and "shared_map_ok w"
  shows "shared_map_ok (task_received item w)"
proof (cases item)
  case (AccountUpdate update)
  obtain res ses where run: "queue_update update False (cw_session w) = (res, ses)" by fastforce
  then have "ses_tables ses = ses_tables (cw_session w)"
    using queue_update_tables [of update False "cw_session w"] by simp
  with assms show ?thesis by (cases res) (simp_all add: AccountUpdate run shared_map_ok_def)
qed (use assms in \<open>simp_all add: shared_map_ok_def\<close>)

lemma shared_map_moved: "shared_map_ok w \<Longrightarrow> shared_map_ok (task_moved c count w)"
  by (cases "cw_pc w")
    (auto simp: shared_map_ok_def task_moved_unfold map_written_def split: list.split sum.split option.split)

lemma shared_map_move:
  assumes "client_move c count w w'" and "shared_map_ok w"
  shows "shared_map_ok w'"
  using assms
proof (induction rule: client_move.induct)
  case (task_receives w item)
  then show ?case by (intro shared_map_received)
next
  case (task_moves w)
  then show ?case by (intro shared_map_moved)
next
  case (task_recovers w start attempt)
  then show ?case by (auto simp: shared_map_ok_def task_recovered_def split: sum.split)
qed (auto simp: shared_map_ok_def lookup_begun_def lookup_moved_def)

section \<open>The log\<close>

lemma log_task_received: "cw_log (task_received item w) = cw_log w"
  by (cases item) (simp_all add: prod.split sum.split split: prod.split sum.split)

text \<open>What a step of the task does to the current map: nothing, a write, or an exchange.\<close>

lemma task_moved_maps:
  "case cw_pc w of
     TaskSwap ses \<Rightarrow> cw_log (task_moved c count w) = cw_log w @ [ses_tables ses] \<and>
       cw_cell (task_moved c count w) = Suc (cw_cell w) \<and>
       cw_maps (task_moved c count w) = (cw_maps w)(Suc (cw_cell w) := ses_tables ses)
   | _ \<Rightarrow>
       cw_cell (task_moved c count w) = cw_cell w \<and>
       (cw_log (task_moved c count w) = cw_log w \<and> cw_maps (task_moved c count w) = cw_maps w \<or>
        (\<exists>u t. apply_update c (cw_maps w (cw_cell w)) u = Inr t \<and>
          cw_log (task_moved c count w) = cw_log w @ [t] \<and>
          cw_maps (task_moved c count w) = (cw_maps w)(cw_cell w := t)))"
  by (auto simp: task_moved_unfold map_written_def split: task_pc.split list.split sum.split option.split)

lemma log_task_moved: "\<exists>ts. cw_log (task_moved c count w) = cw_log w @ ts"
  using task_moved_maps [where w = w and c = c and count = count] by (auto split: task_pc.splits)

lemma log_task_recovered: "cw_log (task_recovered res w) = cw_log w"
  by (simp add: task_recovered_def split: sum.split)

lemma log_client_move: "client_move c count w w' \<Longrightarrow> \<exists>ts. cw_log w' = cw_log w @ ts"
  by (induction rule: client_move.induct)
    (simp_all add: log_task_moved log_task_received log_task_recovered lookup_begun_def lookup_moved_def)

interpretation client_pub: publication "client_move c count" shared_map_ok cw_ready
  "\<lambda>w. cw_maps w (cw_cell w)" cw_log for c count
proof unfold_locales
  show "shared_map_ok w'" if "client_move c count w w'" and "shared_map_ok w" for w w'
    using that by (rule shared_map_move)
  show "\<exists>ts. cw_log w' = cw_log w @ ts" if "client_move c count w w'" for w w'
    using that by (rule log_client_move)
qed (auto simp: shared_map_ok_def)

section \<open>How the current map changes\<close>

definition map_change :: "crates \<Rightarrow> tables \<Rightarrow> tables \<Rightarrow> bool" where
  "map_change c t t' \<longleftrightarrow>
     (\<exists>u. apply_update c t u = Inr t') \<or>
     (\<exists>i ses. source_outcome c i (Inr ses) \<and> ses_tables ses = t')"

definition changes_ok :: "crates \<Rightarrow> client_world \<Rightarrow> bool" where
  "changes_ok c w \<longleftrightarrow>
     successively (map_change c) (cw_log w) \<and>
     (\<forall>ses. cw_pc w = TaskSwap ses \<longrightarrow> (\<exists>i. source_outcome c i (Inr ses)))"

lemma pc_task_received: "cw_pc (task_received item w) = TaskSwap ses \<Longrightarrow> cw_pc w = TaskSwap ses"
  by (cases item) (auto split: prod.splits sum.splits if_splits)

lemma pc_task_moved: "cw_pc (task_moved c count w) \<noteq> TaskSwap ses"
  by (auto simp: task_moved_unfold map_written_def split: task_pc.split list.split sum.split option.split)

lemma changes_task_moved:
  assumes "changes_ok c w" and "shared_map_ok w"
  shows "changes_ok c (task_moved c count w)"
proof -
  have last: "cw_log w \<noteq> []" "last (cw_log w) = cw_maps w (cw_cell w)"
    using assms(2) by (simp_all add: shared_map_ok_def)
  have "successively (map_change c) (cw_log (task_moved c count w))"
    using task_moved_maps [where w = w and c = c and count = count] assms(1) last
    by (auto simp: changes_ok_def successively_append_iff map_change_def split: task_pc.splits)
  then show ?thesis by (simp add: changes_ok_def pc_task_moved)
qed

lemma changes_move:
  assumes "client_move c count w w'" and "changes_ok c w" and "shared_map_ok w"
  shows "changes_ok c w'"
  using assms
proof (induction rule: client_move.induct)
  case (task_moves w)
  then show ?case by (intro changes_task_moved)
next
  case (task_receives w item)
  then have "cw_pc (task_received item w) \<noteq> TaskSwap ses" for ses
    using pc_task_received [of item w ses] by auto
  with task_receives show ?case by (simp add: changes_ok_def log_task_received)
next
  case (task_recovers w start attempt)
  show ?case
  proof (cases "establish_session count start attempt")
    case (Inl e)
    with task_recovers show ?thesis by (simp add: task_recovered_def)
  next
    case (Inr ses)
    then obtain k where "attempt ((start + k) mod count) = Inr ses"
      using establish_session_Inr by blast
    then have "\<exists>i. source_outcome c i (Inr ses)"
      using task_recovers(2) spec [OF task_recovers(2), of "(start + k) mod count"] by auto
    with task_recovers(3) Inr show ?thesis by (simp add: changes_ok_def task_recovered_def)
  qed
qed (auto simp: changes_ok_def lookup_begun_def lookup_moved_def)

section \<open>What a lookup finds\<close>

fun lookup_ok :: "nat \<Rightarrow> client_world \<Rightarrow> lookup \<Rightarrow> bool" where
  "lookup_ok began w (GetLook k a) \<longleftrightarrow> a \<le> cw_cell w \<and> seen_since began (cw_log w) (cw_maps w a)"
| "lookup_ok began w (GetDone k (Inr v)) \<longleftrightarrow> (\<exists>t. seen_since began (cw_log w) t \<and> v = om_get t k)"
| "lookup_ok began w _ \<longleftrightarrow> True"

definition lookups_ok :: "client_world \<Rightarrow> bool" where
  "lookups_ok w \<longleftrightarrow>
     (\<forall>r. cw_began w r \<le> length (cw_log w) \<and> lookup_ok (cw_began w r) w (cw_lookups w r))"

lemma lookup_step_ok:
  assumes "shared_map_ok w" and "began \<le> length (cw_log w)" and "lookup_ok began w l"
  shows "lookup_ok began w (lookup_step l w)"
  using assms client_pub.load_seen [of w began] by (cases l) (auto simp: lookup_step_def shared_map_ok_def)

text \<open>A map that is no longer current is never written again.\<close>

lemma lookup_ok_moved:
  assumes "shared_map_ok w" and "began \<le> length (cw_log w)" and "lookup_ok began w l"
  shows "lookup_ok began (task_moved c count w) l"
proof -
  have stays: "seen_since began (cw_log w) t \<Longrightarrow> seen_since began (cw_log (task_moved c count w)) t" for t
    using log_task_moved [where w = w and c = c and count = count] seen_since_append by metis
  have now: "seen_since began (cw_log w @ [t]) t" for t
    using seen_since_last [of "cw_log w @ [t]" began] assms(2) by simp
  show ?thesis
  proof (cases l)
    case (GetLook k a)
    then show ?thesis
      using task_moved_maps [where w = w and c = c and count = count] assms(3) stays now
      by (auto split: task_pc.splits)
  next
    case (GetDone k r)
    with assms(3) stays show ?thesis by (cases r) auto
  qed simp_all
qed

lemma lookup_ok_frame:
  "cw_log w' = cw_log w \<Longrightarrow> cw_maps w' = cw_maps w \<Longrightarrow> cw_cell w' = cw_cell w \<Longrightarrow>
     lookup_ok began w' l = lookup_ok began w l"
  by (induction began w l rule: lookup_ok.induct) simp_all

lemma task_received_frames:
  "cw_maps (task_received item w) = cw_maps w" "cw_cell (task_received item w) = cw_cell w"
  "cw_lookups (task_received item w) = cw_lookups w" "cw_began (task_received item w) = cw_began w"
  by (cases item; simp split: prod.split sum.split)+

lemma task_moved_frames:
  "cw_lookups (task_moved c count w) = cw_lookups w" "cw_began (task_moved c count w) = cw_began w"
  by (auto simp: task_moved_unfold map_written_def split: task_pc.split list.split sum.split option.split)

lemma lookups_move:
  assumes "client_move c count w w'" and "lookups_ok w" and "shared_map_ok w"
  shows "lookups_ok w'"
  using assms
proof (induction rule: client_move.induct)
  case (task_moves w)
  have "length (cw_log w) \<le> length (cw_log (task_moved c count w))"
    using log_task_moved [where w = w and c = c and count = count] by fastforce
  with task_moves show ?case
    by (auto simp: lookups_ok_def task_moved_frames intro: lookup_ok_moved order_trans)
next
  case (task_receives w item)
  have "lookup_ok b (task_received item w) l = lookup_ok b w l" for b l
    by (rule lookup_ok_frame) (simp_all add: task_received_frames log_task_received)
  with task_receives show ?case by (simp add: lookups_ok_def task_received_frames log_task_received)
next
  case (task_recovers w start attempt)
  have "lookup_ok b (task_recovered res w) l = lookup_ok b w l" for b l res
    by (rule lookup_ok_frame) (simp_all add: task_recovered_def split: sum.split)
  with task_recovers show ?case
    by (simp add: lookups_ok_def log_task_recovered) (simp add: task_recovered_def split: sum.split)
next
  case (lookup_begins w r k)
  have "lookup_ok b (lookup_begun r k w) l = lookup_ok b w l" for b l
    by (rule lookup_ok_frame) (simp_all add: lookup_begun_def)
  with lookup_begins show ?case by (simp add: lookups_ok_def) (simp add: lookup_begun_def)
next
  case (lookup_moves w r)
  have "lookup_ok b (lookup_moved r w) l = lookup_ok b w l" for b l
    by (rule lookup_ok_frame) (simp_all add: lookup_moved_def)
  with lookup_moves lookup_step_ok [of w "cw_began w r" "cw_lookups w r"] show ?case
    by (simp add: lookups_ok_def) (simp add: lookup_moved_def)
next
  case (cache_dropped w)
  have "lookup_ok b (w\<lparr>cw_stop := True\<rparr>) l = lookup_ok b w l" for b l
    by (rule lookup_ok_frame) simp_all
  with cache_dropped show ?case by (simp add: lookups_ok_def)
next
  case (task_stops w start)
  have "lookup_ok b (w\<lparr>cw_pc := TaskStopped\<rparr>) l = lookup_ok b w l" for b l
    by (rule lookup_ok_frame) simp_all
  with task_stops show ?case by (simp add: lookups_ok_def)
qed

lemma client_interleaved_ok:
  "client_interleaved c cfg w \<Longrightarrow> shared_map_ok w \<and> changes_ok c w \<and> lookups_ok w"
proof (induction rule: client_interleaved.induct)
  case (client_connected attempt cl)
  show ?case by (simp add: client_world_of_def shared_map_ok_def changes_ok_def lookups_ok_def)
next
  case (client_moved w w')
  then show ?case using shared_map_move changes_move lookups_move by blast
qed

section \<open>Uninterrupted runs of the task\<close>

text \<open>The state of \<open>Client_Lifecycle\<close>, where the task waits.\<close>

definition task_at :: "client_phase \<Rightarrow> client_world \<Rightarrow> client_task" where
  "task_at p w =
     \<lparr>ct_client = \<lparr>cl_session = cw_session w, cl_ready = cw_ready w, cl_confirmed_slot = cw_confirmed w\<rparr>,
      ct_phase = p, ct_stop = cw_stop w\<rparr>"

definition task_view :: "client_world \<Rightarrow> client_task option" where
  "task_view w =
     (case cw_pc w of
        TaskFollow \<Rightarrow> Some (task_at Following w)
      | TaskRecover start \<Rightarrow> Some (task_at (Recovering start) w)
      | TaskStopped \<Rightarrow> Some (task_at ClientStopped w)
      | _ \<Rightarrow> None)"

definition task_runs :: "crates \<Rightarrow> nat \<Rightarrow> client_world \<Rightarrow> client_world \<Rightarrow> bool" where
  "task_runs c count w w' \<longleftrightarrow> (\<exists>n. (task_moved c count ^^ n) w = w')"

lemma task_runs_refl: "task_runs c count w w"
  unfolding task_runs_def by (rule exI [of _ 0]) simp

lemma task_runs_step: "task_runs c count (task_moved c count w) w' \<Longrightarrow> task_runs c count w w'"
  unfolding task_runs_def by (metis comp_apply funpow_Suc_right)

lemma task_runs_one: "task_moved c count w = w' \<Longrightarrow> task_runs c count w w'"
  using task_runs_step task_runs_refl by metis

lemma task_runs_trans: "task_runs c count w w' \<Longrightarrow> task_runs c count w' w'' \<Longrightarrow> task_runs c count w w''"
  unfolding task_runs_def by (metis comp_apply funpow_add)

definition same_outside :: "client_world \<Rightarrow> client_world \<Rightarrow> bool" where
  "same_outside w w' \<longleftrightarrow>
     cw_ready w' = cw_ready w \<and> cw_confirmed w' = cw_confirmed w \<and> cw_stop w' = cw_stop w"

lemma updates_run:
  assumes "shared_map_ok w" and "cw_pc w = TaskApply slot slots us"
    and "apply_updates c us (ses_tables (cw_session w)) = (res, t)"
  shows "\<exists>w'. task_runs c count w w' \<and> shared_map_ok w' \<and> same_outside w w' \<and>
    cw_session w' = (cw_session w)\<lparr>ses_tables := t\<rparr> \<and>
    cw_pc w' = (case res of Inl e \<Rightarrow> TaskLost | Inr _ \<Rightarrow> TaskApply slot slots [])"
  using assms
proof (induction us arbitrary: w)
  case Nil
  then show ?case by (intro exI [of _ w]) (auto simp: task_runs_refl same_outside_def)
next
  case (Cons u us)
  have sync: "cw_maps w (cw_cell w) = ses_tables (cw_session w)"
    using Cons.prems(1,2) by (simp add: shared_map_ok_def)
  let ?w = "task_moved c count w"
  have ok: "shared_map_ok ?w" using Cons.prems(1) by (rule shared_map_moved)
  show ?case
  proof (cases "apply_update c (ses_tables (cw_session w)) u")
    case (Inl e)
    with Cons.prems sync have "?w = w\<lparr>cw_pc := TaskLost\<rparr>" "res = Inl e" "t = ses_tables (cw_session w)"
      by (simp_all add: task_moved_unfold)
    with ok show ?thesis
      by (intro exI [of _ ?w]) (simp add: task_runs_one same_outside_def)
  next
    case (Inr t')
    with Cons.prems(2) sync have w: "?w = (map_written t' w)\<lparr>cw_pc := TaskApply slot slots us\<rparr>"
      by (simp add: task_moved_unfold)
    then have "apply_updates c us (ses_tables (cw_session ?w)) = (res, t)"
      using Cons.prems(3) Inr by (simp add: map_written_def)
    with Cons.IH [OF ok] w obtain w' where "task_runs c count ?w w'" "shared_map_ok w'" "same_outside ?w w'"
        "cw_session w' = (cw_session ?w)\<lparr>ses_tables := t\<rparr>"
        "cw_pc w' = (case res of Inl e \<Rightarrow> TaskLost | Inr _ \<Rightarrow> TaskApply slot slots [])"
      by (auto simp: map_written_def)
    then show ?thesis
      by (intro exI [of _ w']) (simp add: task_runs_step w map_written_def same_outside_def)
  qed
qed

lemma slots_run:
  assumes "shared_map_ok w" and "cw_pc w = TaskApply slot slots []"
    and "client_apply_slots c slots (cw_session w) = (res, ses)"
  shows "\<exists>w'. task_runs c count w w' \<and> same_outside w w' \<and> cw_session w' = ses \<and>
    cw_pc w' = (case res of Inl e \<Rightarrow> TaskLost | Inr _ \<Rightarrow> TaskApply slot [] [])"
  using assms
proof (induction slots arbitrary: w)
  case Nil
  then show ?case by (intro exI [of _ w]) (auto simp: task_runs_refl same_outside_def)
next
  case (Cons s slots)
  let ?w = "task_moved c count w"
  have ok: "shared_map_ok ?w" using Cons.prems(1) by (rule shared_map_moved)
  show ?case
  proof (cases "om_get (ses_pending (cw_session w)) s")
    case None
    with Cons.prems have "?w = w\<lparr>cw_pc := TaskLost\<rparr>" "res = Inl UnwrapPanic" "ses = cw_session w"
      by (simp_all add: task_moved_unfold)
    then show ?thesis
      by (intro exI [of _ ?w]) (simp add: task_runs_one same_outside_def)
  next
    case (Some us)
    let ?ses = "(cw_session w)\<lparr>ses_pending := om_remove s (ses_pending (cw_session w))\<rparr>"
    have w: "?w = w\<lparr>cw_session := ?ses, cw_pc := TaskApply slot slots us\<rparr>"
      using Cons.prems(2) Some by (simp add: task_moved_unfold)
    obtain r t where run: "apply_updates c us (ses_tables (cw_session ?w)) = (r, t)" by fastforce
    obtain w1 where w1: "task_runs c count ?w w1" "shared_map_ok w1" "same_outside ?w w1"
      "cw_session w1 = (cw_session ?w)\<lparr>ses_tables := t\<rparr>"
      "cw_pc w1 = (case r of Inl e \<Rightarrow> TaskLost | Inr _ \<Rightarrow> TaskApply slot slots [])"
      using updates_run [OF ok _ run, of slot slots] w by auto
    have to_w1: "task_runs c count w w1" "same_outside w w1"
      using w1(1,3) w by (simp_all add: task_runs_step same_outside_def)
    have rest: "(case r of Inl e \<Rightarrow> (Inl e, cw_session w1) | Inr _ \<Rightarrow> client_apply_slots c slots (cw_session w1)) =
        (res, ses)"
      using Cons.prems(3) Some run w w1(4) by (cases r) (auto simp: Let_def)
    show ?thesis
    proof (cases r)
      case (Inl e)
      with rest w1 to_w1 show ?thesis by (intro exI [of _ w1]) auto
    next
      case (Inr x)
      with rest w1 Cons.IH [of w1] obtain w' where "task_runs c count w1 w'" "same_outside w1 w'"
          "cw_session w' = ses" "cw_pc w' = (case res of Inl e \<Rightarrow> TaskLost | Inr _ \<Rightarrow> TaskApply slot [] [])"
        by auto
      then show ?thesis
        using task_runs_trans [OF to_w1(1)] to_w1(2) by (auto simp: same_outside_def)
    qed
  qed
qed

text \<open>A lost feed, from before the stop check to where the task waits again.\<close>

lemma lost_run:
  assumes "cw_pc w = TaskLost"
  shows "\<exists>w'. task_runs c count w w' \<and> task_view w' = Some
    (if cw_stop w then task_at ClientStopped w
     else task_at (Recovering ((ses_source_index (cw_session w) + 1) mod count)) (w\<lparr>cw_ready := False\<rparr>))"
proof (cases "cw_stop w")
  case True
  with assms show ?thesis
    by (intro exI [of _ "task_moved c count w"]) (simp add: task_runs_one task_moved_unfold task_view_def task_at_def)
next
  case False
  let ?w = "task_moved c count w"
  have "task_runs c count w (task_moved c count ?w)"
    by (rule task_runs_step [OF task_runs_one]) simp
  with False assms show ?thesis
    by (intro exI [of _ "task_moved c count ?w"]) (simp add: task_moved_unfold task_view_def task_at_def)
qed

lemma confirm_run:
  assumes "shared_map_ok w" and "cw_pc w = TaskFollow" and "\<not> slot \<le> ses_confirmed_slot (cw_session w)"
  shows "\<exists>w'. task_runs c count (task_received (SlotUpdate slot True) w) w' \<and>
    (case client_confirm c slot (cw_session w) of
       (Inl e, ses) \<Rightarrow> same_outside w w' \<and> cw_session w' = ses \<and> cw_pc w' = TaskLost
     | (Inr advanced, ses) \<Rightarrow> task_view w' = Some (task_at Following (w\<lparr>cw_session := ses, cw_confirmed := slot\<rparr>)))"
proof -
  let ?slots = "om_keys_through slot (ses_pending (cw_session w))"
  let ?w = "task_received (SlotUpdate slot True) w"
  have w: "?w = w\<lparr>cw_pc := TaskApply slot ?slots []\<rparr>" using assms(3) by simp
  obtain res ses where run: "client_apply_slots c ?slots (cw_session w) = (res, ses)" by fastforce
  obtain w1 where w1: "task_runs c count ?w w1" "same_outside w w1" "cw_session w1 = ses"
    "cw_pc w1 = (case res of Inl e \<Rightarrow> TaskLost | Inr _ \<Rightarrow> TaskApply slot [] [])"
    using slots_run [OF shared_map_received [OF assms(2,1)], of "SlotUpdate slot True" slot ?slots c res ses count] w run
    by (auto simp: same_outside_def)
  show ?thesis
  proof (cases res)
    case (Inl e)
    with w1 run assms(3) show ?thesis
      by (intro exI [of _ w1]) (simp add: client_confirm_def client_apply_pending_through_def)
  next
    case (Inr x)
    let ?w2 = "task_moved c count w1"
    have "task_runs c count ?w (task_moved c count ?w2)"
      using task_runs_trans [OF w1(1)] task_runs_step [OF task_runs_one] by metis
    with w1 Inr run assms(3) show ?thesis
      by (intro exI [of _ "task_moved c count ?w2"])
        (simp add: client_confirm_def client_apply_pending_through_def task_moved_unfold task_view_def
          task_at_def same_outside_def)
  qed
qed

text \<open>The item leaves the task waiting, or its error ends the feed.\<close>

definition received_refines :: "crates \<Rightarrow> nat \<Rightarrow> stream_item \<Rightarrow> client_world \<Rightarrow> bool" where
  "received_refines c count item w \<longleftrightarrow>
     (\<exists>w'. task_runs c count (task_received item w) w' \<and>
       task_view w' = Some (follow_received c count item (task_at Following w)))"

lemma received_waits:
  assumes "cw_pc (task_received item w) = TaskFollow"
    and "task_at Following (task_received item w) = follow_received c count item (task_at Following w)"
  shows "received_refines c count item w"
  unfolding received_refines_def using assms
  by (intro exI [of _ "task_received item w"]) (simp add: task_runs_refl task_view_def)

lemma received_lost:
  assumes "follow_item c item (ct_client (task_at Following w)) = (Inl e, cl)"
    and "task_runs c count (task_received item w) w1" and "cw_pc w1 = TaskLost"
    and "same_outside w w1" and "cl = ct_client (task_at Following w)\<lparr>cl_session := cw_session w1\<rparr>"
  shows "received_refines c count item w"
  unfolding received_refines_def
  using lost_run [OF assms(3), of c count] task_runs_trans [OF assms(2)] assms(1,4,5)
  by (auto simp: follow_received_def feed_lost_def task_at_def same_outside_def split: if_splits)

lemma received_slot:
  assumes "shared_map_ok w" and "cw_pc w = TaskFollow" and "\<not> slot \<le> ses_confirmed_slot (cw_session w)"
  shows "received_refines c count (SlotUpdate slot True) w"
proof -
  let ?item = "SlotUpdate slot True"
  obtain res ses where run: "client_confirm c slot (cw_session w) = (res, ses)" by fastforce
  obtain w1 where w1: "task_runs c count (task_received ?item w) w1"
    "case (res, ses) of
       (Inl e, ses) \<Rightarrow> same_outside w w1 \<and> cw_session w1 = ses \<and> cw_pc w1 = TaskLost
     | (Inr advanced, ses) \<Rightarrow>
         task_view w1 = Some (task_at Following (w\<lparr>cw_session := ses, cw_confirmed := slot\<rparr>))"
    using confirm_run [OF assms, of c count] run by auto
  show ?thesis
  proof (cases res)
    case (Inl e)
    with w1 run show ?thesis by (intro received_lost [of c ?item w e _ count w1]) (auto simp: task_at_def)
  next
    case (Inr advanced)
    moreover from this assms(3) run have "advanced"
      by (auto simp: client_confirm_def split: prod.splits sum.splits)
    ultimately show ?thesis
      unfolding received_refines_def using w1 run
      by (intro exI [of _ w1]) (simp add: task_at_def follow_received_def)
  qed
qed

lemma received_run:
  assumes "shared_map_ok w" and "cw_pc w = TaskFollow"
  shows "received_refines c count item w"
proof (cases item)
  case (AccountUpdate update)
  obtain r ses where run: "queue_update update False (cw_session w) = (r, ses)" by fastforce
  show ?thesis
  proof (cases r)
    case (Inl e)
    with run show ?thesis
      by (intro received_lost [OF _ task_runs_refl])
        (simp_all add: AccountUpdate task_at_def same_outside_def)
  next
    case (Inr x)
    with run assms(2) show ?thesis
      by (intro received_waits) (simp_all add: AccountUpdate task_at_def follow_received_def)
  qed
next
  case (SlotUpdate slot confirmed)
  show ?thesis
  proof (cases "confirmed \<and> \<not> slot \<le> ses_confirmed_slot (cw_session w)")
    case True
    with received_slot [OF assms] show ?thesis by (simp add: SlotUpdate)
  next
    case False
    with assms(2) show ?thesis
      by (intro received_waits) (auto simp: SlotUpdate task_at_def follow_received_def client_confirm_def)
  qed
next
  case (Ping sent)
  show ?thesis
  proof (cases sent)
    case True
    with Ping assms(2) show ?thesis
      by (intro received_waits) (simp_all add: task_at_def follow_received_def ensure_def)
  next
    case False
    with Ping show ?thesis
      by (intro received_lost [OF _ task_runs_refl]) (simp_all add: task_at_def same_outside_def ensure_def)
  qed
next
  case OtherUpdate
  with assms(2) show ?thesis by (intro received_waits) (simp_all add: task_at_def follow_received_def)
next
  case (StreamFailed e)
  then show ?thesis
    by (intro received_lost [OF _ task_runs_refl]) (simp_all add: task_at_def same_outside_def)
qed

lemma recovered_run:
  assumes "cw_pc w = TaskRecover start"
  shows "\<exists>w'. task_runs c count (task_recovered res w) w' \<and>
    task_view w' = Some (recovery_tried res start (task_at (Recovering start) w))"
proof (cases res)
  case (Inl e)
  with assms show ?thesis
    by (intro exI [of _ w]) (simp add: task_recovered_def task_runs_refl task_view_def recovery_tried_def
        recovered_def task_at_def)
next
  case (Inr ses)
  let ?step = "task_moved c count"
  have "task_runs c count (task_recovered res w) (?step (?step (?step (task_recovered res w))))"
    by (rule task_runs_step [OF task_runs_step [OF task_runs_one]]) simp
  with Inr show ?thesis
    by (intro exI [of _ "?step (?step (?step (task_recovered res w)))"])
      (simp add: task_recovered_def task_moved_unfold task_view_def recovery_tried_def recovered_def task_at_def)
qed

section \<open>A sample run\<close>

text \<open>Two updates of slot 7 are staged and the slot confirmed; the first of them is applied.\<close>

definition slot_taken :: client_world where
  "slot_taken =
     task_moved sample_crates 2
       (task_received (SlotUpdate 7 True)
       (task_received (AccountUpdate (sample_update 9 7))
       (task_received (AccountUpdate (sample_update 8 7)) (client_world_of sample_client))))"

definition half_confirmed :: client_world where
  "half_confirmed = task_moved sample_crates 2 slot_taken"

text \<open>A whole lookup, while the task does nothing.\<close>

definition looked_up :: "nat \<Rightarrow> key \<Rightarrow> client_world \<Rightarrow> client_world" where
  "looked_up r k w = (lookup_moved r ^^ 3) (lookup_begun r k w)"

lemma funpow_2: "(f ^^ 2) x = f (f x)"
  by (simp add: numeral_2_eq_2)

lemma client_interleaved_funpow:
  assumes "client_interleaved c cfg w"
  shows "client_interleaved c cfg ((task_moved c (length (yellowstone_grpc cfg)) ^^ n) w)"
    and "client_interleaved c cfg ((lookup_moved r ^^ n) w)"
  using assms by (induction n) (auto intro: client_interleaved.client_moved client_move.intros)

lemma looked_up_interleaved:
  "client_interleaved c cfg w \<Longrightarrow> lookup_over (cw_lookups w r) \<Longrightarrow> client_interleaved c cfg (looked_up r k w)"
  unfolding looked_up_def
  by (intro client_interleaved_funpow client_interleaved.client_moved [OF _ client_move.lookup_begins])

lemma looked_up_simps:
  "cw_lookups (looked_up r k w) = (cw_lookups w)
     (r := GetDone k (if cw_ready w then Inr (om_get (cw_maps w (cw_cell w)) k) else Inl CacheNotReady))"
  "cw_confirmed (looked_up r k w) = cw_confirmed w" "cw_ready (looked_up r k w) = cw_ready w"
  "cw_maps (looked_up r k w) = cw_maps w" "cw_cell (looked_up r k w) = cw_cell w"
  by (auto simp: looked_up_def lookup_begun_def lookup_moved_def lookup_step_def numeral_eq_Suc)

lemma looked_up_pc: "cw_pc (looked_up r k w) = cw_pc w"
  by (simp add: looked_up_def lookup_begun_def lookup_moved_def numeral_eq_Suc)

lemma looked_up_moves:
  assumes "lookup_over (cw_lookups w r)"
  shows "(client_move c count)\<^sup>*\<^sup>* w (looked_up r k w)"
proof -
  have "(client_move c count)\<^sup>*\<^sup>* (lookup_begun r k w) ((lookup_moved r ^^ n) (lookup_begun r k w))" for n
    by (induction n) (auto intro: rtranclp.rtrancl_into_rtrancl client_move.lookup_moves)
  with client_move.lookup_begins [OF assms] show ?thesis
    unfolding looked_up_def by (blast intro: converse_rtranclp_into_rtranclp)
qed

text \<open>An update touches its own key only.\<close>

lemma apply_update_other:
  assumes "apply_update c t u = Inr t'" and "upd_account u = Some acc"
    and "key_of_bytes (pubkey acc) = Some k" and "k' \<noteq> k"
  shows "om_get t' k' = om_get t k'"
  using assms by (auto simp: apply_update_def ok_or_def and_then_def split: if_splits option.splits sum.splits)

lemma half_confirmed_interleaved: "client_interleaved sample_crates sample_alt_config half_confirmed"
proof -
  have count: "length (yellowstone_grpc sample_alt_config) = 2" by (simp add: sample_alt_config_def)
  have start: "client_interleaved sample_crates sample_alt_config (client_world_of sample_client)"
    using sample_client_connects by (blast intro: client_interleaved.client_connected)
  note receive = client_interleaved.client_moved [OF _ client_move.task_receives]
  have pc: "cw_pc (client_world_of sample_client) = TaskFollow"
    "cw_pc (task_received (AccountUpdate (sample_update 8 7)) (client_world_of sample_client)) = TaskFollow"
    "cw_pc (task_received (AccountUpdate (sample_update 9 7))
      (task_received (AccountUpdate (sample_update 8 7)) (client_world_of sample_client))) = TaskFollow"
    by (simp_all add: client_world_of_def sample_client_def new_session_def queue_update_def)
  have "client_interleaved sample_crates sample_alt_config ((task_moved sample_crates 2 ^^ 2)
       (task_received (SlotUpdate 7 True)
       (task_received (AccountUpdate (sample_update 9 7))
       (task_received (AccountUpdate (sample_update 8 7)) (client_world_of sample_client)))))"
    unfolding count [symmetric] by (intro client_interleaved_funpow receive pc start)
  then show ?thesis by (simp add: half_confirmed_def slot_taken_def numeral_2_eq_2)
qed

lemma apply_sample_update:
  "apply_update sample_crates t (sample_update b slot) =
     Inr (om_insert (key_fill b) \<lparr>table_key = key_fill b, table_addresses = [key_fill b]\<rparr> t)"
proof -
  have "key_of_bytes (replicate 32 b) = Some (key_fill b)" by (simp add: key_of_bytes_eq_Some)
  then show ?thesis by (simp add: apply_update_def sample_update_def)
qed

text \<open>What the session holds when slot 7 is confirmed, and the two steps after.\<close>

definition half_session :: session where
  "half_session = (new_session 0 (5, om_empty))
     \<lparr>ses_pending := om_insert 7 [sample_update 8 7, sample_update 9 7] om_empty\<rparr>"

lemma half_staged:
  "task_received (AccountUpdate (sample_update 9 7))
     (task_received (AccountUpdate (sample_update 8 7)) (client_world_of sample_client)) =
   (client_world_of sample_client)\<lparr>cw_session := half_session\<rparr>"
proof -
  have "om_insert 7 [a, b] (om_insert 7 [a] om_empty) = om_insert 7 [a, b] om_empty" for a b :: account_update
    by (rule om_eqI) simp
  then show ?thesis
    by (simp add: client_world_of_def sample_client_def new_session_def queue_update_def push_pending_def
        half_session_def)
qed

lemma slot_taken_eq:
  "slot_taken = (client_world_of sample_client)
     \<lparr>cw_session := half_session\<lparr>ses_pending := om_remove 7 (ses_pending half_session)\<rparr>,
      cw_pc := TaskApply 7 [] [sample_update 8 7, sample_update 9 7]\<rparr>"
proof -
  have keys: "om_keys_through 7 (ses_pending half_session) = [7]"
    by (simp add: half_session_def om_keys_through_def om_keys_def)
  have slot: "ses_confirmed_slot half_session = 5" by (simp add: half_session_def new_session_def)
  have taken: "om_get (ses_pending half_session) 7 = Some [sample_update 8 7, sample_update 9 7]"
    by (simp add: half_session_def)
  show ?thesis
    unfolding slot_taken_def half_staged by (simp add: task_moved_unfold keys slot taken)
qed

lemma slot_taken_simps:
  "cw_ready slot_taken" "cw_confirmed slot_taken = 5" "cw_cell slot_taken = 0"
  "cw_lookups slot_taken r = NoLookup"
  "cw_pc slot_taken = TaskApply 7 [] (sample_update 8 7 # [sample_update 9 7])"
  "cw_maps slot_taken 0 = om_empty"
  by (simp_all add: slot_taken_eq client_world_of_def sample_client_def new_session_def)

lemma half_confirmed_eq:
  "half_confirmed = (map_written (om_insert (key_fill 8) \<lparr>table_key = key_fill 8, table_addresses = [key_fill 8]\<rparr> om_empty)
     slot_taken)\<lparr>cw_pc := TaskApply 7 [] [sample_update 9 7]\<rparr>"
  by (simp add: half_confirmed_def task_moved_unfold slot_taken_simps apply_sample_update)

lemma half_confirmed_simps:
  "cw_ready half_confirmed" "cw_confirmed half_confirmed = 5" "cw_cell half_confirmed = 0"
  "cw_lookups half_confirmed r = NoLookup" "cw_pc half_confirmed = TaskApply 7 [] [sample_update 9 7]"
  "cw_maps half_confirmed 0 =
     om_insert (key_fill 8) \<lparr>table_key = key_fill 8, table_addresses = [key_fill 8]\<rparr> om_empty"
  by (simp_all add: half_confirmed_eq map_written_def slot_taken_simps)

lemma sample_world_interleaved:
  "client_interleaved sample_crates sample_alt_config (client_world_of sample_client)"
  using sample_client_connects by (blast intro: client_interleaved.client_connected)

section \<open>Properties\<close>

text \<open>
  C8. Lookups are linearizable although the map they read is written in place and exchanged by
  recoveries: under every interleaving, what a successful \<^verbatim>\<open>get\<close> answers is the entry of its key
  in a content the client's current map had at some moment of the call. The contents follow one
  another by single applied updates, or by the tables of a newly established session.
\<close>

theorem lookups_linearize:
  assumes "client_interleaved c cfg w" and "cw_lookups w r = GetDone k (Inr v)"
  shows "(\<exists>t. seen_since (cw_began w r) (cw_log w) t \<and> v = om_get t k) \<and>
    successively (map_change c) (cw_log w)"
proof -
  have "changes_ok c w" and "lookup_ok (cw_began w r) w (cw_lookups w r)"
    using client_interleaved_ok [OF assms(1)] by (simp_all add: lookups_ok_def)
  with assms(2) show ?thesis by (simp add: changes_ok_def)
qed

lemma lookups_linearize_witness:
  "\<exists>t. seen_since (cw_began (looked_up 0 (key_fill 8) half_confirmed) 0)
      (cw_log (looked_up 0 (key_fill 8) half_confirmed)) t \<and>
    om_get t (key_fill 8) = Some \<lparr>table_key = key_fill 8, table_addresses = [key_fill 8]\<rparr>"
proof -
  have "cw_lookups (looked_up 0 (key_fill 8) half_confirmed) 0 =
      GetDone (key_fill 8) (Inr (Some \<lparr>table_key = key_fill 8, table_addresses = [key_fill 8]\<rparr>))"
    by (simp add: looked_up_simps half_confirmed_simps)
  from lookups_linearize [OF looked_up_interleaved [OF half_confirmed_interleaved] this]
  show ?thesis by (auto simp: half_confirmed_simps lookup_over_def)
qed

text \<open>
  C18. The client's step-by-step task refines the one that handles a whole item at once: from a
  reachable state where the task waits, the steps it takes after an item, or after a recovery
  that was tried, end where the other's single step does, errors half way through a slot and
  the stop check included.
\<close>

theorem client_task_refined:
  assumes "client_interleaved c cfg w" and "cw_pc w = TaskFollow \<or> cw_pc w = TaskRecover start"
  shows "\<exists>w'. if cw_pc w = TaskFollow
    then task_runs c (length (yellowstone_grpc cfg)) (task_received item w) w' \<and>
      task_view w' = Some (follow_received c (length (yellowstone_grpc cfg)) item (task_at Following w))
    else task_runs c (length (yellowstone_grpc cfg)) (task_recovered res w) w' \<and>
      task_view w' = Some (recovery_tried res start (task_at (Recovering start) w))"
proof -
  have "shared_map_ok w" using client_interleaved_ok [OF assms(1)] by simp
  from received_run [OF this] recovered_run assms(2) show ?thesis
    by (auto simp: received_refines_def)
qed

lemma client_task_refined_witness:
  "\<exists>w'. task_runs sample_crates 2 (task_received (Ping False) (client_world_of sample_client)) w' \<and>
     task_view w' = Some (follow_received sample_crates 2 (Ping False) (client_start sample_client))"
proof -
  have "cw_pc (client_world_of sample_client) = TaskFollow"
    and "task_at Following (client_world_of sample_client) = client_start sample_client"
    and "length (yellowstone_grpc sample_alt_config) = 2"
    by (simp_all add: client_world_of_def task_at_def client_start_def sample_alt_config_def)
  then show ?thesis
    using client_task_refined [OF sample_world_interleaved, of 0 "Ping False"] by simp
qed

text \<open>
  C40. Limit: a slot is not confirmed at once for lookups. From every state in which the client is
  ready and the task is about to apply an update, of key \<open>k\<close>, with which it confirms a slot, the
  update is visible to a lookup of one thread while another thread, for any other key, such as
  one that a later update of the same slot writes, still gets the entry from before, both before
  the task has applied the rest or moved the confirmed slot.
\<close>

theorem lookups_tear_a_slot:
  assumes "cw_ready w" and "cw_pc w = TaskApply slot slots (u # us)"
    and "upd_account u = Some acc" and "key_of_bytes (pubkey acc) = Some k"
    and "apply_update c (cw_maps w (cw_cell w)) u = Inr t" and "k' \<noteq> k"
    and "r \<noteq> q" and "lookup_over (cw_lookups w r)" and "lookup_over (cw_lookups w q)"
  shows "\<exists>w'. (client_move c count)\<^sup>*\<^sup>* w w' \<and>
    cw_pc w' = TaskApply slot slots us \<and> cw_confirmed w' = cw_confirmed w \<and> cw_ready w' \<and>
    cw_lookups w' r = GetDone k (Inr (om_get t k)) \<and>
    cw_lookups w' q = GetDone k' (Inr (om_get (cw_maps w (cw_cell w)) k'))"
proof -
  let ?v = "task_moved c count w"
  have v: "cw_lookups ?v = cw_lookups w" "cw_pc ?v = TaskApply slot slots us" "cw_ready ?v"
    "cw_confirmed ?v = cw_confirmed w" "cw_maps ?v (cw_cell ?v) = t"
    using assms(1,2,5) by (simp_all add: task_moved_unfold map_written_def)
  have "(client_move c count)\<^sup>*\<^sup>* w (looked_up r k ?v)"
    using client_move.task_moves [of c count w] looked_up_moves [of ?v r c count k] assms(8)
    by (simp add: v(1))
  moreover have "(client_move c count)\<^sup>*\<^sup>* (looked_up r k ?v) (looked_up q k' (looked_up r k ?v))"
    using assms(7,9) by (intro looked_up_moves) (simp add: looked_up_simps v(1))
  ultimately have "(client_move c count)\<^sup>*\<^sup>* w (looked_up q k' (looked_up r k ?v))"
    by (rule rtranclp_trans)
  then show ?thesis
    using v assms(7) apply_update_other [OF assms(5,3,4,6)]
    by (intro exI [of _ "looked_up q k' (looked_up r k ?v)"]) (simp add: looked_up_simps looked_up_pc)
qed

lemma lookups_tear_a_slot_witness:
  "\<exists>w'. (client_move sample_crates 2)\<^sup>*\<^sup>* slot_taken w' \<and>
    cw_pc w' = TaskApply 7 [] [sample_update 9 7] \<and> cw_confirmed w' = 5 \<and> cw_ready w' \<and>
    cw_lookups w' 0 =
      GetDone (key_fill 8) (Inr (Some \<lparr>table_key = key_fill 8, table_addresses = [key_fill 8]\<rparr>)) \<and>
    cw_lookups w' 1 = GetDone (key_fill 9) (Inr None)"
proof -
  obtain acc where acc: "upd_account (sample_update 8 7) = Some acc" "key_of_bytes (pubkey acc) = Some (key_fill 8)"
    by (simp add: sample_update_def key_of_bytes_eq_Some)
  show ?thesis
    using lookups_tear_a_slot [OF _ slot_taken_simps(5) acc apply_sample_update, of "key_fill 9" 0 1 2]
    by (simp add: slot_taken_simps lookup_over_def)
qed

end
