(* ===== verification/Alerting.thy ===== *)
theory Alerting
  imports Lifecycle Alerts
begin

text \<open>
  What the updater of \<^verbatim>\<open>src/updater.rs\<close> reports through \<^verbatim>\<open>logging::alert\<close>: two of its handlers
  raise an alert. The machine of \<open>Service\<close> runs here next to the alert queue and its thread
  (\<open>Alerts\<close>). A handler is one step of the machine, so its alert is queued in that step.
\<close>

section \<open>The alerts of a handler\<close>

definition bootstrap_failed_text :: string where
  "bootstrap_failed_text = ''ALT cache bootstrap RPC failed; readiness is false''"

definition source_failed_text :: "string \<Rightarrow> string" where
  "source_failed_text url = ''ALT cache source '' @ url @ '' failed; readiness is false''"

text \<open>After the fetch of a bootstrap; the retry pause follows in the same branch.\<close>

definition bootstrap_alerts :: "fetched_alt_state result \<Rightarrow> string list" where
  "bootstrap_alerts res = (case res of Inl _ \<Rightarrow> [bootstrap_failed_text] | Inr _ \<Rightarrow> [])"

text \<open>After an event while serving \<open>url\<close>: a decoding error restarts without an alert.\<close>

fun serve_alerts :: "event \<Rightarrow> string \<Rightarrow> service \<Rightarrow> string list" where
  "serve_alerts (Disconnected failed) url svc =
     (if failed = active_source svc then [source_failed_text url] else [])"
| "serve_alerts (Connected source) url svc = []"
| "serve_alerts (AccountEvent source update) url svc = []"
| "serve_alerts (ConfirmedEvent source slot) url svc = []"

text \<open>The alerts of a step, from its label and phases; only a failed fetch leads to the pause.\<close>

fun raised_between :: "event option \<Rightarrow> phase \<Rightarrow> phase \<Rightarrow> service \<Rightarrow> string list" where
  "raised_between (Some ev) (Serving url u refresh) p svc = serve_alerts ev url svc"
| "raised_between None (Bootstrapping url buffered) RetryPause svc = [bootstrap_failed_text]"
| "raised_between _ _ _ svc = []"

definition raised :: "event option \<Rightarrow> machine \<Rightarrow> machine \<Rightarrow> string list" where
  "raised l m m' = raised_between l (m_phase m) (m_phase m') (m_service m)"

lemma raised_between_same [simp]: "raised_between None p p svc = []"
  by (cases p) simp_all

lemma raised_serve_received:
  "m_phase m = Serving url u refresh \<Longrightarrow>
   raised (Some ev) m (serve_received c ev url u refresh m) = serve_alerts ev url (m_service m)"
  by (simp add: raised_def)

lemma raised_bootstrap_fetched:
  "m_phase m = Bootstrapping url buffered \<Longrightarrow>
   raised None m (bootstrap_fetched res url buffered m) = bootstrap_alerts res"
  by (simp add: raised_def bootstrap_fetched_def bootstrap_alerts_def split: sum.split prod.split)

lemma serve_alerts_raised:
  "serve_alerts ev url svc \<noteq> [] \<longleftrightarrow> ev = Disconnected (active_source svc)"
  by (cases ev) auto

lemma serve_alerts_text: "text \<in> set (serve_alerts ev url svc) \<Longrightarrow> text = source_failed_text url"
  by (cases ev) (auto split: if_splits)

section \<open>The updater with the alert thread\<close>

inductive alerting_step :: "crates \<Rightarrow> machine \<times> alerts \<Rightarrow> machine \<times> alerts \<Rightarrow> bool" for c where
  updater_moves: "step c l m m' \<Longrightarrow>
    alerting_step c (m, al) (m', fold alert (raised l m m') al)"
| thread_delivers: "alerting_step c (m, al) (m, deliver now al)"

text \<open>\<^verbatim>\<open>main\<close> initialises the alerts before it starts the updater.\<close>

inductive alerting_reachable ::
  "crates \<Rightarrow> usize \<Rightarrow> string list \<Rightarrow> string option \<Rightarrow> string option \<Rightarrow> machine \<times> alerts \<Rightarrow> bool"
  for c capacity urls s d where
  alerting_start: "init_alerts s d spawned None = Inr (Some al) \<Longrightarrow>
    alerting_reachable c capacity urls s d (initial_machine capacity urls, al)"
| alerting_move: "alerting_reachable c capacity urls s d x \<Longrightarrow> alerting_step c x y \<Longrightarrow>
    alerting_reachable c capacity urls s d y"

inductive_cases alerting_stepE: "alerting_step c x y"

lemma alerting_machine:
  "alerting_reachable c capacity urls s d x \<Longrightarrow> reachable c capacity urls (fst x)"
proof (induction rule: alerting_reachable.induct)
  case (alerting_move x y)
  from alerting_move(2,3) show ?case by (elim alerting_stepE) (auto intro: reachable.move)
qed (simp add: reachable.start)

text \<open>
  The alerts do not hold up the updater: each of its states occurs here, also with the queue drained.
\<close>

lemma alerting_any:
  assumes "reachable c capacity urls m" and "init_alerts s d spawned None = Inr (Some al0)"
  shows "\<exists>al. alerting_reachable c capacity urls s d (m, al)"
  using assms
  by (induction rule: reachable.induct) (blast intro: alerting_start alerting_move updater_moves)+

lemma alerting_drained:
  "alerting_reachable c capacity urls s d (m, al) \<Longrightarrow>
   \<exists>al'. alerting_reachable c capacity urls s d (m, al') \<and> al_queue al' = []"
proof (induction "length (al_queue al)" arbitrary: al)
  case (Suc n)
  then have "n = length (al_queue (deliver 0 al))"
    by (auto simp: deliver_def split: list.split)
  moreover have "alerting_reachable c capacity urls s d (m, deliver 0 al)"
    using Suc(3) by (rule alerting_move) (rule thread_delivers)
  ultimately show ?case by (rule Suc(1))
qed auto

section \<open>Which steps end readiness\<close>

text \<open>
  Why a step that finds the store ready leaves it unready: a stop, the active source's end, or
  an update of the active source that does not decode.
\<close>

datatype outage = StopRequested | SourceLost | UpdateUndecodable

fun outage_of :: "crates \<Rightarrow> event option \<Rightarrow> machine \<Rightarrow> outage option" where
  "outage_of c None m = (if m_stop m then Some StopRequested else None)"
| "outage_of c (Some (Disconnected failed)) m =
     (if failed = active_source (m_service m) then Some SourceLost else None)"
| "outage_of c (Some (AccountEvent source update)) m =
     (if source = active_source (m_service m) \<and> \<not> is_ok (decode_account_update c update)
      then Some UpdateUndecodable else None)"
| "outage_of c (Some _) m = None"

lemma serve_event_restart:
  assumes "serve_event c ev svc su refresh = ServeRestart svc'"
  shows "source_failed c (active_source svc) ev"
  using assms
  by (cases ev) (auto simp: Let_def serve_state_event_def split: if_splits sum.splits prod.splits)

lemma source_failed_outage:
  "source_failed c (active_source (m_service m)) ev \<Longrightarrow>
     outage_of c (Some ev) m = Some (if serve_alerts ev url (m_service m) \<noteq> [] then SourceLost else UpdateUndecodable)"
  by (cases ev) auto

lemma step_outage:
  assumes "step c l m m'" and "machine_ok m" and "ready (m_store m)" and "\<not> ready (m_store m')"
  shows "\<exists>url u refresh. m_phase m = Serving url u refresh \<and> active_yellowstone_url (m_store m) = Some url \<and>
    (l = None \<and> m_stop m \<and> m' = shutdown m \<or>
     (\<exists>ev. l = Some ev \<and> source_failed c (active_source (m_service m)) ev \<and>
       m' = serve_received c ev url u refresh m))"
  using assms
proof (induction rule: step.induct)
  case (serve_stop m url u refresh)
  then show ?case by (simp add: machine_ok_def serving_ok_def)
next
  case (serve_recv m url u refresh ev)
  have "source_failed c (active_source (m_service m)) ev"
  proof (cases "serve_event c ev (m_service m) (m_store m, u) refresh")
    case (ServeContinue svc s' u' refresh')
    have "service_ok (m_service m)" "phase_ok (Serving url u refresh) m"
      using serve_recv by (simp_all add: machine_ok_def)
    from serve_event_ok [OF this(1) serve_recv(2) this(2), of c] serve_recv show ?thesis
      by (simp add: ServeContinue serve_received_def serving_ok_def)
  next
    case (ServeRestart svc)
    then show ?thesis by (rule serve_event_restart)
  qed
  with serve_recv show ?case by (auto simp: machine_ok_def serving_ok_def)
next
  case (serve_done m url u r res)
  then show ?case
    using serve_refreshed_ok [of m url u r res]
    by (cases res) (auto simp: serve_refreshed_def install_refreshed_alt_state_def machine_ok_def
      serving_ok_def split: prod.splits)
qed (simp_all add: machine_ok_def)

section \<open>The queue\<close>

lemma fold_alert_targets: "al_targets (fold alert texts al) = al_targets al"
  by (induction texts arbitrary: al) (simp_all add: alert_def)

lemma delivered_fold_alert: "delivered al ds \<Longrightarrow> delivered (fold alert texts al) ds"
  by (induction texts arbitrary: al) (auto intro: delivered_alert)

text \<open>The queue and the thread keep their invariant next to the updater.\<close>

lemma alerting_delivered:
  assumes "alerting_reachable c capacity urls s d x"
  shows "al_targets (snd x) = alert_targets s d \<and> (\<exists>ds. delivered (snd x) ds)"
  using assms
proof (induction rule: alerting_reachable.induct)
  case (alerting_start al)
  then show ?case by (auto simp: init_alerts_ok delivered_def intro!: exI [of _ "[]"])
next
  case (alerting_move x y)
  from alerting_move(2,3) show ?case
  proof cases
    case (updater_moves l m m' al)
    with alerting_move(3) show ?thesis
      by (auto simp: fold_alert_targets dest: delivered_fold_alert)
  next
    case (thread_delivers m al now)
    with alerting_move(3) show ?thesis
      using delivered_run [of al _ "[Deliver now]"] alert_step_targets [of "[Deliver now]" al] by auto
  qed
qed

lemma alerting_sender:
  "alerting_reachable c capacity urls s d (m, al) \<Longrightarrow> al_sender al \<longleftrightarrow> s \<noteq> None \<or> d \<noteq> None"
  by (drule alerting_delivered) (auto simp: delivered_def alert_targets_def split: option.splits)

text \<open>
  An alert never says that readiness is lost while the step leaves the store ready.
\<close>

lemma raised_unready:
  assumes "step c l m m'" and "machine_ok m" and "raised l m m' \<noteq> []"
  shows "\<not> ready (m_store m')"
  using assms
proof (induction rule: step.induct)
  case (boot_fetched m url buffered res)
  then have "bootstrap_alerts res \<noteq> []" by (simp add: raised_bootstrap_fetched)
  then obtain e where "res = Inl e" by (cases res) (simp_all add: bootstrap_alerts_def)
  with boot_fetched show ?case by (simp add: bootstrap_fetched_def machine_ok_def)
next
  case (serve_recv m url u refresh ev)
  then have "source_failed c (active_source (m_service m)) ev"
    by (simp add: raised_serve_received serve_alerts_raised)
  then obtain svc where "serve_event c ev (m_service m) (m_store m, u) refresh = ServeRestart svc"
    using serve_source_failed [of c "m_service m" ev "(m_store m, u)" refresh] by auto
  then show ?case by (simp add: serve_received_def)
qed (auto simp: raised_def give_up_def shutdown_def loop_top_def enter_def Let_def split: if_splits)

text \<open>
  Whatever is configured, an alert is one of the two texts, with a source's URL at most: no token
  and no address of the bootstrap service is ever posted.
\<close>

definition alert_text :: "string list \<Rightarrow> string \<Rightarrow> bool" where
  "alert_text urls text \<longleftrightarrow>
     text = bootstrap_failed_text \<or> (\<exists>url \<in> set urls. text = source_failed_text url)"

lemma raised_cases:
  obtains "raised l m m' = []"
  | "raised l m m' = [bootstrap_failed_text]"
  | ev url u refresh where "m_phase m = Serving url u refresh"
      and "raised l m m' = serve_alerts ev url (m_service m)"
  using that
  by (cases "(l, m_phase m, m_phase m', m_service m)" rule: raised_between.cases)
    (auto simp: raised_def)

lemma raised_text:
  assumes "machine_ok m" and "text \<in> set (raised l m m')"
  shows "alert_text (yellowstone_urls (m_service m)) text"
proof (rule raised_cases [of l m m'])
  fix ev url u refresh
  assume "m_phase m = Serving url u refresh" and "raised l m m' = serve_alerts ev url (m_service m)"
  with assms show ?thesis
    by (auto simp: alert_text_def machine_ok_def serving_ok_def service_ok_def dest: serve_alerts_text)
qed (use assms in \<open>simp_all add: alert_text_def\<close>)

definition alerts_named :: "string list \<Rightarrow> alerts \<Rightarrow> bool" where
  "alerts_named urls al \<longleftrightarrow>
     list_all (alert_text urls) (al_queue al) \<and>
     list_all (\<lambda>p. \<exists>t \<in> set (al_targets al). \<exists>text.
       alert_text urls text \<and> post_url p = target_url t \<and> post_json p = payload t text) (al_posts al)"

lemma alerts_named_fold:
  "alerts_named urls al \<Longrightarrow> list_all (alert_text urls) texts \<Longrightarrow> alerts_named urls (fold alert texts al)"
  by (induction texts arbitrary: al) (auto simp: alerts_named_def alert_def)

lemma alerts_named_deliver: "alerts_named urls al \<Longrightarrow> alerts_named urls (deliver now al)"
  by (fastforce simp: alerts_named_def deliver_def announce_def list_all_iff split: list.split)

lemma alerting_named:
  assumes "alerting_reachable c capacity urls s d x" and "urls \<noteq> []"
  shows "alerts_named urls (snd x)"
  using assms
proof (induction rule: alerting_reachable.induct)
  case (alerting_start al)
  then show ?case by (auto simp: init_alerts_ok alerts_named_def)
next
  case (alerting_move x y)
  have reach: "reachable c capacity urls (fst x)" using alerting_move(1) by (rule alerting_machine)
  from alerting_move(2) show ?case
  proof cases
    case (updater_moves l m m' al)
    with reach have "machine_ok m" and "yellowstone_urls (m_service m) = urls"
      using reachable_ok reachable_configuration alerting_move(4) by auto
    then have "list_all (alert_text urls) (raised l m m')"
      using raised_text [of m] by (auto simp: list_all_iff)
    with updater_moves alerting_move show ?thesis by (simp add: alerts_named_fold)
  next
    case (thread_delivers m al now)
    with alerting_move show ?thesis by (simp add: alerts_named_deliver)
  qed
qed

section \<open>What a step raises\<close>

lemma outage_raises:
  assumes "step c l m m'" and "machine_ok m" and "ready (m_store m)" and "\<not> ready (m_store m')"
  shows "\<exists>url \<in> set (yellowstone_urls (m_service m)). active_yellowstone_url (m_store m) = Some url \<and>
    outage_of c l m \<noteq> None \<and>
    raised l m m' = (if outage_of c l m = Some SourceLost then [source_failed_text url] else [])"
proof -
  obtain url u refresh where phase: "m_phase m = Serving url u refresh"
    and active: "active_yellowstone_url (m_store m) = Some url"
    and why: "l = None \<and> m_stop m \<and> m' = shutdown m \<or>
      (\<exists>ev. l = Some ev \<and> source_failed c (active_source (m_service m)) ev \<and>
        m' = serve_received c ev url u refresh m)"
    using step_outage [OF assms] by blast
  have "url \<in> set (yellowstone_urls (m_service m))"
    using assms(2) phase by (auto simp: machine_ok_def serving_ok_def service_ok_def)
  moreover have "outage_of c l m \<noteq> None \<and> raised l m m' =
      (if outage_of c l m = Some SourceLost then [source_failed_text url] else [])"
    using why
  proof
    assume "\<exists>ev. l = Some ev \<and> source_failed c (active_source (m_service m)) ev \<and>
      m' = serve_received c ev url u refresh m"
    then obtain ev where ev: "l = Some ev" "source_failed c (active_source (m_service m)) ev"
      and m': "m' = serve_received c ev url u refresh m" by blast
    show ?thesis
      unfolding ev(1) m' raised_serve_received [OF phase]
      using source_failed_outage [OF ev(2), of url] by (cases ev) (auto split: if_splits)
  qed (simp add: raised_def phase)
  ultimately show ?thesis using active by blast
qed

lemma raises_unless_ready:
  assumes "step c l m m'" and "machine_ok m" and "\<not> (ready (m_store m) \<and> \<not> ready (m_store m'))"
  shows "raised l m m' = [] \<or> raised l m m' = [bootstrap_failed_text] \<and> \<not> ready (m_store m')"
proof -
  have unready: "raised l m m' \<noteq> [] \<Longrightarrow> \<not> ready (m_store m') \<and> \<not> ready (m_store m)"
    using raised_unready [OF assms(1,2)] assms(3) by blast
  show ?thesis
  proof (rule raised_cases [of l m m'])
    fix ev url u refresh
    assume "m_phase m = Serving url u refresh"
    then have "ready (m_store m)" using assms(2) by (simp add: machine_ok_def serving_ok_def)
    with unready show ?thesis by blast
  qed (use unready in auto)
qed

section \<open>Property\<close>

text \<open>
  C23. An outage is reported, except for one: in every run next to the alert thread, a step that
  takes readiness away while a source is served is a requested stop, the loss of that source, or
  an update of it that does not decode. The loss queues exactly one alert, naming the source the
  store showed, if a webhook is configured and fewer than 32 alerts wait; the other two queue
  none. An alert is never raised by a step that leaves the store ready.
\<close>

theorem outages_alerted:
  assumes "alerting_reachable c capacity urls s d (m, al)" and "urls \<noteq> []" and "step c l m m'"
  shows "(if ready (m_store m) \<and> \<not> ready (m_store m')
      then \<exists>url \<in> set urls. active_yellowstone_url (m_store m) = Some url \<and>
        outage_of c l m \<noteq> None \<and>
        al_queue (fold alert (raised l m m') al) = al_queue al @
          (if outage_of c l m = Some SourceLost \<and> (s \<noteq> None \<or> d \<noteq> None) \<and> length (al_queue al) < 32
           then [source_failed_text url] else [])
      else raised l m m' = [] \<or> raised l m m' = [bootstrap_failed_text] \<and> \<not> ready (m_store m'))"
proof -
  have reach: "reachable c capacity urls m" using alerting_machine [OF assms(1)] by simp
  then have ok: "machine_ok m" using assms(2) by (rule reachable_ok)
  have urls: "yellowstone_urls (m_service m) = urls" using reachable_configuration [OF reach] by simp
  show ?thesis
  proof (cases "ready (m_store m) \<and> \<not> ready (m_store m')")
    case True
    then obtain url where "url \<in> set urls" "active_yellowstone_url (m_store m) = Some url"
      "outage_of c l m \<noteq> None"
      "raised l m m' = (if outage_of c l m = Some SourceLost then [source_failed_text url] else [])"
      using outage_raises [OF assms(3) ok] unfolding urls by blast
    with True alerting_sender [OF assms(1)] show ?thesis by (auto simp: alert_def queue_capacity_def)
  next
    case False
    with raises_unless_ready [OF assms(3) ok False] show ?thesis by auto
  qed
qed

lemma outages_alerted_witness:
  "\<exists>al u. alerting_reachable sample_crates 10 [''one'', ''two''] (Some ''hook'') None (sample_serving, al) \<and>
     al_queue (fold alert (raised (Some (Disconnected 1)) sample_serving
       (serve_received sample_crates (Disconnected 1) ''two'' u None sample_serving)) al) =
     [''ALT cache source two failed; readiness is false'']"
proof -
  obtain u where u: "m_phase sample_serving = Serving ''two'' u None"
    using sample_serving_phase by blast
  let ?m' = "serve_received sample_crates (Disconnected 1) ''two'' u None sample_serving"
  have src: "from_source sample_serving (Disconnected 1)"
    and failed: "source_failed sample_crates (active_source (m_service sample_serving)) (Disconnected 1)"
    by (simp_all add: from_source_def sample_serving_phase sample_bootstrapping_phase)
  obtain al where al: "alerting_reachable sample_crates 10 [''one'', ''two''] (Some ''hook'') None (sample_serving, al)"
    "al_queue al = []"
    using alerting_any [OF sample_serving_reachable, where s = "Some ''hook''" and d = None and spawned = "Inr ()"]
      alerting_drained unfolding init_alerts_ok by (metis (full_types))
  have "\<not> ready (m_store ?m')"
    using serve_source_failed [OF failed, of "(m_store sample_serving, u)" None]
    by (auto simp: serve_received_def)
  moreover have "active_yellowstone_url (m_store sample_serving) = Some ''two''"
    using reachable_ok [OF sample_serving_reachable] u by (simp add: machine_ok_def serving_ok_def)
  ultimately show ?thesis
    using outages_alerted [OF al(1) _ step.serve_recv [OF u src]] al
    by (intro exI [of _ al] exI [of _ u])
      (simp add: sample_serving_phase sample_bootstrapping_phase source_failed_text_def)
qed

end
