(* ===== verification/Served_State.thy ===== *)
theory Served_State
  imports Lifecycle
begin

text \<open>
  What the service serves, over whole runs: a \<open>history\<close> is a run of the machine of \<open>Service\<close> with
  the events it received, the moments a fetch of the state began and the fetched states it
  installed. The state served at its end is the last installed one with every write and
  confirmation staged on top that the served source has sent since that fetch began.
\<close>

section \<open>Histories\<close>

datatype item = Heard event | Began | Got fetched_alt_state

text \<open>
  A fetch begins with each bootstrap, also with the one that follows a bootstrap given up, and when
  a background refresh is due and none is running.
\<close>

fun gave_up :: "bootstrap_outcome \<Rightarrow> bool" where
  "gave_up (BootstrapGiveUp svc) = True"
| "gave_up (BootstrapContinue svc buffered) = False"
| "gave_up (BootstrapFail e) = False"

fun begins :: "crates \<Rightarrow> event option \<Rightarrow> service \<Rightarrow> phase \<Rightarrow> phase \<Rightarrow> bool" where
  "begins c (Some ev) svc (Bootstrapping url buffered) (Bootstrapping url' buffered') =
     gave_up (bootstrap_event c ev svc buffered)"
| "begins c None svc (Bootstrapping url buffered) (Bootstrapping url' buffered') = False"
| "begins c l svc (Serving url u refresh) (Serving url' u' refresh') =
     (refresh = None \<and> refresh' \<noteq> None)"
| "begins c l svc p (Bootstrapping url' buffered') = True"
| "begins c l svc _ _ = False"

definition marks :: "crates \<Rightarrow> event option \<Rightarrow> machine \<Rightarrow> machine \<Rightarrow> item list" where
  "marks c l m m' =
     (case l of None \<Rightarrow> [] | Some ev \<Rightarrow> [Heard ev]) @
     (if begins c l (m_service m) (m_phase m) (m_phase m') then [Began] else [])"

text \<open>The steps without an event that end a fetch other than by an error of a bootstrap.\<close>

fun fetch_ended :: "phase \<Rightarrow> phase \<Rightarrow> bool" where
  "fetch_ended (Bootstrapping url buffered) (Serving url' u' refresh') = True"
| "fetch_ended (Serving url u (Some r)) (Serving url' u' None) = True"
| "fetch_ended _ _ = False"

inductive history :: "crates \<Rightarrow> usize \<Rightarrow> string list \<Rightarrow> item list \<Rightarrow> machine \<Rightarrow> bool"
  for c capacity urls where
  hist_start: "history c capacity urls [] (initial_machine capacity urls)"
| hist_heard: "history c capacity urls h m \<Longrightarrow> step c (Some ev) m m' \<Longrightarrow>
    history c capacity urls (h @ marks c (Some ev) m m') m'"
| hist_quiet: "history c capacity urls h m \<Longrightarrow> step c None m m' \<Longrightarrow>
    \<not> fetch_ended (m_phase m) (m_phase m') \<Longrightarrow> history c capacity urls (h @ marks c None m m') m'"
| hist_bootstrapped: "history c capacity urls h m \<Longrightarrow> m_phase m = Bootstrapping url buffered \<Longrightarrow>
    fetch_result c None (Inr f) \<Longrightarrow>
    history c capacity urls (h @ [Got f]) (bootstrap_fetched (Inr f) url buffered m)"
| hist_refreshed: "history c capacity urls h m \<Longrightarrow> m_phase m = Serving url u (Some r) \<Longrightarrow>
    fetch_result c (Some (refresh_minimum r)) (Inr f) \<Longrightarrow>
    history c capacity urls (h @ [Got f]) (serve_refreshed (Inr f) url u r m)"
| hist_refresh_failed: "history c capacity urls h m \<Longrightarrow> m_phase m = Serving url u (Some r) \<Longrightarrow>
    fetch_result c (Some (refresh_minimum r)) (Inl e) \<Longrightarrow>
    history c capacity urls h (serve_refreshed (Inl e) url u r m)"

text \<open>Every run has a history, and histories are runs.\<close>

lemma history_reachable: "history c capacity urls h m \<Longrightarrow> reachable c capacity urls m"
  by (induction rule: history.induct) (blast intro: reachable.intros step.boot_fetched step.serve_done)+

lemma fetch_ended_not [simp]:
  "\<not> fetch_ended p p" "\<not> fetch_ended p WaitingForSource" "\<not> fetch_ended p RetryPause"
  "\<not> fetch_ended p Stopped" "\<not> fetch_ended p (Failed e)" "\<not> fetch_ended p (Bootstrapping url buffered)"
  "\<not> fetch_ended (Serving url u refresh) (Serving url u (serve_refresh_due u refresh))"
  by (cases p rule: phase.exhaust; auto simp: serve_refresh_due_def elim: fetch_ended.elims)+

lemma step_fetch_ended:
  assumes "step c None m m'" and "fetch_ended (m_phase m) (m_phase m')"
  obtains url buffered f where "m_phase m = Bootstrapping url buffered" "fetch_result c None (Inr f)"
      "m' = bootstrap_fetched (Inr f) url buffered m"
  | url u r res where "m_phase m = Serving url u (Some r)" "fetch_result c (Some (refresh_minimum r)) res"
      "m' = serve_refreshed res url u r m"
proof -
  have "(\<exists>url buffered f. m_phase m = Bootstrapping url buffered \<and> fetch_result c None (Inr f) \<and>
      m' = bootstrap_fetched (Inr f) url buffered m) \<or>
    (\<exists>url u r res. m_phase m = Serving url u (Some r) \<and> fetch_result c (Some (refresh_minimum r)) res \<and>
      m' = serve_refreshed res url u r m)"
    using assms(1)
  proof cases
    case (boot_fetched url buffered res)
    with assms(2) show ?thesis by (cases res) (auto simp: bootstrap_fetched_def)
  qed (use assms(2) in \<open>auto simp: give_up_def loop_top_def enter_def Let_def\<close>)
  with that show thesis by blast
qed

lemma reachable_history: "reachable c capacity urls m \<Longrightarrow> \<exists>h. history c capacity urls h m"
proof (induction rule: reachable.induct)
  case (move m l m')
  then obtain h where h: "history c capacity urls h m" by blast
  show ?case
  proof (cases l)
    case None
    with move(2) have quiet: "step c None m m'" by simp
    show ?thesis
    proof (cases "fetch_ended (m_phase m) (m_phase m')")
      case True
      from quiet True show ?thesis
      proof (cases rule: step_fetch_ended)
        case (2 url u r res)
        with h show ?thesis by (cases res) (blast intro: hist_refreshed hist_refresh_failed)+
      qed (use h in \<open>blast intro: hist_bootstrapped\<close>)
    qed (use hist_quiet [OF h quiet] in blast)
  next
    case (Some ev)
    with hist_heard [OF h] move(2) show ?thesis by blast
  qed
qed (blast intro: hist_start)

section \<open>What an installed state and the events since amount to\<close>

text \<open>The state events of one source among the items heard.\<close>

fun state_events :: "crates \<Rightarrow> nat \<Rightarrow> event \<Rightarrow> state_event list" where
  "state_events c i (AccountEvent source update) =
     (if source = i
      then (case decode_account_update c update of Inl e \<Rightarrow> [] | Inr ev \<Rightarrow> [ev]) else [])"
| "state_events c i (ConfirmedEvent source slot) = (if source = i then [ConfirmedSlot slot] else [])"
| "state_events c i (Connected source) = []"
| "state_events c i (Disconnected source) = []"

fun noted_events :: "crates \<Rightarrow> nat \<Rightarrow> item \<Rightarrow> state_event list" where
  "noted_events c i (Heard ev) = state_events c i ev"
| "noted_events c i Began = []"
| "noted_events c i (Got f) = []"

definition heard :: "crates \<Rightarrow> nat \<Rightarrow> item list \<Rightarrow> state_event list" where
  "heard c i h = concat (map (noted_events c i) h)"

lemma heard_simps [simp]:
  "heard c i [] = []" "heard c i (x # h) = noted_events c i x @ heard c i h"
  "heard c i (h @ h') = heard c i h @ heard c i h'"
  by (simp_all add: heard_def)

text \<open>
  Installing a state shows every key's last accepted write up to the confirmed slot, the late
  ones too.
\<close>

definition spec_finish :: "'a staging_spec \<Rightarrow> 'a staging_spec" where
  "spec_finish sp = sp\<lparr>spec_shown := latest (spec_base sp) (spec_log sp) (spec_confirmed sp)\<rparr>"

definition installed_spec :: "fetched_alt_state \<Rightarrow> state_event list \<Rightarrow> state_event list \<Rightarrow> account staging_spec" where
  "installed_spec f before since =
     spec_run (map as_staged since) (spec_finish (fetched_spec f before))"

lemma finish_refines:
  assumes "su.refines u sp"
  shows "su.refines (snd (finish_recovery (s, u))) (spec_finish sp)"
proof -
  let ?u = "snd (finish_recovery (s, u))"
  have frames: "bootstrap_slot ?u = bootstrap_slot u" "versions ?u = versions u"
    "confirmed_slot ?u = confirmed_slot u"
    by (simp_all add: finish_recovery_def Let_def)
  have "updater_inv (u'\<lparr>recovering := b\<rparr>) = updater_inv u'" for u' b
    by (simp add: updater_inv_def)
  then have inv: "updater_inv ?u"
    using assms updater_inv_apply_pending_through by (simp add: su.refines_def finish_recovery_def Let_def)
  have "view s' ?u = view s' u" if "confirmed_slot u \<le> s'" for s'
    using finish_recovery_view [of "(s, u)" s'] that by simp
  with assms inv show ?thesis
    using finish_recovery_updater(3) [of "(s, u)"]
    unfolding su.refines_def frames by (simp add: spec_finish_def)
qed

lemma refines_event:
  "su.refines u (installed_spec f before since) \<Longrightarrow>
   su.refines (snd (apply_state_event ev (s, u))) (installed_spec f before (since @ [ev]))"
  by (simp add: snd_apply_state_event installed_spec_def spec_run_append su.refines_step)

lemma installed_refines:
  "finish_recovery (replay before (s, from_fetched_alt_state url f)) = (s', u') \<Longrightarrow>
   su.refines u' (installed_spec f before [])"
  using finish_refines [OF replay_refines [of before s url f], of "fst (replay before (s, from_fetched_alt_state url f))"]
  by (simp add: installed_spec_def)

section \<open>The invariant of histories\<close>

fun is_heard :: "item \<Rightarrow> bool" where
  "is_heard (Heard ev) = True"
| "is_heard Began = False"
| "is_heard (Got f) = False"

fun is_got :: "item \<Rightarrow> bool" where
  "is_got (Got f) = True"
| "is_got Began = False"
| "is_got (Heard ev) = False"

text \<open>A fetch is under way, and its buffer holds what the source has sent since it began.\<close>

definition fetching :: "crates \<Rightarrow> nat \<Rightarrow> item list \<Rightarrow> state_event list \<Rightarrow> bool" where
  "fetching c i h buffered \<longleftrightarrow>
     (\<exists>h0 h1. h = h0 @ Began # h1 \<and> list_all is_heard h1 \<and> buffered = heard c i h1)"

text \<open>
  The store and the updater hold the last installed state. The store shows it once a slot was
  confirmed after the installation, and before that unless it was installed at the very slot the
  store already showed; then it still has the snapshot it had when the fetch ended.
\<close>

definition holds_installed ::
  "crates \<Rightarrow> usize \<Rightarrow> string list \<Rightarrow> nat \<Rightarrow> item list \<Rightarrow> store \<Rightarrow> state_updater \<Rightarrow> bool" where
  "holds_installed c capacity urls i h s u \<longleftrightarrow>
     (\<exists>h0 h1 f h2. h = h0 @ Began # h1 @ Got f # h2 \<and> list_all is_heard h1 \<and> \<not> list_ex is_got h2 \<and>
        su.refines u (installed_spec f (heard c i h1) (heard c i h2)) \<and>
        (snap_accounts (current s) = accounts u \<or>
         confirmed_slot u = spec_confirmed (fetched_spec f (heard c i h1)) \<and>
         (\<exists>m0. history c capacity urls (h0 @ Began # h1) m0 \<and> current (m_store m0) = current s)))"

lemma fetching_began: "fetching c i (h @ [Began]) []"
  unfolding fetching_def by (intro exI [of _ h] exI [of _ "[]"]) simp

lemma fetching_heard:
  assumes "fetching c i h buffered"
  shows "fetching c i (h @ [Heard ev]) (buffered @ state_events c i ev)"
proof -
  obtain h0 h1 where "h = h0 @ Began # h1" "list_all is_heard h1" "buffered = heard c i h1"
    using assms unfolding fetching_def by blast
  then show ?thesis
    unfolding fetching_def by (intro exI [of _ h0] exI [of _ "h1 @ [Heard ev]"]) simp
qed

lemma holds_installed_began:
  assumes "holds_installed c capacity urls i h s u"
  shows "holds_installed c capacity urls i (h @ [Began]) s u"
proof -
  obtain h0 h1 f h2 where "h = h0 @ Began # h1 @ Got f # h2" "list_all is_heard h1" "\<not> list_ex is_got h2"
    "su.refines u (installed_spec f (heard c i h1) (heard c i h2))"
    "snap_accounts (current s) = accounts u \<or>
     confirmed_slot u = spec_confirmed (fetched_spec f (heard c i h1)) \<and>
     (\<exists>m0. history c capacity urls (h0 @ Began # h1) m0 \<and> current (m_store m0) = current s)"
    using assms unfolding holds_installed_def by blast
  then show ?thesis
    unfolding holds_installed_def
    by (intro exI [of _ h0] exI [of _ h1] exI [of _ f] exI [of _ "h2 @ [Began]"]) simp
qed

lemma holds_installed_heard:
  assumes "holds_installed c capacity urls i h s u"
    and "snap_slot (current s) = confirmed_slot u" and "\<not> recovering u"
    and "replay (state_events c i ev) (s, u) = (s', u')"
  shows "holds_installed c capacity urls i (h @ [Heard ev]) s' u'"
proof -
  obtain h0 h1 f h2 where h: "h = h0 @ Began # h1 @ Got f # h2" "list_all is_heard h1" "\<not> list_ex is_got h2"
    and refines: "su.refines u (installed_spec f (heard c i h1) (heard c i h2))"
    and shown: "snap_accounts (current s) = accounts u \<or>
     confirmed_slot u = spec_confirmed (fetched_spec f (heard c i h1)) \<and>
     (\<exists>m0. history c capacity urls (h0 @ Began # h1) m0 \<and> current (m_store m0) = current s)"
    using assms(1) unfolding holds_installed_def by blast
  have "su.refines u' (installed_spec f (heard c i h1) (heard c i h2 @ state_events c i ev))"
    using su.refines_run [OF refines, of "map as_staged (state_events c i ev)"]
      snd_replay [of "state_events c i ev" "(s, u)"]
    by (simp add: assms(4) installed_spec_def spec_run_append)
  moreover have "snap_accounts (current s') = accounts u' \<or> current s' = current s \<and> confirmed_slot u' = confirmed_slot u
      \<and> accounts u' = accounts u"
  proof (cases "state_events c i ev")
    case (Cons e es)
    then have "es = []" by (cases ev) (auto split: if_splits sum.splits)
    with Cons have app: "apply_state_event e (s, u) = (s', u')" using assms(4) by simp
    show ?thesis
    proof (cases e)
      case (AccountWrite k sl v a)
      with app show ?thesis by auto
    next
      case (ConfirmedSlot sl)
      with app assms(2,3) show ?thesis
        by (auto simp: confirm_def Let_def current_publish split: if_splits)
    qed
  qed (use assms(4) in simp)
  ultimately show ?thesis
    unfolding holds_installed_def using h shown
    by (intro exI [of _ h0] exI [of _ h1] exI [of _ f] exI [of _ "h2 @ [Heard ev]"]) auto
qed

lemma holds_installed_new:
  assumes "history c capacity urls h m" and "fetching c i h buffered"
    and "finish_recovery (replay buffered (m_store m, from_fetched_alt_state url f)) = (s', u')"
  shows "holds_installed c capacity urls i (h @ [Got f]) s' u'"
proof -
  obtain h0 h1 where h: "h = h0 @ Began # h1" "list_all is_heard h1" and buffered: "buffered = heard c i h1"
    using assms(2) unfolding fetching_def by blast
  have refines: "su.refines u' (installed_spec f (heard c i h1) [])"
    using installed_refines [OF assms(3)] by (simp add: buffered)
  have slot: "confirmed_slot u' = spec_confirmed (fetched_spec f (heard c i h1))"
    using refines by (simp add: su.refines_def installed_spec_def spec_finish_def)
  have "current s' = current (m_store m) \<or> snap_accounts (current s') = accounts u'"
    using finish_recovery_store [of "replay buffered (m_store m, from_fetched_alt_state url f)"]
      replay_recovering [of "(m_store m, from_fetched_alt_state url f)" buffered] assms(3)
    by (auto simp: current_publish)
  with h refines slot assms(1) show ?thesis
    unfolding holds_installed_def
    by (intro exI [of _ h0] exI [of _ h1] exI [of _ f] exI [of _ "[]"]) auto
qed

definition history_ok :: "crates \<Rightarrow> usize \<Rightarrow> string list \<Rightarrow> item list \<Rightarrow> machine \<Rightarrow> bool" where
  "history_ok c capacity urls h m \<longleftrightarrow>
     (case m_phase m of
        Bootstrapping url buffered \<Rightarrow> fetching c (active_source (m_service m)) h buffered
      | Serving url u refresh \<Rightarrow>
          holds_installed c capacity urls (active_source (m_service m)) h (m_store m) u \<and>
          (case refresh of
             None \<Rightarrow> True
           | Some r \<Rightarrow> fetching c (active_source (m_service m)) h (buffered_events r))
      | _ \<Rightarrow> True)"

text \<open>The phases a bootstrap or a wait starts with.\<close>

fun fresh :: "phase \<Rightarrow> bool" where
  "fresh (Bootstrapping url buffered) = (buffered = [])"
| "fresh (Serving url u refresh) = False"
| "fresh _ = True"

lemma fresh_entered [simp]: "fresh (m_phase (enter m))" "fresh (m_phase (loop_top m))" "fresh (m_phase (give_up m))"
  by (simp_all add: enter_def loop_top_def give_up_def Let_def)

lemma history_ok_fresh:
  assumes "fresh (m_phase m')"
    and "\<And>url. m_phase m' = Bootstrapping url [] \<Longrightarrow> begins c l (m_service m) (m_phase m) (m_phase m')"
  shows "history_ok c capacity urls (h @ marks c l m m') m'"
proof (cases "m_phase m'")
  case (Bootstrapping url buffered)
  with assms have "begins c l (m_service m) (m_phase m) (m_phase m')" and "buffered = []" by auto
  then have "fetching c i (h @ marks c l m m') buffered" for i
    using fetching_began [of c i "h @ (case l of None \<Rightarrow> [] | Some ev \<Rightarrow> [Heard ev])"] by (simp add: marks_def)
  then show ?thesis by (simp add: history_ok_def Bootstrapping)
qed (use assms(1) in \<open>simp_all add: history_ok_def\<close>)

lemma bootstrap_event_buffered:
  assumes "bootstrap_event c ev svc buffered = BootstrapContinue svc' buffered'"
  shows "buffered' = buffered @ state_events c (active_source svc) ev \<and> active_source svc' = active_source svc"
  using assms
  by (cases ev) (auto simp: Let_def bootstrap_buffer_def split: if_splits sum.splits)

lemma serve_event_applied:
  assumes "serve_event c ev svc (s, u) refresh = ServeContinue svc' s' u' refresh'"
  shows "replay (state_events c (active_source svc) ev) (s, u) = (s', u') \<and>
    active_source svc' = active_source svc \<and>
    (\<forall>r'. refresh' = Some r' \<longrightarrow> (\<exists>r. refresh = Some r \<and>
      buffered_events r' = buffered_events r @ state_events c (active_source svc) ev))"
  using assms
  by (cases ev)
    (auto simp: Let_def serve_state_event_def buffer_refresh_event_Some split: if_splits sum.splits prod.splits)

lemma history_ok_heard:
  assumes "step c (Some ev) m m'" and "machine_ok m" and "history_ok c capacity urls h m"
  shows "history_ok c capacity urls (h @ marks c (Some ev) m m') m'"
  using assms(1)
proof cases
  case wait_recv
  show ?thesis by (rule history_ok_fresh) (simp_all add: wait_recv wait_received_def)
next
  case (boot_recv url buffered)
  show ?thesis
  proof (cases "bootstrap_event c ev (m_service m) buffered")
    case (BootstrapContinue svc buffered')
    with bootstrap_event_buffered [OF this] boot_recv assms(3) show ?thesis
      by (auto simp: bootstrap_received_def history_ok_def marks_def intro: fetching_heard)
  next
    case (BootstrapGiveUp svc)
    with boot_recv have "m' = give_up (m\<lparr>m_service := svc\<rparr>)" by (simp add: bootstrap_received_def)
    then show ?thesis by (intro history_ok_fresh) (simp_all add: boot_recv BootstrapGiveUp)
  next
    case (BootstrapFail e)
    with boot_recv show ?thesis by (simp add: bootstrap_received_def history_ok_def)
  qed
next
  case (serve_recv url u refresh)
  show ?thesis
  proof (cases "serve_event c ev (m_service m) (m_store m, u) refresh")
    case (ServeContinue svc s' u' refresh')
    let ?i = "active_source (m_service m)"
    note applied = serve_event_applied [OF ServeContinue]
    have m': "m' = m\<lparr>m_service := svc, m_store := s', m_phase := Serving url u' refresh'\<rparr>"
      using serve_recv by (simp add: serve_received_def ServeContinue)
    have "holds_installed c capacity urls ?i (h @ [Heard ev]) s' u'"
      using assms(2,3) serve_recv applied
      by (intro holds_installed_heard [of c capacity urls ?i h "m_store m" u])
        (simp_all add: history_ok_def Let_def machine_ok_def serving_ok_def)
    moreover have "fetching c ?i (h @ [Heard ev]) (buffered_events r')" if "refresh' = Some r'" for r'
    proof -
      from applied that obtain r where "refresh = Some r"
        and "buffered_events r' = buffered_events r @ state_events c ?i ev" by blast
      with assms(3) serve_recv show ?thesis by (simp add: history_ok_def fetching_heard)
    qed
    moreover have "\<not> (refresh = None \<and> refresh' \<noteq> None)" using applied by auto
    ultimately show ?thesis
      using applied by (auto simp: history_ok_def m' marks_def serve_recv split: option.split)
  next
    case (ServeRestart svc)
    with serve_recv have "m' = loop_top (m\<lparr>m_service := svc\<rparr>)" by (simp add: serve_received_def)
    then show ?thesis by (intro history_ok_fresh) (simp_all add: serve_recv)
  qed
qed

lemma marks_same: "m_phase m' = m_phase m \<Longrightarrow> marks c None m m' = []"
  by (cases "m_phase m") (auto simp: marks_def)

lemma history_ok_same:
  assumes "m_phase m' = m_phase m" and "m_service m' = m_service m"
    and "current (m_store m') = current (m_store m)"
  shows "history_ok c capacity urls h m' = history_ok c capacity urls h m"
  unfolding history_ok_def holds_installed_def assms ..

lemma serve_refreshed_phase:
  "\<exists>u'. m_phase (serve_refreshed res url u r m) = Serving url u' None"
  by (cases res) (auto simp: serve_refreshed_def install_refreshed_alt_state_def split: prod.split)

lemma history_ok_quiet:
  assumes "step c None m m'" and "\<not> fetch_ended (m_phase m) (m_phase m')"
    and "history_ok c capacity urls h m"
  shows "history_ok c capacity urls (h @ marks c None m m') m'"
  using assms(1)
proof cases
  case cancel
  with assms(3) show ?thesis using history_ok_same [of m' m] marks_same [of m' m] by simp
next
  case (reader now sl after limit)
  with assms(3) show ?thesis using history_ok_same [of m' m] marks_same [of m' m] by simp
next
  case (boot_stop url buffered)
  then show ?thesis by (simp add: give_up_def history_ok_def)
next
  case (boot_fetched url buffered res)
  with assms(2) have "m_phase m' = RetryPause"
    by (cases res) (auto simp: bootstrap_fetched_def split: prod.splits)
  then show ?thesis by (simp add: history_ok_def)
next
  case pause_over
  show ?thesis by (rule history_ok_fresh) (simp_all add: pause_over)
next
  case (serve_due url u refresh)
  show ?thesis
  proof (cases refresh)
    case None
    with serve_due assms(3) show ?thesis
      by (simp add: history_ok_def marks_def serve_refresh_due_def refresh_start_def Let_def
          holds_installed_began fetching_began)
  next
    case (Some r)
    with serve_due assms(3) show ?thesis
      by (simp add: history_ok_def marks_def serve_refresh_due_def)
  qed
next
  case (serve_done url u r res)
  with assms(2) serve_refreshed_phase [of res url u r m] show ?thesis by auto
qed (simp_all add: history_ok_def)

lemma history_ok:
  assumes "history c capacity urls h m" and "urls \<noteq> []"
  shows "history_ok c capacity urls h m"
  using assms
proof (induction rule: history.induct)
  case hist_start
  have "m_phase (initial_machine capacity urls) = WaitingForSource"
    by (simp add: initial_machine_def loop_top_def enter_def wait_entry_def Let_def)
  then show ?case by (simp add: history_ok_def)
next
  case (hist_heard h m ev m')
  then show ?case using reachable_ok [OF history_reachable] by (blast intro: history_ok_heard)
next
  case (hist_quiet h m m')
  then show ?case by (blast intro: history_ok_quiet)
next
  case (hist_bootstrapped h m url buffered f)
  obtain s' u' where finish:
    "finish_recovery (replay buffered (m_store m, from_fetched_alt_state url f)) = (s', u')"
    by fastforce
  have "fetching c (active_source (m_service m)) h buffered"
    using hist_bootstrapped by (simp add: history_ok_def)
  from holds_installed_new [OF hist_bootstrapped(1) this finish] show ?case
    by (simp add: history_ok_def bootstrap_fetched_def bootstrap_finish_def finish)
next
  case (hist_refreshed h m url u r f)
  obtain s' u' where finish:
    "finish_recovery (replay (buffered_events r) (m_store m, from_fetched_alt_state url f)) = (s', u')"
    by fastforce
  have "fetching c (active_source (m_service m)) h (buffered_events r)"
    using hist_refreshed by (simp add: history_ok_def Let_def)
  from holds_installed_new [OF hist_refreshed(1) this finish] show ?case
    by (simp add: history_ok_def serve_refreshed_def install_refreshed_alt_state_def finish)
next
  case (hist_refresh_failed h m url u r e)
  then show ?case
    by (simp add: history_ok_def serve_refreshed_def install_refreshed_alt_state_def Let_def)
qed

section \<open>Property\<close>

text \<open>
  C4. What is served is what was fetched and heard: in every run, while the service serves a
  source, its confirmed slot and account map are those of the abstract staging machine run on the
  listing \<open>f\<close> that was installed last, with all writes and confirmations the source has sent since
  the fetch of that listing began, before the installation (\<open>h1\<close>) and after it (\<open>h2\<close>). Readers
  get that slot with that map, except that until the first slot confirmed after an installation
  they may still get the snapshot of the same slot that was current when the fetch ended.
\<close>

theorem served_state_explained:
  assumes "history c capacity urls h m" and "urls \<noteq> []" and "m_phase m = Serving url u refresh"
  shows "\<exists>h0 h1 f h2. h = h0 @ Began # h1 @ Got f # h2 \<and> list_all is_heard h1 \<and> \<not> list_ex is_got h2 \<and>
    (let i = active_source (m_service m);
         sp = installed_spec f (heard c i h1) (heard c i h2);
         shown = snap_accounts (current (m_store m))
     in read_snapshot (m_store m) = Inr \<lparr>read_slot = spec_confirmed sp, read_accounts = shown\<rparr> \<and>
        om_get (accounts u) = spec_shown sp \<and>
        (om_get shown = spec_shown sp \<or>
         spec_confirmed sp = spec_confirmed (installed_spec f (heard c i h1) []) \<and>
         (\<exists>m0. history c capacity urls (h0 @ Began # h1) m0 \<and> current (m_store m0) = current (m_store m))))"
proof -
  let ?i = "active_source (m_service m)"
  have ok: "serving_ok m url u"
    using reachable_ok [OF history_reachable [OF assms(1)] assms(2)] assms(3) by (simp add: machine_ok_def)
  have "holds_installed c capacity urls ?i h (m_store m) u"
    using history_ok [OF assms(1,2)] assms(3) by (simp add: history_ok_def Let_def)
  then obtain h0 h1 f h2 where h: "h = h0 @ Began # h1 @ Got f # h2" "list_all is_heard h1" "\<not> list_ex is_got h2"
    and refines: "su.refines u (installed_spec f (heard c ?i h1) (heard c ?i h2))"
    and shown: "snap_accounts (current (m_store m)) = accounts u \<or>
     confirmed_slot u = spec_confirmed (fetched_spec f (heard c ?i h1)) \<and>
     (\<exists>m0. history c capacity urls (h0 @ Began # h1) m0 \<and> current (m_store m0) = current (m_store m))"
    unfolding holds_installed_def by blast
  have spec: "confirmed_slot u = spec_confirmed (installed_spec f (heard c ?i h1) (heard c ?i h2))"
    "om_get (accounts u) = spec_shown (installed_spec f (heard c ?i h1) (heard c ?i h2))"
    "spec_confirmed (installed_spec f (heard c ?i h1) []) = spec_confirmed (fetched_spec f (heard c ?i h1))"
    using refines by (simp_all add: su.refines_def) (simp add: installed_spec_def spec_finish_def)
  have read: "read_snapshot (m_store m) =
      Inr \<lparr>read_slot = spec_confirmed (installed_spec f (heard c ?i h1) (heard c ?i h2)),
           read_accounts = snap_accounts (current (m_store m))\<rparr>"
    using ok by (simp add: read_snapshot_def serving_ok_def flip: spec(1))
  have "om_get (snap_accounts (current (m_store m))) =
      spec_shown (installed_spec f (heard c ?i h1) (heard c ?i h2)) \<or>
    spec_confirmed (installed_spec f (heard c ?i h1) (heard c ?i h2)) =
      spec_confirmed (installed_spec f (heard c ?i h1) []) \<and>
    (\<exists>m0. history c capacity urls (h0 @ Began # h1) m0 \<and> current (m_store m0) = current (m_store m))"
    using shown spec by auto
  with h read spec(2) show ?thesis unfolding Let_def by blast
qed

text \<open>Installing shows writes; it does not change which ones are logged.\<close>

lemma spec_log_shown: "spec_log (spec_run es (sp\<lparr>spec_shown := x\<rparr>)) = spec_log (spec_run es sp)"
proof (induction es arbitrary: sp x)
  case (Cons e es)
  have "\<exists>y. spec_step e (sp\<lparr>spec_shown := x\<rparr>) = (spec_step e sp)\<lparr>spec_shown := y\<rparr>"
  proof (cases e)
    case (Write w)
    show ?thesis by (rule exI [of _ x]) (simp add: Write)
  next
    case (Flush s)
    show ?thesis
      by (rule exI [of _ "if s \<le> spec_confirmed sp then x else latest (spec_base sp) (spec_log sp) s"])
        (simp add: Flush)
  qed
  then show ?case using Cons.IH by auto
qed simp

lemma installed_log:
  "spec_log (installed_spec f before since) = spec_log (fetched_spec f (before @ since))"
  by (simp add: installed_spec_def fetched_spec_def spec_finish_def spec_log_shown spec_run_append)

lemma installed_base: "spec_base (installed_spec f before since) = om_get (fetched_accounts f)"
  by (simp add: installed_spec_def fetched_spec_def spec_finish_def spec_init_def)

text \<open>The next confirmation publishes the log up to its slot.\<close>

lemma confirmation_read:
  assumes "serving_ok m url u" and "m_phase m = Serving url u refresh" and "confirmed_slot u < sl"
    and "su.refines u (installed_spec f before since)"
  shows "\<exists>a. read_snapshot (m_store (serve_received c (ConfirmedEvent (active_source (m_service m)) sl) url u refresh m)) =
      Inr \<lparr>read_slot = sl, read_accounts = a\<rparr> \<and>
    om_get a = latest (om_get (fetched_accounts f)) (spec_log (fetched_spec f (before @ since))) sl"
proof -
  let ?u = "confirm_updater sl u"
  have "view sl u = latest (om_get (fetched_accounts f)) (spec_log (fetched_spec f (before @ since))) sl"
    using assms(3,4) by (simp add: su.refines_def installed_log installed_base)
  then have accs: "om_get (accounts ?u) =
      latest (om_get (fetched_accounts f)) (spec_log (fetched_spec f (before @ since))) sl"
    using su.flush_new(2) [OF assms(3)] by simp
  have "confirm sl (m_store m, u) = (True, publish (source_url ?u) sl (accounts ?u) (m_store m), ?u)"
    using assms(1,3) by (simp add: confirm_def confirm_updater_def serving_ok_def Let_def not_le)
  moreover have "snap_slot (current (m_store m)) \<noteq> sl" using assms(1,3) by (auto simp: serving_ok_def)
  ultimately show ?thesis
    using accs by (simp add: serve_received_def serve_state_event_def read_snapshot_def current_publish)
qed

text \<open>
  C3. The writes a source sends are served: in every run, when the served source confirms a new
  slot, readers get that slot, with \<open>f\<close> the listing installed last and \<open>h1\<close>, \<open>h2\<close> what was
  heard since its fetch began. Every key shows the last write up to that slot among those that
  advanced it, that is, which are not older than the listing and are newer, by slot and version,
  than everything the source had sent for the key before; and what was fetched when there is none.
  In particular, a key whose newest write has a slot that is now confirmed shows that write, in
  whatever order the writes came, and a key without writes shows what was fetched.
\<close>

theorem confirmed_writes_served:
  assumes "history c capacity urls h m" and "urls \<noteq> []" and "m_phase m = Serving url u refresh"
    and "confirmed_slot u < sl"
  shows "\<exists>h0 h1 f h2. h = h0 @ Began # h1 @ Got f # h2 \<and> list_all is_heard h1 \<and> \<not> list_ex is_got h2 \<and>
    (let i = active_source (m_service m);
         m' = serve_received c (ConfirmedEvent i sl) url u refresh m;
         sent = writes_of (map as_staged (heard c i (h1 @ h2)));
         writes = {w \<in> set sent. context_slot f \<le> w_slot w}
     in \<exists>a. read_snapshot (m_store m') = Inr \<lparr>read_slot = sl, read_accounts = a\<rparr> \<and>
        om_get a = latest (om_get (fetched_accounts f)) (advancing (context_slot f) [] sent) sl \<and>
        (\<forall>w \<in> writes. w_slot w \<le> sl \<and>
           (\<forall>x \<in> writes. w_key x = w_key w \<and> x \<noteq> w \<longrightarrow> stamp x < stamp w) \<longrightarrow>
           om_get a (w_key w) = w_value w) \<and>
        (\<forall>k. (\<forall>w \<in> writes. w_key w \<noteq> k) \<longrightarrow> om_get a k = om_get (fetched_accounts f) k))"
proof -
  let ?i = "active_source (m_service m)"
  have ok: "serving_ok m url u"
    using reachable_ok [OF history_reachable [OF assms(1)] assms(2)] assms(3) by (simp add: machine_ok_def)
  have "holds_installed c capacity urls ?i h (m_store m) u"
    using history_ok [OF assms(1,2)] assms(3) by (simp add: history_ok_def)
  then obtain h0 h1 f h2 where h: "h = h0 @ Began # h1 @ Got f # h2" "list_all is_heard h1" "\<not> list_ex is_got h2"
    and refines: "su.refines u (installed_spec f (heard c ?i h1) (heard c ?i h2))"
    unfolding holds_installed_def by blast
  let ?es = "map as_staged (heard c ?i (h1 @ h2))"
  obtain a where read: "read_snapshot (m_store (serve_received c (ConfirmedEvent ?i sl) url u refresh m)) =
      Inr \<lparr>read_slot = sl, read_accounts = a\<rparr>"
    and a: "om_get a = latest (om_get (fetched_accounts f))
      (spec_log (spec_run ?es (spec_init (context_slot f) (om_get (fetched_accounts f))))) sl"
    using confirmation_read [OF ok assms(3,4) refines, of c] by (auto simp: fetched_spec_def)
  let ?writes = "{w \<in> set (writes_of ?es). context_slot f \<le> w_slot w}"
  have "\<forall>w \<in> ?writes. w_slot w \<le> sl \<and>
      (\<forall>x \<in> ?writes. w_key x = w_key w \<and> x \<noteq> w \<longrightarrow> stamp x < stamp w) \<longrightarrow> om_get a (w_key w) = w_value w"
    unfolding a by (intro ballI impI latest_newest) auto
  moreover have "\<forall>k. (\<forall>w \<in> ?writes. w_key w \<noteq> k) \<longrightarrow> om_get a k = om_get (fetched_accounts f) k"
    unfolding a by (intro allI impI latest_untouched) (auto simp: not_le)
  moreover have "om_get a =
      latest (om_get (fetched_accounts f)) (advancing (context_slot f) [] (writes_of ?es)) sl"
    unfolding a spec_log_init ..
  ultimately show ?thesis
    using h read unfolding Let_def by blast
qed

lemma sample_serving_history:
  "history c 10 [''one'', ''two'']
     [Heard (Connected 1), Began, Heard (ConfirmedEvent 1 6),
      Got \<lparr>context_slot = 5, fetched_accounts = om_empty\<rparr>] sample_serving"
proof -
  let ?m = "sample_bootstrapping\<lparr>m_phase := Bootstrapping ''two'' [ConfirmedSlot 6]\<rparr>"
  have "step c (Some (Connected 1)) sample_waiting sample_bootstrapping"
    unfolding sample_bootstrapping_def
    by (rule step.wait_recv) (simp_all add: sample_waiting_phase from_source_def)
  from hist_heard [OF hist_start [of c 10 "[''one'', ''two'']", folded sample_waiting_def] this]
  have boot: "history c 10 [''one'', ''two''] [Heard (Connected 1), Began] sample_bootstrapping"
    by (simp add: marks_def sample_waiting_phase sample_bootstrapping_phase)
  have "step c (Some (ConfirmedEvent 1 6)) sample_bootstrapping
      (bootstrap_received c (ConfirmedEvent 1 6) ''two'' [] sample_bootstrapping)"
    by (rule step.boot_recv) (simp_all add: sample_bootstrapping_phase from_source_def)
  moreover have "bootstrap_received c (ConfirmedEvent 1 6) ''two'' [] sample_bootstrapping = ?m"
    by (simp add: bootstrap_received_def sample_bootstrapping_phase bootstrap_buffer_def)
  ultimately have "step c (Some (ConfirmedEvent 1 6)) sample_bootstrapping ?m" by simp
  from hist_heard [OF boot this]
  have "history c 10 [''one'', ''two''] [Heard (Connected 1), Began, Heard (ConfirmedEvent 1 6)] ?m"
    by (simp add: marks_def sample_bootstrapping_phase bootstrap_buffer_def)
  moreover have "fetch_result c None (Inr \<lparr>context_slot = 5, fetched_accounts = om_empty\<rparr>)"
    by (rule fetch_result_empty) simp
  ultimately have "history c 10 [''one'', ''two'']
      ([Heard (Connected 1), Began, Heard (ConfirmedEvent 1 6)] @
       [Got \<lparr>context_slot = 5, fetched_accounts = om_empty\<rparr>]) sample_serving"
    unfolding sample_serving_def by (intro hist_bootstrapped) simp_all
  then show ?thesis by simp
qed

lemma served_state_explained_witness:
  "\<exists>u a. m_phase sample_serving = Serving ''two'' u None \<and> om_get (accounts u) = Map.empty \<and>
     read_snapshot (m_store sample_serving) = Inr \<lparr>read_slot = 6, read_accounts = a\<rparr>"
proof -
  let ?f = "\<lparr>context_slot = 5, fetched_accounts = om_empty\<rparr> :: fetched_alt_state"
  have i: "active_source (m_service sample_serving) = 1"
    by (simp add: sample_serving_phase sample_bootstrapping_phase)
  have split: "[Heard (Connected 1), Began, Heard (ConfirmedEvent 1 6), Got ?f] =
      h0 @ Began # h1 @ Got f # h2 \<Longrightarrow> f = ?f \<and> h1 = [Heard (ConfirmedEvent 1 6)] \<and> h2 = []" for h0 h1 f h2
    by (auto simp: Cons_eq_append_conv append_eq_Cons_conv)
  have sp: "spec_confirmed (installed_spec ?f [ConfirmedSlot 6] []) = 6"
    "spec_shown (installed_spec ?f [ConfirmedSlot 6] []) = Map.empty"
    by (simp_all add: installed_spec_def fetched_spec_def spec_finish_def spec_init_def)
  obtain u where phase: "m_phase sample_serving = Serving ''two'' u None"
    using sample_serving_phase by blast
  from served_state_explained [OF sample_serving_history [of sample_crates] _ phase] obtain h0 h1 f h2 where
    h: "[Heard (Connected 1), Began, Heard (ConfirmedEvent 1 6), Got ?f] = h0 @ Began # h1 @ Got f # h2"
    and state: "let i = active_source (m_service sample_serving);
        sp = installed_spec f (heard sample_crates i h1) (heard sample_crates i h2);
        shown = snap_accounts (current (m_store sample_serving))
      in read_snapshot (m_store sample_serving) = Inr \<lparr>read_slot = spec_confirmed sp, read_accounts = shown\<rparr> \<and>
         om_get (accounts u) = spec_shown sp \<and>
         (om_get shown = spec_shown sp \<or>
          spec_confirmed sp = spec_confirmed (installed_spec f (heard sample_crates i h1) []) \<and>
          (\<exists>m0. history sample_crates 10 [''one'', ''two''] (h0 @ Began # h1) m0 \<and>
             current (m_store m0) = current (m_store sample_serving)))"
    by auto
  from state show ?thesis
    using split [OF h] by (auto simp: Let_def i sp phase)
qed

lemma confirmed_writes_served_witness:
  "\<exists>m u a. m_phase m = Serving ''two'' u None \<and>
     read_snapshot (m_store (serve_received sample_crates (ConfirmedEvent 1 7) ''two'' u None m)) =
       Inr \<lparr>read_slot = 7, read_accounts = a\<rparr> \<and>
     om_get a (key_fill 8) = Some (sample_account 8) \<and> om_get a (key_fill 9) = None"
proof -
  let ?f = "\<lparr>context_slot = 5, fetched_accounts = om_empty\<rparr> :: fetched_alt_state"
  let ?ev = "AccountEvent 1 (sample_update 8 7)"
  have svc: "m_service sample_serving = m_service sample_bootstrapping" "active_source (m_service sample_bootstrapping) = 1"
    by (simp_all add: sample_serving_phase sample_bootstrapping_phase)
  obtain u where phase: "m_phase sample_serving = Serving ''two'' u None" and "confirmed_slot u = 6"
    using sample_serving_phase by blast
  define u1 where "u1 = snd (queue (key_fill 8) 7 5 (Some (sample_account 8)) u)"
  define m where "m = serve_received sample_crates ?ev ''two'' u None sample_serving"
  have m: "m_phase m = Serving ''two'' u1 None" "m_service m = m_service sample_serving"
    by (simp_all add: m_def serve_received_def serve_state_event_def svc u1_def buffer_refresh_event_def)
  have "step sample_crates (Some ?ev) sample_serving m"
    unfolding m_def by (rule step.serve_recv [OF phase]) (simp add: from_source_def svc sample_bootstrapping_phase)
  from hist_heard [OF sample_serving_history this]
  have history: "history sample_crates 10 [''one'', ''two'']
      [Heard (Connected 1), Began, Heard (ConfirmedEvent 1 6), Got ?f, Heard ?ev] m"
    by (simp add: marks_def phase m)
  have split: "[Heard (Connected 1), Began, Heard (ConfirmedEvent 1 6), Got ?f, Heard ?ev] =
      h0 @ Began # h1 @ Got f # h2 \<Longrightarrow> f = ?f \<and> h1 = [Heard (ConfirmedEvent 1 6)] \<and> h2 = [Heard ?ev]" for h0 h1 f h2
    by (auto simp: Cons_eq_append_conv append_eq_Cons_conv)
  have "confirmed_slot u1 < 7" using \<open>confirmed_slot u = 6\<close> by (simp add: u1_def)
  from confirmed_writes_served [OF history _ m(1) this] obtain h0 h1 f h2 a where
    h: "[Heard (Connected 1), Began, Heard (ConfirmedEvent 1 6), Got ?f, Heard ?ev] = h0 @ Began # h1 @ Got f # h2"
    and read: "read_snapshot (m_store (serve_received sample_crates (ConfirmedEvent 1 7) ''two'' u1 None m)) =
      Inr \<lparr>read_slot = 7, read_accounts = a\<rparr>"
    and newest: "let sent = writes_of (map as_staged (heard sample_crates 1 (h1 @ h2)));
        writes = {w \<in> set sent. context_slot f \<le> w_slot w}
      in om_get a = latest (om_get (fetched_accounts f)) (advancing (context_slot f) [] sent) 7 \<and>
         (\<forall>w \<in> writes. w_slot w \<le> 7 \<and>
           (\<forall>x \<in> writes. w_key x = w_key w \<and> x \<noteq> w \<longrightarrow> stamp x < stamp w) \<longrightarrow> om_get a (w_key w) = w_value w) \<and>
         (\<forall>k. (\<forall>w \<in> writes. w_key w \<noteq> k) \<longrightarrow> om_get a k = om_get (fetched_accounts f) k)"
    unfolding Let_def m(2) svc by auto
  have "om_get a (key_fill 8) = Some (sample_account 8) \<and> om_get a (key_fill 9) = None"
    using newest split [OF h] by (auto simp: Let_def acceptable_def)
  with m(1) read show ?thesis by blast
qed

end
