(* ===== verification/Unit_Tests.thy ===== *)
theory Unit_Tests
  imports Alerts Json_Rpc Client_Session
begin

text \<open>
  The unit tests of the repository, run on the model: each \<^verbatim>\<open>#[test]\<close> is a bool-valued definition,
  statement by statement, and a lemma says that it passes. What a test builds with a library (the
  bytes of a serialized table, the clock, a size on the wire) is an argument, and a lemma's
  hypotheses are the libraries' laws it needs. Left out are the tests of TOML and JSON parsing,
  which is the libraries' alone.
\<close>

section \<open>Results\<close>

text \<open>\<^verbatim>\<open>unwrap()\<close> in a test: an error panics, which fails the test.\<close>

definition unwrapped :: "('a \<Rightarrow> bool) \<Rightarrow> 'e + 'a \<Rightarrow> bool" where
  "unwrapped P r = (case r of Inl e \<Rightarrow> False | Inr x \<Rightarrow> P x)"

lemma unwrapped_simps [simp]: "unwrapped P (Inr x) = P x" "unwrapped P (Inl e) = False"
  by (simp_all add: unwrapped_def)

section \<open>The store\<close>

text \<open>The helper \<^verbatim>\<open>account\<close>; such an account has not been validated.\<close>

definition store_test_account :: "crates \<Rightarrow> key \<Rightarrow> account" where
  "store_test_account c key = Account
     \<lparr>pubkey = key_bytes key, lamports = 1, owner = key_bytes (alt_program_id c),
      executable = False, rent_epoch = 0, data = [], write_version = 1, txn_signature = None\<rparr>"

definition test_yellowstone_account_preserves_binary_data :: "crates \<Rightarrow> byte list \<Rightarrow> bool" where
  "test_yellowstone_account_preserves_binary_data c table_data =
     unwrapped (\<lambda>a.
       data (account_value a) = table_data \<and> lamports (account_value a) = 1234 \<and>
       write_version (account_value a) = 5 \<and>
       unwrapped (\<lambda>rpc. ui_decode c (ui_data (kua_account rpc)) = Some (data (account_value a)))
         (to_keyed_ui_account c a))
     (from_yellowstone c
       \<lparr>pubkey = replicate 32 1, lamports = 1234, owner = key_bytes (alt_program_id c),
        executable = False, rent_epoch = 9, data = table_data, write_version = 5,
        txn_signature = None\<rparr>)"

lemma yellowstone_account_preserves_binary_data:
  assumes "alt_deserialize c table_data = Some addresses" and "ui_decode_law c" and "zstd_total c"
  shows "test_yellowstone_account_preserves_binary_data c table_data"
proof -
  obtain z where "zstd_encode c table_data = Some z"
    using assms(3) by (auto simp: zstd_total_def)
  with assms(1,2) show ?thesis
    by (simp add: test_yellowstone_account_preserves_binary_data_def from_yellowstone_def
        to_keyed_ui_account_def to_keyed_ui_account_with_config_def encode_data_def ui_decode_law_def)
qed

definition test_invalid_alt_is_rejected :: "crates \<Rightarrow> bool" where
  "test_invalid_alt_is_rejected c \<longleftrightarrow>
     \<not> is_ok (from_yellowstone c
       \<lparr>pubkey = replicate 32 1, lamports = 1, owner = key_bytes (alt_program_id c),
        executable = False, rent_epoch = 0, data = [], write_version = 0, txn_signature = None\<rparr>)"

lemma invalid_alt_is_rejected:
  "alt_deserialize c [] = None \<Longrightarrow> test_invalid_alt_is_rejected c"
  by (simp add: test_invalid_alt_is_rejected_def from_yellowstone_def)

definition test_snapshot_pages_use_exclusive_ordered_cursors ::
  "crates \<Rightarrow> instant \<Rightarrow> instant \<Rightarrow> bool" where
  "test_snapshot_pages_use_exclusive_ordered_cursors c t1 t2 =
     (let accs = fold (\<lambda>v. om_insert (key_fill v) (store_test_account c (key_fill v))) [3, 1, 2] om_empty;
          store = publish ''one'' 13 accs new_store;
          (first, store) = snapshot_page t1 None None 2 store
      in unwrapped (\<lambda>first.
           map (\<lambda>a. pubkey (account_value a)) (page_accounts first) = [replicate 32 1, replicate 32 2] \<and>
           (let accs = om_insert (key_fill 4) (store_test_account c (key_fill 4)) accs;
                store = publish ''one'' 14 accs store;
                (second, store) = snapshot_page t2 (Some (page_slot first)) (page_next first) 2 store
            in unwrapped (\<lambda>second.
                 length (page_accounts second) = 1 \<and>
                 pubkey (account_value (page_accounts second ! 0)) = replicate 32 3 \<and>
                 page_next second = None) second)) first)"

lemma snapshot_pages_use_exclusive_ordered_cursors:
  "elapsed t2 t1 < retention \<Longrightarrow> test_snapshot_pages_use_exclusive_ordered_cursors c t1 t2"
  by (simp add: test_snapshot_pages_use_exclusive_ordered_cursors_def Let_def snapshot_page_def
      pick_snapshot_def page_of_def publish_def retain_def purge_def new_store_def om_after_def
      store_test_account_def)

section \<open>The state updater\<close>

text \<open>The helpers \<^verbatim>\<open>account\<close>, \<^verbatim>\<open>updater\<close> and \<^verbatim>\<open>store\<close>.\<close>

definition fixture_account :: "crates \<Rightarrow> key \<Rightarrow> account" where
  "fixture_account c key = Account
     \<lparr>pubkey = key_bytes key, lamports = 1, owner = key_bytes (alt_program_id c),
      executable = False, rent_epoch = 0, data = [], write_version = 1, txn_signature = None\<rparr>"

definition fixture_updater :: "string \<Rightarrow> u64 \<Rightarrow> (key, account) omap \<Rightarrow> state_updater" where
  "fixture_updater url slot accs =
     from_fetched_alt_state url \<lparr>context_slot = slot, fetched_accounts = accs\<rparr>"

definition fixture_store :: "store \<times> state_updater" where
  "fixture_store = finish_recovery (new_store, fixture_updater ''one'' 10 om_empty)"

definition test_write_order :: bool where
  "test_write_order =
     (let u = fixture_updater ''one'' 10 om_empty;
          (b1, u) = queue (key_fill 1) 10 100 None u;
          (b2, u) = queue (key_fill 1) 10 99 None u;
          (b3, u) = queue (key_fill 1) 12 2 None u;
          (b4, u) = queue (key_fill 1) 12 1 None u;
          (b5, u) = queue (key_fill 1) 11 999 None u
      in b1 \<and> \<not> b2 \<and> b3 \<and> \<not> b4 \<and> \<not> b5)"

lemma write_order_accepts_bootstrap_slot_and_rejects_older_versions: "test_write_order"
  by (simp add: test_write_order_def fixture_updater_def from_fetched_alt_state_def queue_def)

definition test_source_change_resets_version_domain :: bool where
  "test_source_change_resets_version_domain =
     (let (store, u) = fixture_store;
          (_, u) = queue (key_fill 1) 13 999 None u;
          store = invalidate store;
          u = fixture_updater ''two'' 10 om_empty
      in \<not> health_ready (health store) \<and> fst (queue (key_fill 1) 13 1 None u))"

lemma source_change_resets_version_domain: "test_source_change_resets_version_domain"
  by (simp add: test_source_change_resets_version_domain_def fixture_updater_def
      from_fetched_alt_state_def queue_def health_def split: prod.split)

text \<open>Three assertions on \<^verbatim>\<open>store.health()\<close> that come together: ready, this slot, this many accounts.\<close>

definition shows_health :: "store \<Rightarrow> u64 \<Rightarrow> nat \<Rightarrow> bool" where
  "shows_health store slot count \<longleftrightarrow>
     health_ready (health store) \<and> health_confirmed_slot (health store) = slot \<and>
     health_accounts (health store) = count"

definition test_fetched_state_does_not_replace :: "crates \<Rightarrow> bool" where
  "test_fetched_state_does_not_replace c =
     (let (store, _) = fixture_store;
          refreshed = fixture_updater ''one'' 20 om_empty;
          key = key_fill 8;
          (_, refreshed) = queue key 21 1 (Some (fixture_account c key)) refreshed;
          (_, store, refreshed) = confirm 21 (store, refreshed);
          before = shows_health store 10 0;
          (store, refreshed) = finish_recovery (store, refreshed)
      in before \<and> shows_health store 21 1)"

definition test_late_update_is_published :: "crates \<Rightarrow> bool" where
  "test_late_update_is_published c =
     (let (store, u) = fixture_store;
          key = key_fill 8;
          (accepted, u) = queue key 10 1 (Some (fixture_account c key)) u;
          before = shows_health store 10 0;
          (confirmed, store, u) = confirm 11 (store, u)
      in accepted \<and> before \<and> confirmed \<and> shows_health store 11 1)"

lemmas updater_test_simps =
  fixture_store_def fixture_updater_def from_fetched_alt_state_def finish_recovery_def
  apply_pending_through_def apply_slot_def om_keys_through_def om_keys_def queue_def push_pending_def
  confirm_def apply_mutation_def publish_def new_store_def shows_health_def health_def om_len_def
  om_get_def om_of_list_def entry_remove_def

lemma fetched_state_does_not_replace_the_served_state_until_published:
  "test_fetched_state_does_not_replace c"
  by (simp add: test_fetched_state_does_not_replace_def updater_test_simps Let_def)

lemma late_update_is_published_at_the_next_confirmed_slot: "test_late_update_is_published c"
  by (simp add: test_late_update_is_published_def updater_test_simps Let_def)

section \<open>The updater\<close>

definition test_next_connected_wraps :: bool where
  "test_next_connected_wraps =
     (let connected = {0, 3}
      in next_connected 0 connected 4 = Some 3 \<and> next_connected 3 connected 4 = Some 0)"

definition test_next_connected_returns_current :: bool where
  "test_next_connected_returns_current =
     (let connected = {2}
      in next_connected 2 connected 4 = Some 2 \<and> next_connected 0 {} 4 = None)"

lemma next_connected_wraps_and_skips_disconnected_sources: "test_next_connected_wraps"
  by (simp add: test_next_connected_wraps_def next_connected_def upt_rec)

lemma next_connected_returns_current_only_when_it_is_the_only_option:
  "test_next_connected_returns_current"
  by (simp add: test_next_connected_returns_current_def next_connected_def upt_rec)

section \<open>Configuration, subscription, alerts\<close>

text \<open>The test's TOML text, as the record it parses to.\<close>

definition test_direct_source_values :: "environment \<Rightarrow> bool" where
  "test_direct_source_values env =
     (let source = \<lparr>grpc_url = Some ''https://yellowstone.example.com'', grpc_url_env = None,
                    grpc_token = Some ''token'', grpc_token_env = None\<rparr>
      in unwrapped (\<lambda>url. url = ''https://yellowstone.example.com'') (resolve_source_url env source) \<and>
         unwrapped (\<lambda>token. token = Some ''token'') (resolve_token env source))"

definition test_mixed_values_are_rejected :: "environment \<Rightarrow> bool" where
  "test_mixed_values_are_rejected env =
     (let source = \<lparr>grpc_url = Some ''https://yellowstone.example.com'',
                    grpc_url_env = Some ''YELLOWSTONE_URL'', grpc_token = None, grpc_token_env = None\<rparr>
      in \<not> is_ok (resolve_source_url env source))"

lemma direct_source_values_are_supported: "test_direct_source_values env"
  by (simp add: test_direct_source_values_def resolve_source_url_def resolve_token_def)

lemma mixed_direct_and_environment_values_are_rejected: "test_mixed_values_are_rejected env"
  by (simp add: test_mixed_values_are_rejected_def resolve_source_url_def)

definition test_account_subscription :: "crates \<Rightarrow> 'level \<Rightarrow> bool" where
  "test_account_subscription c confirmed =
     (let request = subscribe_request c confirmed
      in map_option filter_owner (sub_accounts request ''alt-owner'') = Some [program_id c] \<and>
         card (dom (sub_accounts request)) = 1 \<and> card (dom (sub_slots request)) = 1 \<and>
         sub_commitment request = Some confirmed)"

lemma account_subscription_filters_by_alt_owner: "test_account_subscription c confirmed"
  by (simp add: test_account_subscription_def subscribe_request_def)

definition test_alert_targets :: bool where
  "test_alert_targets \<longleftrightarrow>
     payload (SlackTarget []) ''message'' = (''text'', ''message'') \<and>
     payload (DiscordTarget []) ''message'' = (''content'', ''message'')"

lemma alert_targets_use_native_payloads: "test_alert_targets"
  by (simp add: test_alert_targets_def)

section \<open>The snapshot stream\<close>

text \<open>The stream is computed from the store as the call found it; the test invalidates the store after.\<close>

definition test_stream_keeps_its_snapshot :: "(snapshot_chunk \<Rightarrow> nat) \<Rightarrow> bool" where
  "test_stream_keeps_its_snapshot encoded_len =
     (let key = key_fill 7;
          acc = Account \<lparr>pubkey = key_bytes key, lamports = 0, owner = [], executable = False,
                         rent_epoch = 0, data = [1, 2, 3], write_version = 0, txn_signature = None\<rparr>;
          u = from_fetched_alt_state ''test''
                \<lparr>context_slot = 42, fetched_accounts = om_insert key acc om_empty\<rparr>;
          (store, u) = finish_recovery (new_store, u);
          stream = stream_snapshot encoded_len store;
          store = invalidate store
      in unwrapped (\<lambda>chunks.
           case chunks of
             [] \<Rightarrow> False
           | chunk # rest \<Rightarrow>
               chunk_confirmed_slot chunk = 42 \<and> chunk_total_accounts chunk = 1 \<and>
               alt_pubkey (chunk_accounts chunk ! 0) = key_bytes key \<and>
               alt_data (chunk_accounts chunk ! 0) = [1, 2, 3] \<and> rest = []) stream)"

definition test_unready_store_rejects :: "(snapshot_chunk \<Rightarrow> nat) \<Rightarrow> bool" where
  "test_unready_store_rejects encoded_len =
     (stream_snapshot encoded_len new_store = Inl CacheNotReady)"

lemma stream_keeps_its_captured_snapshot_after_invalidation:
  "test_stream_keeps_its_snapshot encoded_len"
  by (simp add: test_stream_keeps_its_snapshot_def updater_test_simps stream_snapshot_def
      read_snapshot_def add_account_def empty_chunk_def Let_def)

lemma unready_store_rejects_a_new_stream: "test_unready_store_rejects encoded_len"
  by (simp add: test_unready_store_rejects_def stream_snapshot_def read_snapshot_def new_store_def)

section \<open>The JSON-RPC methods\<close>

text \<open>
  Requests and replies as the records their JSON text stands for. The calls of the test come at the
  times \<open>t 3\<close> to \<open>t 6\<close>, numbered by the request ids.
\<close>

definition rpc_test_store :: "store \<times> state_updater" where
  "rpc_test_store =
     finish_recovery (new_store,
       from_fetched_alt_state ''test'' \<lparr>context_slot = 1, fetched_accounts = om_empty\<rparr>)"

definition test_health_tracks_invalidation :: bool where
  "test_health_tracks_invalidation =
     (let (store, u) = rpc_test_store
      in unwrapped health_ready (rpc_health store) \<and>
         unwrapped (\<lambda>h. \<not> health_ready h) (rpc_health (invalidate store)))"

lemma health_tracks_invalidation: "test_health_tracks_invalidation"
  by (simp add: test_health_tracks_invalidation_def rpc_test_store_def updater_test_simps rpc_health_def Let_def)

definition rpc_test_account :: "byte \<Rightarrow> account" where
  "rpc_test_account v = Account
     \<lparr>pubkey = key_bytes (key_fill v), lamports = 1, owner = replicate 32 0, executable = False,
      rent_epoch = 0, data = [], write_version = 1, txn_signature = None\<rparr>"

fun data_encoding :: "ui_account_data \<Rightarrow> ui_account_encoding option" where
  "data_encoding (Binary text e) = Some e"
| "data_encoding (LegacyBinary text) = None"

definition rpc_test_ready :: "store \<times> state_updater" where
  "rpc_test_ready =
     (let (store, u) = rpc_test_store;
          u = fold (\<lambda>v u. snd (queue (key_fill v) 4 1 (Some (rpc_test_account v)) u)) [1, 2] u;
          (_, store, u) = confirm 4 (store, u)
      in (store, u))"

definition test_program_accounts :: "crates \<Rightarrow> store \<Rightarrow> bool" where
  "test_program_accounts c store \<longleftrightarrow>
     (case program_accounts c 100000 (program_id c) None store of
        Inr (AccountsOnly v) \<Rightarrow> length v = 2
      | _ \<Rightarrow> False) \<and>
     (case program_accounts c 100000 (program_id c)
             (Some (default_config\<lparr>cfg_commitment := Some ''confirmed'', cfg_encoding := Some Base64,
                                  cfg_with_context := Some True\<rparr>)) store of
        Inr (AccountsContext v) \<Rightarrow>
          ctx_slot v = 4 \<and> length (ctx_value v) = 2 \<and>
          data_encoding (ui_data (kua_account (ctx_value v ! 0))) = Some Base64
      | _ \<Rightarrow> False)"

definition test_v2_pages :: "crates \<Rightarrow> (nat \<Rightarrow> instant) \<Rightarrow> store \<Rightarrow> (store \<Rightarrow> bool) \<Rightarrow> bool" where
  "test_v2_pages c t store rest =
     (case program_accounts_v2 c 100000 (t 3) (program_id c)
             (Some (default_config\<lparr>cfg_limit := Some 1\<rparr>)) store of
        (Inr (PageOnly v), store) \<Rightarrow>
          data_encoding (ui_data (kua_account (pap_accounts v ! 0))) = Some Base64Zstd \<and>
          (case pap_pagination_key v of
             None \<Rightarrow> False
           | Some cursor \<Rightarrow>
               (case program_accounts_v2 c 100000 (t 4) (program_id c)
                       (Some (default_config\<lparr>cfg_limit := Some 1, cfg_pagination_key := Some cursor\<rparr>)) store of
                  (Inr (PageOnly v), store) \<Rightarrow>
                    length (pap_accounts v) = 1 \<and> pap_pagination_key v = None \<and> rest store
                | _ \<Rightarrow> False))
      | _ \<Rightarrow> False)"

definition test_v2_context :: "crates \<Rightarrow> (nat \<Rightarrow> instant) \<Rightarrow> state_updater \<Rightarrow> store \<Rightarrow> bool" where
  "test_v2_context c t u store =
     (case program_accounts_v2 c 100000 (t 5) (program_id c)
             (Some (default_config\<lparr>cfg_limit := Some 1, cfg_with_context := Some True\<rparr>)) store of
        (Inr (PageContext v), store) \<Rightarrow>
          ctx_slot v = 4 \<and> length (pap_accounts (ctx_value v)) = 1 \<and>
          (case pap_pagination_key (ctx_value v) of
             None \<Rightarrow> False
           | Some cursor \<Rightarrow>
               let (_, u) = queue (key_fill 3) 5 1 (Some (rpc_test_account 3)) u;
                   (_, store, u) = confirm 5 (store, u)
               in (case program_accounts_v2 c 100000 (t 6) (program_id c)
                          (Some (default_config\<lparr>cfg_limit := Some 1, cfg_pagination_key := Some cursor,
                                               cfg_with_context := Some True\<rparr>)) store of
                     (Inr (PageContext v), store) \<Rightarrow>
                       ctx_slot v = 4 \<and> length (pap_accounts (ctx_value v)) = 1 \<and>
                       pap_pagination_key (ctx_value v) = None
                   | _ \<Rightarrow> False))
      | _ \<Rightarrow> False)"

definition test_program_accounts_and_v2 :: "crates \<Rightarrow> (nat \<Rightarrow> instant) \<Rightarrow> bool" where
  "test_program_accounts_and_v2 c t =
     (let (store, u) = rpc_test_ready
      in test_program_accounts c store \<and> test_v2_pages c t store (test_v2_context c t u))"

lemmas rpc_test_simps =
  program_accounts_def program_accounts_v2_def validate_program_def validate_config_def
  default_config_def read_snapshot_def validate_min_context_slot_def is_some_and_def unwrap_or_def
  encode_accounts_def to_keyed_ui_account_with_config_def encode_data_def om_values_def
  v2_page_def v2_response_def parse_cursor_option_def snapshot_page_def pick_snapshot_def page_of_def
  retain_def purge_def om_after_def Let_def

lemma rpc_test_account_data [simp]: "data (account_value (rpc_test_account v)) = []"
  by (simp add: rpc_test_account_def)

lemma rpc_test_ready_eq:
  "fst rpc_test_ready =
     \<lparr>current = \<lparr>snap_slot = 4, snap_accounts = om_insert (key_fill 2) (rpc_test_account 2)
        (om_insert (key_fill 1) (rpc_test_account 1) om_empty)\<rparr>,
      ready = True, active_yellowstone_url = Some ''test'', retained = Map.empty\<rparr>"
proof -
  have "\<not> (4 :: u64) \<le> 1" by (simp add: word_le_nat_alt)
  then show ?thesis
    by (simp add: rpc_test_ready_def rpc_test_store_def updater_test_simps Let_def)
qed

lemma purge_single:
  "(\<lambda>slot. case if slot = k then Some r else None of
       None \<Rightarrow> None | Some r \<Rightarrow> if P r then Some r else None) = (if P r then [k \<mapsto> r] else Map.empty)"
  by auto

lemma test_v2_pages_passes:
  assumes "bs58_law c" and "zstd_encode c [] = Some z" and "elapsed (t 4) (t 3) < retention"
    and "store = fst rpc_test_ready"
  shows "test_v2_pages c t store rest =
    rest (store\<lparr>retained := [4 \<mapsto> \<lparr>ret_snapshot = current store, touched = t 4\<rparr>]\<rparr>)"
  by (simp add: test_v2_pages_def assms(2,3,4) rpc_test_ready_eq rpc_test_simps purge_single
      parse_format_cursor [OF assms(1)])

text \<open>A confirmation between two pages leaves the retained snapshots and the flag alone.\<close>

lemma confirm_keeps_retained:
  "confirm slot (s, u) = (b, s', u') \<Longrightarrow> ready s \<Longrightarrow> ready s' \<and> retained s' = retained s"
  by (auto simp: confirm_def Let_def split: if_splits)

lemma test_v2_context_passes:
  assumes "bs58_law c" and "zstd_encode c [] = Some z" and "elapsed (t 6) (t 4) < retention"
    and store: "ready store" "current store = snap" "snap_slot snap = 4"
      "om_items (snap_accounts snap) = [(key_fill 1, rpc_test_account 1), (key_fill 2, rpc_test_account 2)]"
      "retained store = [4 \<mapsto> \<lparr>ret_snapshot = snap, touched = t 4\<rparr>]"
  shows "test_v2_context c t u store"
proof -
  obtain b1 u1 where queued: "queue (key_fill 3) 5 1 (Some (rpc_test_account 3)) u = (b1, u1)"
    by fastforce
  obtain b2 s2 u2 where confirmed: "confirm 5 (store, u1) = (b2, s2, u2)"
    by (metis prod_cases3)
  note kept = confirm_keeps_retained [OF confirmed store(1)]
  show ?thesis
    by (simp add: test_v2_context_def assms(2,3) store rpc_test_simps purge_single queued confirmed
        kept [unfolded store] parse_format_cursor [OF assms(1)])
qed

lemma program_accounts_and_v2_use_standard_shapes:
  assumes "bs58_law c" and "zstd_encode c [] = Some z" and "\<And>i j. elapsed (t i) (t j) < retention"
  shows "test_program_accounts_and_v2 c t"
proof -
  obtain store u where eq: "rpc_test_ready = (store, u)" by (cases rpc_test_ready)
  have store: "store = fst rpc_test_ready" and u: "u = snd rpc_test_ready" by (simp_all add: eq)
  have "test_program_accounts c store"
    by (simp add: test_program_accounts_def store rpc_test_ready_eq rpc_test_simps assms(2))
  moreover have "test_v2_pages c t store (test_v2_context c t u)"
    unfolding test_v2_pages_passes [OF assms(1-3) store]
    by (rule test_v2_context_passes [OF assms]) (simp_all add: store rpc_test_ready_eq)
  ultimately show ?thesis by (simp add: test_program_accounts_and_v2_def eq)
qed

section \<open>The client\<close>

text \<open>\<open>table_data\<close> is a serialized table with the one address \<^verbatim>\<open>[9; 32]\<close>.\<close>

definition test_account_update :: "crates \<Rightarrow> byte list \<Rightarrow> key \<Rightarrow> u64 \<Rightarrow> account_update" where
  "test_account_update c table_data key lam =
     \<lparr>upd_account = Some
        \<lparr>pubkey = key_bytes key, lamports = lam, owner = key_bytes (alt_program_id c),
         executable = False, rent_epoch = 0, data = table_data, write_version = 1, txn_signature = None\<rparr>,
      upd_slot = 42, upd_is_startup = False\<rparr>"

definition test_snapshot_download :: "crates \<Rightarrow> byte list \<Rightarrow> bool" where
  "test_snapshot_download c table_data =
     unwrapped (\<lambda>download.
       unwrapped (\<lambda>snapshot.
         done_slot snapshot = 42 \<and> done_chunks snapshot = 1 \<and>
         map_option table_addresses (om_get (done_tables snapshot) (key_fill 1)) = Some [key_fill 9])
       (finish download))
     (push c \<lparr>chunk_confirmed_slot = 42, chunk_total_accounts = 1,
              chunk_accounts = [\<lparr>alt_pubkey = replicate 32 1, alt_data = table_data\<rparr>]\<rparr> new_download)"

definition test_yellowstone_updates :: "crates \<Rightarrow> byte list \<Rightarrow> bool" where
  "test_yellowstone_updates c table_data =
     (let key = key_fill 1
      in unwrapped (\<lambda>tables.
           map_option table_addresses (om_get tables key) = Some [key_fill 9] \<and>
           unwrapped (\<lambda>tables. om_get tables key = None)
             (apply_update c tables (test_account_update c table_data key 0)))
         (apply_update c om_empty (test_account_update c table_data key 1)))"

lemma key_of_bytes_fill: "key_of_bytes (replicate 32 b) = Some (key_fill b)"
  by (simp add: key_of_bytes_eq_Some)

lemma snapshot_download_decodes_and_validates_the_stream:
  "alt_deserialize c table_data = Some [key_fill 9] \<Longrightarrow> test_snapshot_download c table_data"
  by (simp add: test_snapshot_download_def push_def new_download_def get_or_def decode_entry_def
      finish_def om_len_def key_of_bytes_fill Let_def)

lemma yellowstone_updates_upsert_and_remove_tables:
  "alt_deserialize c table_data = Some [key_fill 9] \<Longrightarrow> test_yellowstone_updates c table_data"
  by (simp add: test_yellowstone_updates_def apply_update_def test_account_update_def
      key_of_bytes_fill Let_def)

end
