(* ===== verification/Spec2Isabelle.thy ===== *)
theory Spec2Isabelle
  imports Process_Life Chaining Bootstrap_Gap Concurrent_Store Concurrent_Client Alerting
    Served_State Unit_Tests
begin

text \<open>
  A verification library for the Astralane ALT cache, the Rust program under \<^verbatim>\<open>src/src\<close>: a
  service that keeps the address lookup tables of Solana in memory, and a client library that
  keeps a local copy.

  \<^bold>\<open>The program.\<close> \<^verbatim>\<open>main.rs\<close> validates the configuration (\<^verbatim>\<open>config.rs\<close>), sets up logs
  and alerts (\<^verbatim>\<open>logging.rs\<close>) and starts one thread per service. A task per Yellowstone source
  (\<^verbatim>\<open>yellowstone.rs\<close>) sends account updates and confirmed slots to one updater task
  (\<^verbatim>\<open>updater.rs\<close>). It bootstraps from a JSON-RPC provider (\<^verbatim>\<open>alt_state_fetcher.rs\<close>),
  stages updates by slot and version in a state updater (\<^verbatim>\<open>state_updater.rs\<close>) and publishes
  each confirmed state to the store (\<^verbatim>\<open>store.rs\<close>). The JSON-RPC and gRPC services
  (\<^verbatim>\<open>api/json_rpc.rs\<close>, \<^verbatim>\<open>api/grpc.rs\<close>) read the store. The client (\<^verbatim>\<open>client.rs\<close>)
  downloads a snapshot from the gRPC service and follows a source by itself.

  \<^bold>\<open>The theories.\<close>
  \<^item> \<open>Prelude\<close>: machine integers, errors and result combinators, the 32-byte \<open>key\<close> and its order.
  \<^item> \<open>Ordered_Map\<close>: \<^verbatim>\<open>BTreeMap\<close> and \<^verbatim>\<open>imbl::OrdMap\<close>; the locale \<open>ordered_map\<close> holds the laws
    the other theories use, \<open>om\<close> its interpretation.
  \<^item> \<open>Crates\<close>: the functions of third-party crates as one record of parameters, with their
    documented laws (\<open>bs58_law\<close>, \<open>ui_decode_law\<close>, \<open>zstd_total\<close>) and a sample instance that
    satisfies them.
  \<^item> \<open>Config\<close>: \<^verbatim>\<open>config.rs\<close>, with the process environment as an argument. \<open>Alerts\<close>:
    \<^verbatim>\<open>logging.rs\<close>, the choice of log outputs, the alert queue and its rate limit.
  \<^item> \<open>Alt_Account\<close>, \<open>Store\<close>: \<^verbatim>\<open>store.rs\<close>. Accounts, their construction and rendering; the store's
    state as a record and one function per method. \<open>Paging\<close> has the invariant on retained
    snapshots and the listing a client gets by following cursors.
  \<^item> \<open>Staging\<close>: the abstract contract of staging, a log of accepted writes of which each key shows
    the newest up to the confirmed slot, and the locale \<open>staging\<close> with its refinement theorem.
    \<open>State_Updater\<close> models \<^verbatim>\<open>state_updater.rs\<close> and interprets the locale (\<open>su\<close>); \<open>Replay\<close> adds
    \<^verbatim>\<open>StateEvent\<close> and relates the updater to the store.
  \<^item> \<open>Fetcher\<close>: \<^verbatim>\<open>alt_state_fetcher.rs\<close>, the paging loop against an arbitrary service.
  \<^item> \<open>Updater\<close>: the functions of \<^verbatim>\<open>updater.rs\<close> and a handler for each branch of its
    \<^verbatim>\<open>select!\<close> loops. \<open>Service\<close> composes them: a \<open>machine\<close> is the service, the store, the phase
    the task waits in and the cancellation flag, \<open>step\<close> has one rule per branch, \<open>reachable\<close>
    collects the states. \<open>Lifecycle\<close> proves what holds of all of them, \<open>Validity\<close> that each account
    they serve has passed validation. \<open>Served_State\<close> follows whole runs (\<open>history\<close>) and says what is
    served by the abstract machine of \<open>Staging\<close>. \<open>Alerting\<close> runs the machine next to the alert thread of
    \<open>Alerts\<close>: which of its handlers raise an alert (\<open>serve_alerts\<close>, \<open>bootstrap_alerts\<close>).
  \<^item> \<open>Yellowstone\<close>: \<^verbatim>\<open>yellowstone.rs\<close>, the source task over the items its streams yield, and
    what it sends. \<open>Source_Traces\<close> runs the machine of \<open>Service\<close> against the source tasks: a
    \<open>trace\<close> lists the events received, the labels of the steps. \<open>Bootstrap_Gap\<close> is a trace that
    marks a limit of the bootstrap.
  \<^item> \<open>Json_Rpc\<close>: \<^verbatim>\<open>api/json_rpc.rs\<close>, validation, methods, error codes, cursor text.
    \<open>Chaining\<close> composes it with \<open>Fetcher\<close>: one service bootstraps from another.
  \<^item> \<open>Snapshot_Stream\<close>: \<^verbatim>\<open>api/grpc.rs\<close>; \<open>Download\<close>, \<open>Client_Session\<close>: \<^verbatim>\<open>client.rs\<close>. \<open>Mirroring\<close>
    is the simulation between a client session and the service's state updater,
    \<open>Client_Lifecycle\<close> the client's background task as a state machine (\<open>client_step\<close>).
  \<^item> \<open>Concurrent_Store\<close> and \<open>Concurrent_Client\<close> split the methods of \<^verbatim>\<open>store.rs\<close> and the client's
    task and lookups into their atomic accesses and interleave them freely: \<open>interleave\<close> and
    \<open>client_move\<close> have a rule per thread. Both interpret the locale \<open>publication\<close> (\<open>Publication\<close>),
    data published behind a flag. Uninterrupted, the steps of the store are its methods
    (\<open>publish_run_atomic\<close>, \<open>read_run_atomic\<close>, \<open>page_run_atomic\<close>, \<open>health_run_atomic\<close>).
  \<^item> \<open>Startup\<close>: \<^verbatim>\<open>main.rs\<close> and \<^verbatim>\<open>UpdaterService::new\<close>, how a configuration becomes the
    running parts, and what the end of a service's thread does. \<open>Process_Life\<close> is the running
    process: service threads, main thread, signals, cancellation and exit (\<open>process_step\<close>).
  \<^item> \<open>Unit_Tests\<close>: the repository's unit tests as executable definitions, each with a lemma that
    the model passes it; a check of the definitions against what the code is known to do.

  \<^bold>\<open>What is shown.\<close> Staging: the updater refines its contract, the newest write wins in any
  arrival order, a state under construction is invisible and a live one is always in step with
  the store. Service: in every run what is served is the installed listing with all the source has
  sent since its fetch began (\<open>served_state_explained\<close>, \<open>confirmed_writes_served\<close>); it is ready only
  while a connected source is selected and served, or the task has just failed for want of sources,
  and the session of that source is then open; the served slot never goes back;
  only valid accounts are served; failover takes the next connected source at once; a refresh
  loses no event it received; buffers are bounded and nothing panics; the service can always come
  back. The loss of a served source queues one alert that names it, and alerts are rate limited.
  The process never runs on without one of its services. A valid configuration starts, and only such a one, and a source
  task sends its sessions in order.
  Reading: pages follow one snapshot, cursors survive a round trip, error codes are exact. A fetch
  reads a whole listing and terminates; from another service it copies the state exactly, while
  that one goes on living. A streamed snapshot is rebuilt exactly and a truncated one rejected;
  the client answers as the service would, is ready exactly while it follows a source, and
  recovers from the others in order. Threads: under every interleaving a reader of the service gets
  one whole publication that is no older than its call (a page with a cursor, one of the cursor's
  slot), and a lookup of the client an entry its key
  had during the call. Seven theorems mark limits: \<open>refresh_drops_staged_write\<close>,
  \<open>bootstrap_misses_earlier_write\<close>, \<open>regression_mixes_snapshots\<close>, \<open>first_page_does_not_renew\<close>,
  \<open>health_reports_ready_while_empty\<close>, \<open>lookups_tear_a_slot\<close> and \<open>page_of_wrapped\<close>.

  \<^bold>\<open>Conventions.\<close> \<^verbatim>\<open>u64\<close> and \<^verbatim>\<open>usize\<close> are \<open>64 word\<close>, with the wrapping addition of a release
  build; vectors and strings are lists; errors are values of \<open>error\<close>, panics among them
  (\<open>SlicePanic\<close>, \<open>IndexPanic\<close>, \<open>UnwrapPanic\<close>) so that their absence is a theorem. The clock is an
  argument. \<open>fetch_full_alt_state\<close> takes fuel, since a service may hand out new cursors for ever;
  \<open>fetch_terminates\<close> shows that one call more than the service has cursors is enough.

  \<^bold>\<open>Not modelled.\<close> Sockets, HTTP, gRPC, TOML and JSON parsing, and the unit tests of that
  parsing; connecting to a source, which is a parameter; log text, the panic hook's message among
  it; how the servers dispatch requests; the \<^verbatim>\<open>Drop\<close> implementations, which cancel a client's or
  a refresh's task. The interleavings are sequentially
  consistent: every flag is stored with release and loaded with acquire ordering, and the data it
  guards are behind an atomic pointer or a lock.
\<close>

end
